theory Spec2Isabelle
  imports Main "HOL-Library.Monad_Syntax" "HOL-Library.Signed_Division" "HOL-Library.Multiset"
    "HOL-Library.Word"
begin

section \<open>Data model\<close>

text \<open>
  Go's \<^verbatim>\<open>error\<close> values of the package, one constructor per message. A function that
  returns \<^verbatim>\<open>(T, error)\<close> is modelled with result type \<open>error + T\<close>. A run-time panic
  (index out of range, integer division by zero) is the value \<open>None\<close> of an enclosing
  \<open>option\<close>.
\<close>

datatype error =
    ErrInvalidBoard
  | ErrInvalidDimensions
  | ErrExceedsMaximum
  | ErrInvalidDims
  | ErrInputLength
  | ErrDigitExceedsSize
  | ErrInvalidCharacter
  | ErrBuildSolved
  | ErrUniqueness
  | ErrGenerationFailed

datatype Difficulty = Easy | Medium | Hard | OtherDifficulty string

record Grid =
  Size :: int
  BoxRows :: int
  BoxCols :: int
  Cells :: "int list list"

definition MaxGridSize :: int where
  "MaxGridSize = 25"

text \<open>The zero value \<^verbatim>\<open>Grid{}\<close>: all dimensions 0 and a nil slice of rows.\<close>

definition zeroGrid :: Grid where
  "zeroGrid = \<lparr>Size = 0, BoxRows = 0, BoxCols = 0, Cells = []\<rparr>"

text \<open>Go's \<^verbatim>\<open>int\<close> is 64 bits wide on the supported targets; a product wraps around.\<close>

definition int64 :: "int \<Rightarrow> int" where
  "int64 x = (x + 2 ^ 63) mod 2 ^ 64 - 2 ^ 63"

definition NewGrid :: "int \<Rightarrow> int \<Rightarrow> int \<Rightarrow> error + Grid" where
  "NewGrid sz boxRows boxCols =
     (if sz \<le> 0 \<or> boxRows \<le> 0 \<or> boxCols \<le> 0 \<or> sz \<noteq> int64 (boxRows * boxCols)
      then Inl ErrInvalidDimensions
      else if sz > MaxGridSize then Inl ErrExceedsMaximum
      else Inr \<lparr>Size = sz, BoxRows = boxRows, BoxCols = boxCols,
                Cells = replicate (nat sz) (replicate (nat sz) 0)\<rparr>)"

subsection \<open>Indexing with bounds checks\<close>

definition cell :: "int list list \<Rightarrow> nat \<Rightarrow> nat \<Rightarrow> int option" where
  "cell cs r c = (if r < length cs \<and> c < length (cs ! r) then Some (cs ! r ! c) else None)"

definition set_cell :: "int list list \<Rightarrow> nat \<Rightarrow> nat \<Rightarrow> int \<Rightarrow> int list list option" where
  "set_cell cs r c v =
     (if r < length cs \<and> c < length (cs ! r) then Some (cs[r := (cs ! r)[c := v]]) else None)"

subsection \<open>The random source\<close>

type_synonym rng = "nat \<Rightarrow> nat"

definition uint64n :: "rng \<Rightarrow> nat \<Rightarrow> nat \<times> rng" where
  "uint64n rnd n = (rnd 0 mod n, \<lambda>k. rnd (Suc k))"

definition swap :: "'a list \<Rightarrow> nat \<Rightarrow> nat \<Rightarrow> 'a list" where
  "swap xs i j = xs[i := xs ! j, j := xs ! i]"

primrec shuffle_from :: "nat \<Rightarrow> 'a list \<Rightarrow> rng \<Rightarrow> 'a list \<times> rng" where
  "shuffle_from 0 xs rnd = (xs, rnd)"
| "shuffle_from (Suc i) xs rnd =
     (let (j, rnd') = uint64n rnd (Suc i + 1) in shuffle_from i (swap xs (Suc i) j) rnd')"

definition Shuffle :: "'a list \<Rightarrow> rng \<Rightarrow> 'a list \<times> rng" where
  "Shuffle xs rnd = shuffle_from (length xs - 1) xs rnd"

definition Perm :: "nat \<Rightarrow> rng \<Rightarrow> int list \<times> rng" where
  "Perm n rnd = Shuffle (map int [0..<n]) rnd"

section \<open>The solver\<close>

fun first_empty :: "int list list \<Rightarrow> (nat \<times> nat) list \<Rightarrow> (nat \<times> nat \<times> bool) option" where
  "first_empty cs [] = Some (0, 0, False)"
| "first_empty cs ((r, c) # ps) =
     (case cell cs r c of
        None \<Rightarrow> None
      | Some v \<Rightarrow> if v = 0 then Some (r, c, True) else first_empty cs ps)"

definition Grid_findEmpty :: "Grid \<Rightarrow> Grid \<Rightarrow> (nat \<times> nat \<times> bool) option" where
  "Grid_findEmpty g w =
     first_empty (Cells w) (List.product [0..<nat (Size g)] [0..<nat (Size g)])"

fun safe_lines :: "int list list \<Rightarrow> nat \<Rightarrow> nat \<Rightarrow> int \<Rightarrow> nat list \<Rightarrow> bool option" where
  "safe_lines cs r c v [] = Some True"
| "safe_lines cs r c v (i # is) =
     (case cell cs r i of
        None \<Rightarrow> None
      | Some a \<Rightarrow>
          if a = v then Some False
          else (case cell cs i c of
                  None \<Rightarrow> None
                | Some b \<Rightarrow> if b = v then Some False else safe_lines cs r c v is))"

fun safe_box :: "int list list \<Rightarrow> int \<Rightarrow> (nat \<times> nat) list \<Rightarrow> bool option" where
  "safe_box cs v [] = Some True"
| "safe_box cs v ((r, c) # ps) =
     (case cell cs r c of
        None \<Rightarrow> None
      | Some a \<Rightarrow> if a = v then Some False else safe_box cs v ps)"

definition Grid_isSafe :: "Grid \<Rightarrow> Grid \<Rightarrow> nat \<Rightarrow> nat \<Rightarrow> int \<Rightarrow> bool option" where
  "Grid_isSafe g w r c v =
     (case safe_lines (Cells w) r c v [0..<nat (Size g)] of
        None \<Rightarrow> None
      | Some False \<Rightarrow> Some False
      | Some True \<Rightarrow>
          if BoxRows g = 0 \<or> BoxCols g = 0 then None
          else
            let br = (r div nat (BoxRows g)) * nat (BoxRows g);
                bc = (c div nat (BoxCols g)) * nat (BoxCols g)
            in safe_box (Cells w) v
                 (List.product [br..<br + nat (BoxRows g)] [bc..<bc + nat (BoxCols g)]))"

function Grid_backtrack :: "Grid \<Rightarrow> Grid \<Rightarrow> rng \<Rightarrow> (bool \<times> Grid \<times> rng) option"
  and Grid_backtrack_loop ::
    "Grid \<Rightarrow> nat \<Rightarrow> nat \<Rightarrow> int list \<Rightarrow> Grid \<Rightarrow> rng \<Rightarrow> (bool \<times> Grid \<times> rng) option" where
  "Grid_backtrack g w rnd =
     (case Grid_findEmpty g w of
        None \<Rightarrow> None
      | Some (r, c, ok) \<Rightarrow>
          if \<not> ok then Some (True, w, rnd)
          else
            (case Shuffle (map (\<lambda>i. int i + 1) [0..<nat (Size g)]) rnd of
               (vals, rnd') \<Rightarrow> Grid_backtrack_loop g r c vals w rnd'))"
| "Grid_backtrack_loop g r c [] w rnd = Some (False, w, rnd)"
| "Grid_backtrack_loop g r c (v # vs) w rnd =
     (case Grid_isSafe g w r c v of
        None \<Rightarrow> None
      | Some False \<Rightarrow> Grid_backtrack_loop g r c vs w rnd
      | Some True \<Rightarrow>
          (case set_cell (Cells w) r c v of
             None \<Rightarrow> None
           | Some cs \<Rightarrow>
               (case Grid_backtrack g (w\<lparr>Cells := cs\<rparr>) rnd of
                  None \<Rightarrow> None
                | Some (True, w', rnd') \<Rightarrow> Some (True, w', rnd')
                | Some (False, w', rnd') \<Rightarrow>
                    (case set_cell (Cells w') r c 0 of
                       None \<Rightarrow> None
                     | Some cs' \<Rightarrow> Grid_backtrack_loop g r c vs (w'\<lparr>Cells := cs'\<rparr>) rnd'))))"
  by pat_completeness auto


definition zeros_row :: "int list \<Rightarrow> nat" where
  "zeros_row row = length (filter (\<lambda>x. x = 0) row)"

definition zeros :: "int list list \<Rightarrow> nat" where
  "zeros cs = sum_list (map zeros_row cs)"

definition upd :: "int list list \<Rightarrow> nat \<Rightarrow> nat \<Rightarrow> int \<Rightarrow> int list list" where
  "upd cs r c v = cs[r := (cs ! r)[c := v]]"

lemma zeros_row_update:
  "c < length row \<Longrightarrow>
   zeros_row (row[c := v]) + (if row ! c = 0 then 1 else 0) = zeros_row row + (if v = 0 then 1 else 0)"
proof (induction row arbitrary: c)
  case Nil
  then show ?case by simp
next
  case (Cons x xs)
  show ?case
  proof (cases c)
    case 0
    then show ?thesis by (simp add: zeros_row_def)
  next
    case (Suc k)
    with Cons.prems have "k < length xs" by simp
    from Cons.IH[OF this, unfolded zeros_row_def] Suc show ?thesis
      by (auto simp: zeros_row_def split: if_splits)
  qed
qed

lemma zeros_upd:
  assumes "r < length cs" "c < length (cs ! r)"
  shows "zeros (upd cs r c v) + (if cs ! r ! c = 0 then 1 else 0) = zeros cs + (if v = 0 then 1 else 0)"
proof -
  have "zeros_row (cs ! r) \<in> set (map zeros_row cs)"
    using assms(1) by simp
  then have le: "zeros_row (cs ! r) \<le> sum_list (map zeros_row cs)"
    by (simp add: member_le_sum_list)
  have "zeros (upd cs r c v) = sum_list (map zeros_row cs) + zeros_row ((cs ! r)[c := v]) - zeros_row (cs ! r)"
    using assms(1) by (simp add: zeros_def upd_def map_update sum_list_update)
  with zeros_row_update[OF assms(2), of v] le show ?thesis
    by (simp add: zeros_def split: if_splits)
qed

lemma set_cell_Some: "set_cell cs r c v = Some cs' \<longleftrightarrow> r < length cs \<and> c < length (cs ! r) \<and> cs' = upd cs r c v"
  by (auto simp: set_cell_def upd_def)

lemma upd_upd: "upd (upd cs r c v) r c u = upd cs r c u"
  by (cases "r < length cs") (simp_all add: upd_def list_update_beyond)

lemma cell_Some: "cell cs r c = Some v \<longleftrightarrow> r < length cs \<and> c < length (cs ! r) \<and> cs ! r ! c = v"
  by (auto simp: cell_def)

lemma upd_same: "cell cs r c = Some v \<Longrightarrow> upd cs r c v = cs"
  by (auto simp: cell_Some upd_def)

lemma first_empty_found:
  "first_empty cs ps = Some (r, c, True) \<Longrightarrow> cell cs r c = Some 0"
  by (induction cs ps rule: first_empty.induct) (auto split: option.splits if_splits)

lemma Grid_findEmpty_found: "Grid_findEmpty g w = Some (r, c, True) \<Longrightarrow> cell (Cells w) r c = Some 0"
  unfolding Grid_findEmpty_def by (rule first_empty_found)

lemma Grid_backtrack_fail_restores:
  "Grid_backtrack_Grid_backtrack_loop_dom (Inl (g, w, rnd)) \<Longrightarrow>
     Grid_backtrack g w rnd = Some (False, w', rnd') \<Longrightarrow> w' = w"
  "Grid_backtrack_Grid_backtrack_loop_dom (Inr (g, r, c, vs, w, rnd)) \<Longrightarrow>
     Grid_backtrack_loop g r c vs w rnd = Some (False, w', rnd') \<Longrightarrow>
     w' = w \<or> w' = w\<lparr>Cells := upd (Cells w) r c 0\<rparr>"
proof (induct g w rnd and g r c vs w rnd arbitrary: w' rnd' and w' rnd'
       rule: Grid_backtrack_Grid_backtrack_loop.pinduct)
  case (1 g w rnd)
  from "1.prems" "1.hyps"(1) obtain r c vals rnd1 where
    fe: "Grid_findEmpty g w = Some (r, c, True)" and
    sh: "Shuffle (map (\<lambda>i. int i + 1) [0..<nat (Size g)]) rnd = (vals, rnd1)" and
    lp: "Grid_backtrack_loop g r c vals w rnd1 = Some (False, w', rnd')"
    by (auto simp: Grid_backtrack.psimps split: option.splits if_splits prod.splits)
  from "1.hyps"(2)[OF fe refl refl _ sh[symmetric] lp]
  have "w' = w \<or> w' = w\<lparr>Cells := upd (Cells w) r c 0\<rparr>" by simp
  with upd_same[OF Grid_findEmpty_found[OF fe]] show ?case by auto
next
  case (2 g r c w rnd)
  then show ?case by (simp add: Grid_backtrack_loop.psimps)
next
  case (3 g r c v vs w rnd)
  show ?case
  proof (cases "Grid_isSafe g w r c v")
    case None
    with "3.prems" "3.hyps"(1) show ?thesis by (simp add: Grid_backtrack_loop.psimps)
  next
    case (Some b)
    show ?thesis
    proof (cases b)
      case False
      with Some "3.prems" "3.hyps"(1) have "Grid_backtrack_loop g r c vs w rnd = Some (False, w', rnd')"
        by (simp add: Grid_backtrack_loop.psimps)
      from "3.hyps"(4)[OF _ _ this] Some False show ?thesis by simp
    next
      case True
      with Some "3.prems" "3.hyps"(1) obtain cs w2 rnd2 cs' where
        sc: "set_cell (Cells w) r c v = Some cs" and
        bt: "Grid_backtrack g (w\<lparr>Cells := cs\<rparr>) rnd = Some (False, w2, rnd2)" and
        sc': "set_cell (Cells w2) r c 0 = Some cs'" and
        lp: "Grid_backtrack_loop g r c vs (w2\<lparr>Cells := cs'\<rparr>) rnd2 = Some (False, w', rnd')"
        by (auto simp: Grid_backtrack_loop.psimps split: option.splits bool.splits)
      from Some True have s: "Grid_isSafe g w r c v = Some True" by simp
      from "3.hyps"(2)[OF s refl sc bt] have w2: "w2 = w\<lparr>Cells := cs\<rparr>" .
      from sc have cs: "cs = upd (Cells w) r c v" by (simp add: set_cell_Some)
      from sc' w2 cs have cs': "cs' = upd (Cells w) r c 0" by (simp add: set_cell_Some upd_upd)
      from "3.hyps"(3)[OF s refl sc bt refl refl refl sc' lp]
      show ?thesis by (auto simp: w2 cs' upd_upd)
    qed
  qed
qed

lemma mset_swap_list: "i < length xs \<Longrightarrow> j < length xs \<Longrightarrow> mset (swap xs i j) = mset xs"
  unfolding swap_def by (simp add: mset_swap)

lemma length_swap [simp]: "length (swap xs i j) = length xs"
  by (simp add: swap_def)

lemma shuffle_from_mset:
  "i < length xs \<Longrightarrow> shuffle_from i xs rnd = (ys, rnd') \<Longrightarrow> mset ys = mset xs"
proof (induction i arbitrary: xs rnd)
  case 0
  then show ?case by simp
next
  case (Suc i)
  let ?j = "rnd 0 mod (Suc i + 1)"
  have j: "?j < length xs" using Suc.prems(1)
    by (metis Suc_eq_plus1 less_Suc_eq_le less_le_trans mod_less_divisor not_less zero_less_Suc)
  from Suc.prems(2) have "shuffle_from i (swap xs (Suc i) ?j) (\<lambda>k. rnd (Suc k)) = (ys, rnd')"
    by (simp add: uint64n_def)
  from Suc.IH[OF _ this] Suc.prems(1) have "mset ys = mset (swap xs (Suc i) ?j)" by simp
  with mset_swap_list[OF Suc.prems(1) j] show ?case by simp
qed

lemma Shuffle_mset: "Shuffle xs rnd = (ys, rnd') \<Longrightarrow> mset ys = mset xs"
proof (cases xs)
  case Nil
  assume "Shuffle xs rnd = (ys, rnd')"
  with Nil show ?thesis by (simp add: Shuffle_def)
next
  case (Cons a as)
  assume "Shuffle xs rnd = (ys, rnd')"
  with Cons have "shuffle_from (length as) xs rnd = (ys, rnd')" by (simp add: Shuffle_def)
  moreover have "length as < length xs" using Cons by simp
  ultimately show ?thesis by (rule shuffle_from_mset[rotated])
qed

lemma Shuffle_set: "Shuffle xs rnd = (ys, rnd') \<Longrightarrow> set ys = set xs"
  by (metis Shuffle_mset set_mset_mset)

definition bt_measure ::
  "(Grid \<times> Grid \<times> rng) + (Grid \<times> nat \<times> nat \<times> int list \<times> Grid \<times> rng) \<Rightarrow> nat \<times> nat" where
  "bt_measure x =
     (case x of
        Inl (g, w, rnd) \<Rightarrow> (2 * zeros (Cells w) + 2, 0)
      | Inr (g, r, c, vs, w, rnd) \<Rightarrow>
          (2 * (zeros (upd (Cells w) r c 0) + count_list vs 0) + 1, length vs))"

lemma zeros_set_cell_lt:
  assumes "set_cell cs r c v = Some cs'"
  shows "2 * zeros cs' + 2 < 2 * (zeros (upd cs r c 0) + count_list (v # vs) 0) + 1"
proof -
  from assms have r: "r < length cs" and c: "c < length (cs ! r)" and cs': "cs' = upd cs r c v"
    by (simp_all add: set_cell_Some)
  have r0: "r < length (upd cs r c 0)" and c0: "c < length (upd cs r c 0 ! r)"
    and z0: "upd cs r c 0 ! r ! c = 0"
    using r c by (simp_all add: upd_def)
  from zeros_upd[OF r0 c0, of v] z0 have "zeros (upd cs r c v) + 1 = zeros (upd cs r c 0) + (if v = 0 then 1 else 0)"
    by (simp add: upd_upd)
  then show ?thesis unfolding cs' by (simp split: if_splits)
qed

termination Grid_backtrack
proof (relation "inv_image (less_than <*lex*> less_than) bt_measure", goal_cases)
  case 1
  show ?case by auto
next
  case (2 g w rnd x2 x y xa ya xb yb)
  then have fe: "Grid_findEmpty g w = Some (x, xa, True)" by auto
  from 2 have "mset xb = mset (map (\<lambda>i. int i + 1) [0..<nat (Size g)])"
    by (metis Shuffle_mset)
  then have "count (mset xb) 0 = count (mset (map (\<lambda>i. int i + 1) [0..<nat (Size g)])) 0" by simp
  moreover have "0 \<notin> set (map (\<lambda>i. int i + 1) [0..<nat (Size g)])" by auto
  ultimately have "count_list xb 0 = 0"
    by (metis count_list_0_iff count_mset)
  with upd_same[OF Grid_findEmpty_found[OF fe]] show ?case
    by (simp add: bt_measure_def)
next
  case (3 g r c v vs w rnd x2 x2a)
  from zeros_set_cell_lt[OF 3(3)] show ?case by (simp add: bt_measure_def)
next
  case (4 g r c v vs w rnd x2 x2a x2b x y xa ya x2c)
  from 4 have bt: "Grid_backtrack g (w\<lparr>Cells := x2a\<rparr>) rnd = Some (False, xa, ya)" by auto
  from Grid_backtrack_fail_restores(1)[OF 4(9) bt] have xa: "xa = w\<lparr>Cells := x2a\<rparr>" .
  from 4(3) have "x2a = upd (Cells w) r c v" by (simp add: set_cell_Some)
  with 4(8) xa have "x2c = upd (Cells w) r c 0" by (simp add: set_cell_Some upd_upd)
  then show ?case by (simp add: bt_measure_def upd_upd)
next
  case (5 g r c v vs w rnd x2)
  show ?case by (simp add: bt_measure_def)
qed



section \<open>The validator\<close>

text \<open>
  One step of a \<^verbatim>\<open>seen\<close> table: \<^verbatim>\<open>if v != 0 { if seen[v] { return ErrInvalidBoard }; seen[v] = true }\<close>.
  An index outside the table panics.
\<close>

definition check_seen :: "bool list \<Rightarrow> int \<Rightarrow> (error + bool list) option" where
  "check_seen seen v =
     (if v = 0 then Some (Inr seen)
      else if v < 0 \<or> length seen \<le> nat v then None
      else if seen ! nat v then Some (Inl ErrInvalidBoard)
      else Some (Inr (seen[nat v := True])))"

fun validate_line ::
  "int \<Rightarrow> int list list \<Rightarrow> nat \<Rightarrow> nat list \<Rightarrow> bool list \<Rightarrow> bool list \<Rightarrow> (error + unit) option" where
  "validate_line s cs i [] row col = Some (Inr ())"
| "validate_line s cs i (j # js) row col =
     (case cell cs i j of
        None \<Rightarrow> None
      | Some rv \<Rightarrow>
          (case cell cs j i of
             None \<Rightarrow> None
           | Some cv \<Rightarrow>
               if rv < 0 \<or> rv > s \<or> cv < 0 \<or> cv > s then Some (Inl ErrInvalidBoard)
               else
                 (case check_seen row rv of
                    None \<Rightarrow> None
                  | Some (Inl e) \<Rightarrow> Some (Inl e)
                  | Some (Inr row') \<Rightarrow>
                      (case check_seen col cv of
                         None \<Rightarrow> None
                       | Some (Inl e) \<Rightarrow> Some (Inl e)
                       | Some (Inr col') \<Rightarrow> validate_line s cs i js row' col'))))"

fun validate_lines :: "int \<Rightarrow> int list list \<Rightarrow> nat list \<Rightarrow> (error + unit) option" where
  "validate_lines s cs [] = Some (Inr ())"
| "validate_lines s cs (i # is) =
     (case validate_line s cs i [0..<nat s]
             (replicate (nat (s + 1)) False) (replicate (nat (s + 1)) False) of
        None \<Rightarrow> None
      | Some (Inl e) \<Rightarrow> Some (Inl e)
      | Some (Inr u) \<Rightarrow> validate_lines s cs is)"

fun validate_box :: "int list list \<Rightarrow> (nat \<times> nat) list \<Rightarrow> bool list \<Rightarrow> (error + unit) option" where
  "validate_box cs [] seen = Some (Inr ())"
| "validate_box cs ((r, c) # ps) seen =
     (case cell cs r c of
        None \<Rightarrow> None
      | Some v \<Rightarrow>
          (case check_seen seen v of
             None \<Rightarrow> None
           | Some (Inl e) \<Rightarrow> Some (Inl e)
           | Some (Inr seen') \<Rightarrow> validate_box cs ps seen'))"

fun validate_boxes ::
  "int \<Rightarrow> nat \<Rightarrow> nat \<Rightarrow> int list list \<Rightarrow> (nat \<times> nat) list \<Rightarrow> (error + unit) option" where
  "validate_boxes s boxRows boxCols cs [] = Some (Inr ())"
| "validate_boxes s boxRows boxCols cs ((br, bc) # bs) =
     (case validate_box cs (List.product [br..<br + boxRows] [bc..<bc + boxCols])
             (replicate (nat (s + 1)) False) of
        None \<Rightarrow> None
      | Some (Inl e) \<Rightarrow> Some (Inl e)
      | Some (Inr u) \<Rightarrow> validate_boxes s boxRows boxCols cs bs)"

text \<open>The values of \<^verbatim>\<open>for b := 0; b < n; b += step\<close> for a positive step.\<close>

definition box_starts :: "nat \<Rightarrow> nat \<Rightarrow> nat list" where
  "box_starts n step = filter (\<lambda>b. b mod step = 0) [0..<n]"

text \<open>
  \<^verbatim>\<open>Grid.Validate\<close>. With \<^verbatim>\<open>Size > 0\<close> and a box dimension equal to 0 the box loop never
  advances and the call does not return; with a negative box dimension the loop variable walks
  downwards, the loop spins and finally indexes \<^verbatim>\<open>Cells\<close> at a negative position, which
  panics. Neither case returns \<^verbatim>\<open>nil\<close> (\<open>None\<close>).
\<close>

definition Grid_Validate :: "Grid \<Rightarrow> (error + unit) option" where
  "Grid_Validate g =
     (let s = Size g in
      case validate_lines s (Cells g) [0..<nat s] of
        None \<Rightarrow> None
      | Some (Inl e) \<Rightarrow> Some (Inl e)
      | Some (Inr u) \<Rightarrow>
          if s \<le> 0 then Some (Inr ())
          else if BoxRows g \<le> 0 \<or> BoxCols g \<le> 0 then None
          else validate_boxes s (nat (BoxRows g)) (nat (BoxCols g)) (Cells g)
                 (List.product (box_starts (nat s) (nat (BoxRows g)))
                               (box_starts (nat s) (nat (BoxCols g)))))"

section \<open>Clone and Solve\<close>

text \<open>Go's \<^verbatim>\<open>copy(dst, src)\<close> on two rows: the first \<open>min (len dst) (len src)\<close> elements.\<close>

definition copy_row :: "int list \<Rightarrow> int list \<Rightarrow> int list" where
  "copy_row dst src = take (length dst) src @ drop (length src) dst"

fun clone_rows :: "int list list \<Rightarrow> int list list \<Rightarrow> nat list \<Rightarrow> int list list option" where
  "clone_rows out src [] = Some out"
| "clone_rows out src (r # rs) =
     (if r < length out \<and> r < length src
      then clone_rows (out[r := copy_row (out ! r) (src ! r)]) src rs
      else None)"

definition Grid_Clone :: "Grid \<Rightarrow> Grid option" where
  "Grid_Clone g =
     (let out = (case NewGrid (Size g) (BoxRows g) (BoxCols g) of
                   Inl e \<Rightarrow> zeroGrid
                 | Inr x \<Rightarrow> x)
      in case clone_rows (Cells out) (Cells g) [0..<nat (Size g)] of
           None \<Rightarrow> None
         | Some cs \<Rightarrow> Some (out\<lparr>Cells := cs\<rparr>))"

definition Grid_Solve :: "Grid \<Rightarrow> rng \<Rightarrow> ((Grid \<times> bool) \<times> rng) option" where
  "Grid_Solve g rnd =
     (case Grid_Clone g of
        None \<Rightarrow> None
      | Some work \<Rightarrow>
          (case Grid_backtrack g work rnd of
             None \<Rightarrow> None
           | Some (False, w, rnd') \<Rightarrow> Some ((zeroGrid, False), rnd')
           | Some (True, w, rnd') \<Rightarrow> Some ((w, True), rnd')))"

section \<open>Hints\<close>

fun hint_scan :: "int list list \<Rightarrow> int list list \<Rightarrow> (nat \<times> nat) list \<Rightarrow> (nat \<times> nat \<times> int \<times> bool) option" where
  "hint_scan cs sol [] = Some (0, 0, 0, False)"
| "hint_scan cs sol ((r, c) # ps) =
     (case cell cs r c of
        None \<Rightarrow> None
      | Some v \<Rightarrow>
          if v = 0
          then (case cell sol r c of None \<Rightarrow> None | Some x \<Rightarrow> Some (r, c, x, True))
          else hint_scan cs sol ps)"

definition HintGrid :: "Grid \<Rightarrow> rng \<Rightarrow> ((nat \<times> nat \<times> int \<times> bool) \<times> rng) option" where
  "HintGrid g rnd =
     (case Grid_Validate g of
        None \<Rightarrow> None
      | Some (Inl e) \<Rightarrow> Some ((0, 0, 0, False), rnd)
      | Some (Inr u) \<Rightarrow>
          (case Grid_Solve g rnd of
             None \<Rightarrow> None
           | Some ((sol, False), rnd') \<Rightarrow> Some ((0, 0, 0, False), rnd')
           | Some ((sol, True), rnd') \<Rightarrow>
               (case hint_scan (Cells g) (Cells sol)
                       (List.product [0..<nat (Size g)] [0..<nat (Size g)]) of
                  None \<Rightarrow> None
                | Some h \<Rightarrow> Some (h, rnd'))))"

section \<open>Well-formed grids\<close>

definition square :: "nat \<Rightarrow> int list list \<Rightarrow> bool" where
  "square n cs = (length cs = n \<and> (\<forall>row\<in>set cs. length row = n))"

definition wf_dims :: "Grid \<Rightarrow> bool" where
  "wf_dims g = (0 < BoxRows g \<and> 0 < BoxCols g \<and> Size g = BoxRows g * BoxCols g \<and> Size g \<le> MaxGridSize)"

definition wf_grid :: "Grid \<Rightarrow> bool" where
  "wf_grid g = (wf_dims g \<and> square (nat (Size g)) (Cells g))"

definition no_empty :: "int list list \<Rightarrow> bool" where
  "no_empty cs = (\<forall>row\<in>set cs. 0 \<notin> set row)"

lemma wf_dims_pos: "wf_dims g \<Longrightarrow> 0 < Size g"
  by (simp add: wf_dims_def)

declare Grid_backtrack.simps [simp del]

lemma square_nth: "square n cs \<Longrightarrow> r < n \<Longrightarrow> length (cs ! r) = n"
  using nth_mem[of r cs] by (auto simp: square_def)

lemma square_cell: "square n cs \<Longrightarrow> r < n \<Longrightarrow> c < n \<Longrightarrow> cell cs r c = Some (cs ! r ! c)"
  using square_nth[of n cs r] by (simp add: square_def cell_def)

lemma square_upd: "square n cs \<Longrightarrow> square n (upd cs r c v)"
proof (cases "r < length cs")
  case True
  assume sq: "square n cs"
  with True have "length ((cs ! r)[c := v]) = n" by (simp add: square_def)
  with sq set_update_subset_insert[of cs r "(cs ! r)[c := v]"] show ?thesis
    by (auto simp: square_def upd_def)
next
  case False
  assume "square n cs"
  with False show ?thesis by (simp add: upd_def list_update_beyond)
qed

lemma int64_small: "0 \<le> x \<Longrightarrow> x \<le> 25 \<Longrightarrow> int64 x = x"
  by (simp add: int64_def)

lemma NewGrid_wf:
  "wf_dims g \<Longrightarrow>
   NewGrid (Size g) (BoxRows g) (BoxCols g) =
     Inr \<lparr>Size = Size g, BoxRows = BoxRows g, BoxCols = BoxCols g,
          Cells = replicate (nat (Size g)) (replicate (nat (Size g)) 0)\<rparr>"
proof -
  assume d: "wf_dims g"
  then have "0 < BoxRows g * BoxCols g" by (simp add: wf_dims_def)
  then have "\<not> BoxRows g * BoxCols g \<le> 0" by simp
  with d show ?thesis
    by (simp add: NewGrid_def wf_dims_def MaxGridSize_def int64_small)
qed

lemma copy_row_same_length: "length dst = length src \<Longrightarrow> copy_row dst src = src"
  by (simp add: copy_row_def)

lemma clone_rows_from:
  assumes "length out = n" "length src = n"
    and "\<forall>r<n. length (out ! r) = length (src ! r)"
  shows "k \<le> n \<Longrightarrow> take k out = take k src \<Longrightarrow> clone_rows out src [k..<n] = Some src"
  using assms
proof (induction "n - k" arbitrary: k out)
  case 0
  then show ?case by simp
next
  case (Suc d)
  then have k: "k < n" by simp
  let ?out = "out[k := copy_row (out ! k) (src ! k)]"
  have cr: "copy_row (out ! k) (src ! k) = src ! k"
    using Suc.prems k by (simp add: copy_row_same_length)
  have tk: "take (Suc k) ?out = take (Suc k) src"
    using Suc.prems k cr by (simp add: take_Suc_conv_app_nth)
  have len: "\<forall>r<n. length (?out ! r) = length (src ! r)"
    using Suc.prems k cr by (simp add: nth_list_update)
  have "clone_rows ?out src [Suc k..<n] = Some src"
  proof (cases "Suc k = n")
    case True
    with tk Suc.prems show ?thesis by simp
  next
    case False
    with k have "Suc k \<le> n" by simp
    moreover have "d = n - Suc k" using Suc.hyps(2) by simp
    ultimately show ?thesis using Suc.hyps(1)[of "Suc k" ?out] tk len Suc.prems by simp
  qed
  with k Suc.prems show ?case by (simp add: upt_conv_Cons)
qed

lemma Grid_Clone_wf: "wf_grid g \<Longrightarrow> Grid_Clone g = Some g"
proof -
  assume wf: "wf_grid g"
  let ?n = "nat (Size g)"
  from wf have sq: "square ?n (Cells g)" and d: "wf_dims g" by (simp_all add: wf_grid_def)
  have "clone_rows (replicate ?n (replicate ?n 0)) (Cells g) [0..<?n] = Some (Cells g)"
    using sq by (intro clone_rows_from[where n = ?n]) (auto simp: square_def)
  then show ?thesis by (simp add: Grid_Clone_def NewGrid_wf[OF d])
qed

lemma first_empty_none:
  "\<forall>(r, c)\<in>set ps. \<exists>v. cell cs r c = Some v \<and> v \<noteq> 0 \<Longrightarrow> first_empty cs ps = Some (0, 0, False)"
  by (induction cs ps rule: first_empty.induct) auto

lemma no_empty_nth: "no_empty cs \<Longrightarrow> r < length cs \<Longrightarrow> c < length (cs ! r) \<Longrightarrow> cs ! r ! c \<noteq> 0"
  by (metis no_empty_def nth_mem)

lemma full_cell:
  "square n cs \<Longrightarrow> no_empty cs \<Longrightarrow> r < n \<Longrightarrow> c < n \<Longrightarrow> \<exists>v. cell cs r c = Some v \<and> v \<noteq> 0"
  using no_empty_nth[of cs r c] square_nth[of n cs r] by (simp add: square_cell) (simp add: square_def)

lemma Grid_findEmpty_full:
  "square (nat (Size g)) (Cells w) \<Longrightarrow> no_empty (Cells w) \<Longrightarrow> Grid_findEmpty g w = Some (0, 0, False)"
  unfolding Grid_findEmpty_def
  by (rule first_empty_none) (auto intro: full_cell)

lemma Grid_backtrack_full:
  "square (nat (Size g)) (Cells w) \<Longrightarrow> no_empty (Cells w) \<Longrightarrow> Grid_backtrack g w rnd = Some (True, w, rnd)"
  by (simp add: Grid_findEmpty_full Grid_backtrack.simps)

lemma Grid_Solve_full:
  "wf_grid g \<Longrightarrow> no_empty (Cells g) \<Longrightarrow> Grid_Solve g rnd = Some ((g, True), rnd)"
  by (simp add: Grid_Solve_def Grid_Clone_wf Grid_backtrack_full wf_grid_def)

lemma hint_scan_full:
  "\<forall>(r, c)\<in>set ps. \<exists>v. cell cs r c = Some v \<and> v \<noteq> 0 \<Longrightarrow> hint_scan cs sol ps = Some (0, 0, 0, False)"
  by (induction cs sol ps rule: hint_scan.induct) auto

lemma HintGrid_full:
  assumes "wf_grid g" "no_empty (Cells g)" "Grid_Validate g = Some (Inr ())"
  shows "HintGrid g rnd = Some ((0, 0, 0, False), rnd)"
proof -
  from assms(1) have sq: "square (nat (Size g)) (Cells g)" by (simp add: wf_grid_def)
  have "hint_scan (Cells g) (Cells g) (List.product [0..<nat (Size g)] [0..<nat (Size g)]) = Some (0, 0, 0, False)"
    by (rule hint_scan_full) (use sq assms(2) in \<open>auto intro: full_cell\<close>)
  then show ?thesis
    by (simp add: HintGrid_def assms(3) Grid_Solve_full[OF assms(1,2)])
qed

definition solved2 :: Grid where
  "solved2 = \<lparr>Size = 2, BoxRows = 1, BoxCols = 2, Cells = [[1, 2], [2, 1]]\<rparr>"

definition ones2 :: Grid where
  "ones2 = \<lparr>Size = 2, BoxRows = 1, BoxCols = 2, Cells = [[1, 1], [1, 1]]\<rparr>"

section \<open>The uniqueness counter\<close>

text \<open>
  The closure \<^verbatim>\<open>dfs\<close> of \<^verbatim>\<open>Grid.hasUniqueSolution\<close>; the captured variable \<^verbatim>\<open>count\<close> is
  threaded through as an argument and returned.
\<close>

function Grid_dfs :: "Grid \<Rightarrow> int \<Rightarrow> Grid \<Rightarrow> int \<Rightarrow> (bool \<times> Grid \<times> int) option"
  and Grid_dfs_loop ::
    "Grid \<Rightarrow> int \<Rightarrow> nat \<Rightarrow> nat \<Rightarrow> int list \<Rightarrow> Grid \<Rightarrow> int \<Rightarrow> (bool \<times> Grid \<times> int) option" where
  "Grid_dfs g limit cur cnt =
     (case Grid_findEmpty g cur of
        None \<Rightarrow> None
      | Some (r, c, ok) \<Rightarrow>
          if \<not> ok then Some (cnt + 1 \<ge> limit, cur, cnt + 1)
          else Grid_dfs_loop g limit r c [1..Size g] cur cnt)"
| "Grid_dfs_loop g limit r c [] cur cnt = Some (False, cur, cnt)"
| "Grid_dfs_loop g limit r c (v # vs) cur cnt =
     (case Grid_isSafe g cur r c v of
        None \<Rightarrow> None
      | Some False \<Rightarrow> Grid_dfs_loop g limit r c vs cur cnt
      | Some True \<Rightarrow>
          (case set_cell (Cells cur) r c v of
             None \<Rightarrow> None
           | Some cs \<Rightarrow>
               (case Grid_dfs g limit (cur\<lparr>Cells := cs\<rparr>) cnt of
                  None \<Rightarrow> None
                | Some (True, cur', cnt') \<Rightarrow> Some (True, cur', cnt')
                | Some (False, cur', cnt') \<Rightarrow>
                    (case set_cell (Cells cur') r c 0 of
                       None \<Rightarrow> None
                     | Some cs' \<Rightarrow> Grid_dfs_loop g limit r c vs (cur'\<lparr>Cells := cs'\<rparr>) cnt'))))"
  by pat_completeness auto

lemma Grid_dfs_fail_restores:
  "Grid_dfs_Grid_dfs_loop_dom (Inl (g, limit, cur, cnt)) \<Longrightarrow>
     Grid_dfs g limit cur cnt = Some (False, cur', cnt') \<Longrightarrow> cur' = cur"
  "Grid_dfs_Grid_dfs_loop_dom (Inr (g, limit, r, c, vs, cur, cnt)) \<Longrightarrow>
     Grid_dfs_loop g limit r c vs cur cnt = Some (False, cur', cnt') \<Longrightarrow>
     cur' = cur \<or> cur' = cur\<lparr>Cells := upd (Cells cur) r c 0\<rparr>"
proof (induct g limit cur cnt and g limit r c vs cur cnt arbitrary: cur' cnt' and cur' cnt'
       rule: Grid_dfs_Grid_dfs_loop.pinduct)
  case (1 g limit cur cnt)
  show ?case
  proof (cases "Grid_findEmpty g cur")
    case None
    with "1.prems" "1.hyps"(1) show ?thesis by (simp add: Grid_dfs.psimps)
  next
    case (Some t)
    obtain r c ok where t: "t = (r, c, ok)" by (cases t) auto
    show ?thesis
    proof (cases ok)
      case False
      with Some t "1.prems" "1.hyps"(1) show ?thesis by (simp add: Grid_dfs.psimps)
    next
      case True
      with Some t have fe: "Grid_findEmpty g cur = Some (r, c, True)" by simp
      with "1.prems" "1.hyps"(1)
      have lp: "Grid_dfs_loop g limit r c [1..Size g] cur cnt = Some (False, cur', cnt')"
        by (simp add: Grid_dfs.psimps)
      from "1.hyps"(2)[OF fe refl refl _ lp]
      have "cur' = cur \<or> cur' = cur\<lparr>Cells := upd (Cells cur) r c 0\<rparr>" by simp
      with upd_same[OF Grid_findEmpty_found[OF fe]] show ?thesis by auto
    qed
  qed
next
  case (2 g limit r c cur cnt)
  then show ?case by (simp add: Grid_dfs_loop.psimps)
next
  case (3 g limit r c v vs cur cnt)
  show ?case
  proof (cases "Grid_isSafe g cur r c v")
    case None
    with "3.prems" "3.hyps"(1) show ?thesis by (simp add: Grid_dfs_loop.psimps)
  next
    case (Some b)
    show ?thesis
    proof (cases b)
      case False
      with Some "3.prems" "3.hyps"(1)
      have "Grid_dfs_loop g limit r c vs cur cnt = Some (False, cur', cnt')"
        by (simp add: Grid_dfs_loop.psimps)
      from "3.hyps"(4)[OF _ _ this] Some False show ?thesis by simp
    next
      case True
      with Some have s: "Grid_isSafe g cur r c v = Some True" by simp
      with "3.prems" "3.hyps"(1) obtain cs cur2 cnt2 cs' where
        sc: "set_cell (Cells cur) r c v = Some cs" and
        bt: "Grid_dfs g limit (cur\<lparr>Cells := cs\<rparr>) cnt = Some (False, cur2, cnt2)" and
        sc': "set_cell (Cells cur2) r c 0 = Some cs'" and
        lp: "Grid_dfs_loop g limit r c vs (cur2\<lparr>Cells := cs'\<rparr>) cnt2 = Some (False, cur', cnt')"
        by (auto simp: Grid_dfs_loop.psimps split: option.splits bool.splits)
      from "3.hyps"(2)[OF s refl sc bt] have w2: "cur2 = cur\<lparr>Cells := cs\<rparr>" .
      from sc have cs: "cs = upd (Cells cur) r c v" by (simp add: set_cell_Some)
      from sc' w2 cs have cs': "cs' = upd (Cells cur) r c 0" by (simp add: set_cell_Some upd_upd)
      from "3.hyps"(3)[OF s refl sc bt refl refl refl sc' lp]
      show ?thesis by (auto simp: w2 cs' upd_upd)
    qed
  qed
qed

definition dfs_measure ::
  "(Grid \<times> int \<times> Grid \<times> int) + (Grid \<times> int \<times> nat \<times> nat \<times> int list \<times> Grid \<times> int) \<Rightarrow> nat \<times> nat" where
  "dfs_measure x =
     (case x of
        Inl (g, limit, cur, cnt) \<Rightarrow> (2 * zeros (Cells cur) + 2, 0)
      | Inr (g, limit, r, c, vs, cur, cnt) \<Rightarrow>
          (2 * (zeros (upd (Cells cur) r c 0) + count_list vs 0) + 1, length vs))"

termination Grid_dfs
proof (relation "inv_image (less_than <*lex*> less_than) dfs_measure", goal_cases)
  case 1
  show ?case by auto
next
  case (2 g limit cur cnt x2 x y xa ya)
  then have fe: "Grid_findEmpty g cur = Some (x, xa, True)" by auto
  have "0 \<notin> set [1..Size g]" by simp
  then have "count_list [1..Size g] 0 = 0" by (metis count_list_0_iff)
  with upd_same[OF Grid_findEmpty_found[OF fe]] show ?case
    by (simp add: dfs_measure_def)
next
  case (3 g limit r c v vs cur cnt x2 x2a)
  from zeros_set_cell_lt[OF 3(3)] show ?case by (simp add: dfs_measure_def)
next
  case (4 g limit r c v vs cur cnt x2 x2a x2b x y xa ya x2c)
  from 4 have bt: "Grid_dfs g limit (cur\<lparr>Cells := x2a\<rparr>) cnt = Some (False, xa, ya)" by auto
  from Grid_dfs_fail_restores(1)[OF 4(9) bt] have xa: "xa = cur\<lparr>Cells := x2a\<rparr>" .
  from 4(3) have "x2a = upd (Cells cur) r c v" by (simp add: set_cell_Some)
  with 4(8) xa have "x2c = upd (Cells cur) r c 0" by (simp add: set_cell_Some upd_upd)
  then show ?case by (simp add: dfs_measure_def upd_upd)
next
  case (5 g limit r c v vs cur cnt x2)
  show ?case by (simp add: dfs_measure_def)
qed

declare Grid_dfs.simps [simp del]

definition Grid_hasUniqueSolution :: "Grid \<Rightarrow> Grid \<Rightarrow> int \<Rightarrow> bool option" where
  "Grid_hasUniqueSolution g w limit =
     (case Grid_Clone w of
        None \<Rightarrow> None
      | Some work \<Rightarrow>
          (case Grid_dfs g limit work 0 of
             None \<Rightarrow> None
           | Some (stop, cur, cnt) \<Rightarrow> Some (cnt = 1)))"

section \<open>Rows, columns and boxes\<close>

definition gsize :: "Grid \<Rightarrow> nat" where
  "gsize g = nat (Size g)"

definition same_unit :: "Grid \<Rightarrow> nat \<times> nat \<Rightarrow> nat \<times> nat \<Rightarrow> bool" where
  "same_unit g p q =
     (fst p = fst q \<or> snd p = snd q \<or>
      (fst p div nat (BoxRows g) = fst q div nat (BoxRows g) \<and>
       snd p div nat (BoxCols g) = snd q div nat (BoxCols g)))"

definition unit_free :: "Grid \<Rightarrow> int list list \<Rightarrow> nat \<times> nat \<Rightarrow> int \<Rightarrow> bool" where
  "unit_free g cs p v =
     (\<forall>r<gsize g. \<forall>c<gsize g. same_unit g p (r, c) \<longrightarrow> cs ! r ! c \<noteq> v)"

lemma same_unit_sym: "same_unit g p q \<Longrightarrow> same_unit g q p"
  by (auto simp: same_unit_def)

lemma div_eq_block:
  fixes a b R :: nat
  assumes "0 < R"
  shows "(a div R = b div R) = (b div R * R \<le> a \<and> a < b div R * R + R)"
proof
  assume "a div R = b div R"
  then show "b div R * R \<le> a \<and> a < b div R * R + R"
    using assms by (metis add.commute div_times_less_eq_dividend dividend_less_times_div mult.commute)
next
  assume h: "b div R * R \<le> a \<and> a < b div R * R + R"
  then show "a div R = b div R"
    using assms by (metis add.right_neutral add_less_cancel_left div_less div_mult_self3 le_iff_add not_gr_zero)
qed

lemma block_in_range:
  fixes r R C :: nat
  assumes "0 < R" "r < R * C"
  shows "r div R * R + R \<le> R * C"
proof -
  from assms have "r div R < C" by (simp add: less_mult_imp_div_less mult.commute)
  then have "Suc (r div R) \<le> C" by simp
  then have "Suc (r div R) * R \<le> C * R" by (rule mult_le_mono1)
  then show ?thesis by (simp add: mult.commute)
qed

lemma ball_product_upt:
  "(\<forall>(x, y)\<in>set (List.product [a..<b] [c..<d]). P x y) =
   (\<forall>x y. (a \<le> x \<and> x < b) \<and> (c \<le> y \<and> y < d) \<longrightarrow> P x y)"
  by auto

lemma box_cells_iff:
  fixes R C n r c :: nat
  assumes R: "0 < R" and C: "0 < C" and n: "n = R * C" and r: "r < n" and c: "c < n"
  shows "(\<forall>(r', c')\<in>set (List.product [r div R * R..<r div R * R + R] [c div C * C..<c div C * C + C]). P r' c') =
         (\<forall>r'<n. \<forall>c'<n. r div R = r' div R \<and> c div C = c' div C \<longrightarrow> P r' c')"
proof -
  have brn: "r div R * R + R \<le> n" using block_in_range[OF R, of r C] r n by simp
  have bcn: "c div C * C + C \<le> n" using block_in_range[OF C, of c R] c n by (simp add: mult.commute)
  have A: "\<And>r'. (r div R = r' div R) = (r div R * R \<le> r' \<and> r' < r div R * R + R)"
    using div_eq_block[OF R] by (metis (no_types))
  have B: "\<And>c'. (c div C = c' div C) = (c div C * C \<le> c' \<and> c' < c div C * C + C)"
    using div_eq_block[OF C] by (metis (no_types))
  have "(\<forall>r' c'. (r div R * R \<le> r' \<and> r' < r div R * R + R) \<and> (c div C * C \<le> c' \<and> c' < c div C * C + C) \<longrightarrow> P r' c') =
        (\<forall>r'<n. \<forall>c'<n. (r div R * R \<le> r' \<and> r' < r div R * R + R) \<and> (c div C * C \<le> c' \<and> c' < c div C * C + C) \<longrightarrow> P r' c')"
    using brn bcn by (meson less_le_trans)
  then show ?thesis unfolding ball_product_upt A B .
qed

lemma unit_forall_split:
  "r < gsize g \<Longrightarrow> c < gsize g \<Longrightarrow>
   (\<forall>r'<gsize g. \<forall>c'<gsize g. same_unit g (r, c) (r', c') \<longrightarrow> P r' c') =
   ((\<forall>i<gsize g. P r i \<and> P i c) \<and>
    (\<forall>r'<gsize g. \<forall>c'<gsize g.
        r div nat (BoxRows g) = r' div nat (BoxRows g) \<and> c div nat (BoxCols g) = c' div nat (BoxCols g) \<longrightarrow> P r' c'))"
  unfolding same_unit_def fst_conv snd_conv by blast

lemma safe_lines_eq:
  "square n cs \<Longrightarrow> r < n \<Longrightarrow> c < n \<Longrightarrow> \<forall>i\<in>set is. i < n \<Longrightarrow>
   safe_lines cs r c v is = Some (\<forall>i\<in>set is. cs ! r ! i \<noteq> v \<and> cs ! i ! c \<noteq> v)"
  by (induction "is") (auto simp: square_cell)

lemma safe_box_eq:
  "square n cs \<Longrightarrow> \<forall>(r, c)\<in>set ps. r < n \<and> c < n \<Longrightarrow>
   safe_box cs v ps = Some (\<forall>(r, c)\<in>set ps. cs ! r ! c \<noteq> v)"
  by (induction ps) (auto simp: square_cell)

lemma wf_dims_nat:
  assumes "wf_dims g"
  shows "0 < nat (BoxRows g)" "0 < nat (BoxCols g)" "gsize g = nat (BoxRows g) * nat (BoxCols g)"
    "0 < gsize g" "BoxRows g \<noteq> 0" "BoxCols g \<noteq> 0"
  using assms by (auto simp: wf_dims_def gsize_def nat_mult_distrib)

lemma Grid_isSafe_eq:
  assumes d: "wf_dims g" and sq: "square (gsize g) (Cells w)" and r: "r < gsize g" and c: "c < gsize g"
  shows "Grid_isSafe g w r c v = Some (unit_free g (Cells w) (r, c) v)"
proof -
  let ?n = "gsize g" and ?R = "nat (BoxRows g)" and ?C = "nat (BoxCols g)" and ?cs = "Cells w"
  let ?br = "r div ?R * ?R" and ?bc = "c div ?C * ?C"
  note dn = wf_dims_nat[OF d]
  have lines: "safe_lines ?cs r c v [0..<?n] = Some (\<forall>i<?n. ?cs ! r ! i \<noteq> v \<and> ?cs ! i ! c \<noteq> v)"
    using safe_lines_eq[OF sq r c, of "[0..<?n]" v] by auto
  have brn: "?br + ?R \<le> ?n" using block_in_range[OF dn(1), of r ?C] r dn(3) by simp
  have bcn: "?bc + ?C \<le> ?n" using block_in_range[OF dn(2), of c ?R] c dn(3) by (simp add: mult.commute)
  have "safe_box ?cs v (List.product [?br..<?br + ?R] [?bc..<?bc + ?C]) =
       Some (\<forall>(r', c')\<in>set (List.product [?br..<?br + ?R] [?bc..<?bc + ?C]). ?cs ! r' ! c' \<noteq> v)"
    using brn bcn by (intro safe_box_eq[OF sq]) auto
  then have box: "safe_box ?cs v (List.product [?br..<?br + ?R] [?bc..<?bc + ?C]) =
      Some (\<forall>r'<?n. \<forall>c'<?n. r div ?R = r' div ?R \<and> c div ?C = c' div ?C \<longrightarrow> ?cs ! r' ! c' \<noteq> v)"
    by (simp only: box_cells_iff[OF dn(1) dn(2) dn(3) r c])
  have uf: "unit_free g ?cs (r, c) v =
     ((\<forall>i<?n. ?cs ! r ! i \<noteq> v \<and> ?cs ! i ! c \<noteq> v) \<and>
      (\<forall>r'<?n. \<forall>c'<?n. r div ?R = r' div ?R \<and> c div ?C = c' div ?C \<longrightarrow> ?cs ! r' ! c' \<noteq> v))"
    unfolding unit_free_def by (rule unit_forall_split[OF r c])
  have "Grid_isSafe g w r c v =
     (case safe_lines ?cs r c v [0..<?n] of
        None \<Rightarrow> None
      | Some False \<Rightarrow> Some False
      | Some True \<Rightarrow> safe_box ?cs v (List.product [?br..<?br + ?R] [?bc..<?bc + ?C]))"
    using dn(5,6) by (simp add: Grid_isSafe_def gsize_def Let_def split: option.splits bool.splits)
  then show ?thesis unfolding lines box uf by (simp split: bool.splits)
qed

section \<open>Completions of a grid\<close>

text \<open>
  \<open>completion g cs cs'\<close>: the cells \<open>cs'\<close> fill every empty cell of \<open>cs\<close> with a value of
  \<open>1..Size\<close> that occurs at no other cell of its row, its column and its box, and leave
  the other cells as they are.
\<close>

definition completion :: "Grid \<Rightarrow> int list list \<Rightarrow> int list list \<Rightarrow> bool" where
  "completion g cs cs' =
     (square (gsize g) cs' \<and>
      (\<forall>r<gsize g. \<forall>c<gsize g.
         if cs ! r ! c \<noteq> 0 then cs' ! r ! c = cs ! r ! c
         else 1 \<le> cs' ! r ! c \<and> cs' ! r ! c \<le> Size g \<and>
              (\<forall>r'<gsize g. \<forall>c'<gsize g.
                 (r', c') \<noteq> (r, c) \<and> same_unit g (r, c) (r', c') \<longrightarrow> cs' ! r' ! c' \<noteq> cs' ! r ! c)))"

lemma square_eqI:
  assumes "square n cs" "square n cs'" "\<And>r c. r < n \<Longrightarrow> c < n \<Longrightarrow> cs ! r ! c = cs' ! r ! c"
  shows "cs = cs'"
proof (rule nth_equalityI)
  show "length cs = length cs'" using assms(1,2) by (simp add: square_def)
next
  fix r assume r: "r < length cs"
  then have rn: "r < n" using assms(1) by (simp add: square_def)
  show "cs ! r = cs' ! r"
  proof (rule nth_equalityI)
    show "length (cs ! r) = length (cs' ! r)"
      using square_nth[OF assms(1) rn] square_nth[OF assms(2) rn] by simp
  next
    fix c assume "c < length (cs ! r)"
    then have "c < n" using square_nth[OF assms(1) rn] by simp
    with rn show "cs ! r ! c = cs' ! r ! c" by (rule assms(3))
  qed
qed

lemma upd_nth:
  "square n cs \<Longrightarrow> r < n \<Longrightarrow> c < n \<Longrightarrow> r' < n \<Longrightarrow> c' < n \<Longrightarrow>
   upd cs r c v ! r' ! c' = (if r' = r \<and> c' = c then v else cs ! r' ! c')"
  using square_nth[of n cs r] by (auto simp: upd_def square_def nth_list_update)

lemma completion_full:
  assumes sq: "square (gsize g) cs" and full: "\<forall>r<gsize g. \<forall>c<gsize g. cs ! r ! c \<noteq> 0"
  shows "completion g cs cs' \<longleftrightarrow> cs' = cs"
proof
  assume c: "completion g cs cs'"
  then have sq': "square (gsize g) cs'" by (simp add: completion_def)
  show "cs' = cs"
  proof (rule square_eqI[OF sq' sq])
    fix r c assume "r < gsize g" "c < gsize g"
    with c full show "cs' ! r ! c = cs ! r ! c" unfolding completion_def by metis
  qed
next
  assume "cs' = cs"
  with sq full show "completion g cs cs'" by (simp add: completion_def)
qed

lemma completion_step:
  assumes sq: "square (gsize g) cs" and r: "r < gsize g" and c: "c < gsize g"
    and z: "cs ! r ! c = 0"
  shows "completion g cs cs' \<longleftrightarrow>
         (1 \<le> cs' ! r ! c \<and> cs' ! r ! c \<le> Size g \<and> unit_free g cs (r, c) (cs' ! r ! c) \<and>
          completion g (upd cs r c (cs' ! r ! c)) cs')"
    (is "?L \<longleftrightarrow> ?R")
proof
  let ?n = "gsize g" and ?v = "cs' ! r ! c"
  assume L: ?L
  then have sq': "square ?n cs'" by (simp add: completion_def)
  from L have cell: "\<And>a b. a < ?n \<Longrightarrow> b < ?n \<Longrightarrow>
      (if cs ! a ! b \<noteq> 0 then cs' ! a ! b = cs ! a ! b
       else 1 \<le> cs' ! a ! b \<and> cs' ! a ! b \<le> Size g \<and>
            (\<forall>r'<?n. \<forall>c'<?n. (r', c') \<noteq> (a, b) \<and> same_unit g (a, b) (r', c') \<longrightarrow> cs' ! r' ! c' \<noteq> cs' ! a ! b))"
    unfolding completion_def by blast
  from cell[OF r c] z have v: "1 \<le> ?v" "?v \<le> Size g"
    and others: "\<And>r' c'. r' < ?n \<Longrightarrow> c' < ?n \<Longrightarrow> (r', c') \<noteq> (r, c) \<Longrightarrow> same_unit g (r, c) (r', c') \<Longrightarrow> cs' ! r' ! c' \<noteq> ?v"
    by auto
  have free: "unit_free g cs (r, c) ?v"
    unfolding unit_free_def
  proof (intro allI impI)
    fix a b assume a: "a < ?n" and b: "b < ?n" and su: "same_unit g (r, c) (a, b)"
    show "cs ! a ! b \<noteq> ?v"
    proof (cases "cs ! a ! b = 0")
      case True
      with v show ?thesis by simp
    next
      case False
      with z have ne: "(a, b) \<noteq> (r, c)" by auto
      from cell[OF a b] False have "cs' ! a ! b = cs ! a ! b" by simp
      with others[OF a b ne su] show ?thesis by simp
    qed
  qed
  have "completion g (upd cs r c ?v) cs'"
    unfolding completion_def
  proof (intro conjI allI impI)
    show "square ?n cs'" by (rule sq')
  next
    fix a b assume a: "a < ?n" and b: "b < ?n"
    show "if upd cs r c ?v ! a ! b \<noteq> 0 then cs' ! a ! b = upd cs r c ?v ! a ! b
          else 1 \<le> cs' ! a ! b \<and> cs' ! a ! b \<le> Size g \<and>
               (\<forall>r'<?n. \<forall>c'<?n. (r', c') \<noteq> (a, b) \<and> same_unit g (a, b) (r', c') \<longrightarrow> cs' ! r' ! c' \<noteq> cs' ! a ! b)"
    proof (cases "a = r \<and> b = c")
      case True
      with v show ?thesis by (simp add: upd_nth[OF sq r c r c])
    next
      case False
      then have "upd cs r c ?v ! a ! b = cs ! a ! b" by (auto simp: upd_nth[OF sq r c a b])
      with cell[OF a b] show ?thesis by simp
    qed
  qed
  with v free show ?R by simp
next
  let ?n = "gsize g" and ?v = "cs' ! r ! c"
  assume R: ?R
  then have v: "1 \<le> ?v" "?v \<le> Size g" and free: "unit_free g cs (r, c) ?v"
    and C: "completion g (upd cs r c ?v) cs'" by simp_all
  from C have sq': "square ?n cs'" by (simp add: completion_def)
  from C have cell: "\<And>a b. a < ?n \<Longrightarrow> b < ?n \<Longrightarrow>
      (if upd cs r c ?v ! a ! b \<noteq> 0 then cs' ! a ! b = upd cs r c ?v ! a ! b
       else 1 \<le> cs' ! a ! b \<and> cs' ! a ! b \<le> Size g \<and>
            (\<forall>r'<?n. \<forall>c'<?n. (r', c') \<noteq> (a, b) \<and> same_unit g (a, b) (r', c') \<longrightarrow> cs' ! r' ! c' \<noteq> cs' ! a ! b))"
    unfolding completion_def by blast
  show ?L
    unfolding completion_def
  proof (intro conjI allI impI)
    show "square ?n cs'" by (rule sq')
  next
    fix a b assume a: "a < ?n" and b: "b < ?n"
    show "if cs ! a ! b \<noteq> 0 then cs' ! a ! b = cs ! a ! b
          else 1 \<le> cs' ! a ! b \<and> cs' ! a ! b \<le> Size g \<and>
               (\<forall>r'<?n. \<forall>c'<?n. (r', c') \<noteq> (a, b) \<and> same_unit g (a, b) (r', c') \<longrightarrow> cs' ! r' ! c' \<noteq> cs' ! a ! b)"
    proof (cases "a = r \<and> b = c")
      case True
      have "\<forall>r'<?n. \<forall>c'<?n. (r', c') \<noteq> (r, c) \<and> same_unit g (r, c) (r', c') \<longrightarrow> cs' ! r' ! c' \<noteq> ?v"
      proof (intro allI impI)
        fix r' c' assume r': "r' < ?n" and c': "c' < ?n"
          and h: "(r', c') \<noteq> (r, c) \<and> same_unit g (r, c) (r', c')"
        then have ne: "\<not> (r' = r \<and> c' = c)" and su: "same_unit g (r, c) (r', c')" by auto
        have u: "upd cs r c ?v ! r' ! c' = cs ! r' ! c'" using ne by (auto simp: upd_nth[OF sq r c r' c'])
        show "cs' ! r' ! c' \<noteq> ?v"
        proof (cases "cs ! r' ! c' = 0")
          case True
          with cell[OF r' c'] u have
            "\<forall>x<?n. \<forall>y<?n. (x, y) \<noteq> (r', c') \<and> same_unit g (r', c') (x, y) \<longrightarrow> cs' ! x ! y \<noteq> cs' ! r' ! c'"
            by simp
          with r c ne same_unit_sym[OF su] have "?v \<noteq> cs' ! r' ! c'" by blast
          then show ?thesis by simp
        next
          case False
          with cell[OF r' c'] u have "cs' ! r' ! c' = cs ! r' ! c'" by simp
          with free r' c' su show ?thesis unfolding unit_free_def by metis
        qed
      qed
      with True z v show ?thesis by simp
    next
      case False
      then have "upd cs r c ?v ! a ! b = cs ! a ! b" by (auto simp: upd_nth[OF sq r c a b])
      with cell[OF a b] show ?thesis by simp
    qed
  qed
qed

lemma completion_upd_value:
  assumes sq: "square (gsize g) cs" and r: "r < gsize g" and c: "c < gsize g" and v: "v \<noteq> 0"
    and C: "completion g (upd cs r c v) cs'"
  shows "cs' ! r ! c = v"
proof -
  from C r c have "if upd cs r c v ! r ! c \<noteq> 0 then cs' ! r ! c = upd cs r c v ! r ! c else True"
    unfolding completion_def by presburger
  with v show ?thesis by (simp add: upd_nth[OF sq r c r c])
qed

lemma completion_first:
  assumes sq: "square (gsize g) cs" and r: "r < gsize g" and c: "c < gsize g"
    and z: "cs ! r ! c = 0"
  shows "completion g cs cs' \<longleftrightarrow>
         (\<exists>v. 1 \<le> v \<and> v \<le> Size g \<and> unit_free g cs (r, c) v \<and> completion g (upd cs r c v) cs')"
proof
  assume "completion g cs cs'"
  with completion_step[OF sq r c z, of cs'] show
    "\<exists>v. 1 \<le> v \<and> v \<le> Size g \<and> unit_free g cs (r, c) v \<and> completion g (upd cs r c v) cs'"
    by blast
next
  assume "\<exists>v. 1 \<le> v \<and> v \<le> Size g \<and> unit_free g cs (r, c) v \<and> completion g (upd cs r c v) cs'"
  then obtain v where v: "1 \<le> v" "v \<le> Size g" "unit_free g cs (r, c) v"
    and C: "completion g (upd cs r c v) cs'" by blast
  from v have "v \<noteq> 0" by simp
  from completion_upd_value[OF sq r c this C] have "cs' ! r ! c = v" .
  with v C completion_step[OF sq r c z, of cs'] show "completion g cs cs'" by simp
qed

lemma first_empty_cases:
  "square n cs \<Longrightarrow> \<forall>(r, c)\<in>set ps. r < n \<and> c < n \<Longrightarrow>
   (\<exists>r c. first_empty cs ps = Some (r, c, True) \<and> (r, c) \<in> set ps \<and> cs ! r ! c = 0) \<or>
   (first_empty cs ps = Some (0, 0, False) \<and> (\<forall>(r, c)\<in>set ps. cs ! r ! c \<noteq> 0))"
proof (induction ps)
  case Nil
  then show ?case by simp
next
  case (Cons p ps)
  obtain r c where p: "p = (r, c)" by (cases p)
  with Cons.prems have rc: "r < n" "c < n" by auto
  from Cons.prems have "\<forall>(r, c)\<in>set ps. r < n \<and> c < n" by simp
  from Cons.IH[OF Cons.prems(1) this] show ?case
    by (cases "cs ! r ! c = 0") (auto simp: p square_cell[OF Cons.prems(1) rc])
qed

lemma Grid_findEmpty_cases:
  assumes "square (gsize g) (Cells w)"
  shows "(\<exists>r c. Grid_findEmpty g w = Some (r, c, True) \<and> r < gsize g \<and> c < gsize g \<and> Cells w ! r ! c = 0) \<or>
         (Grid_findEmpty g w = Some (0, 0, False) \<and> (\<forall>r<gsize g. \<forall>c<gsize g. Cells w ! r ! c \<noteq> 0))"
proof -
  let ?ps = "List.product [0..<gsize g] [0..<gsize g]"
  have "\<forall>(r, c)\<in>set ?ps. r < gsize g \<and> c < gsize g" by simp
  from first_empty_cases[OF assms this] show ?thesis
    unfolding Grid_findEmpty_def gsize_def by auto
qed

lemma Grid_backtrack_spec:
  "wf_dims g \<Longrightarrow> square (gsize g) (Cells w) \<Longrightarrow>
     (\<exists>w' rnd'. Grid_backtrack g w rnd = Some (True, w', rnd') \<and>
         completion g (Cells w) (Cells w') \<and> w' = w\<lparr>Cells := Cells w'\<rparr>) \<or>
     (\<exists>rnd'. Grid_backtrack g w rnd = Some (False, w, rnd') \<and> (\<forall>cs'. \<not> completion g (Cells w) cs'))"
  "wf_dims g \<Longrightarrow> square (gsize g) (Cells w) \<Longrightarrow> r < gsize g \<Longrightarrow> c < gsize g \<Longrightarrow>
   Cells w ! r ! c = 0 \<Longrightarrow> \<forall>v\<in>set vs. 1 \<le> v \<and> v \<le> Size g \<Longrightarrow>
     (\<exists>w' rnd'. Grid_backtrack_loop g r c vs w rnd = Some (True, w', rnd') \<and>
         (\<exists>v\<in>set vs. unit_free g (Cells w) (r, c) v \<and> completion g (upd (Cells w) r c v) (Cells w')) \<and>
         w' = w\<lparr>Cells := Cells w'\<rparr>) \<or>
     (\<exists>rnd'. Grid_backtrack_loop g r c vs w rnd = Some (False, w, rnd') \<and>
         (\<forall>v\<in>set vs. unit_free g (Cells w) (r, c) v \<longrightarrow> (\<forall>cs'. \<not> completion g (upd (Cells w) r c v) cs')))"
proof (induct g w rnd and g r c vs w rnd rule: Grid_backtrack_Grid_backtrack_loop.induct)
  case (1 g w rnd)
  note d = "1.prems"(1) and sq = "1.prems"(2)
  from Grid_findEmpty_cases[OF sq] show ?case
  proof (elim disjE exE conjE)
    assume fe: "Grid_findEmpty g w = Some (0, 0, False)"
      and full: "\<forall>r<gsize g. \<forall>c<gsize g. Cells w ! r ! c \<noteq> 0"
    from fe have "Grid_backtrack g w rnd = Some (True, w, rnd)" by (simp add: Grid_backtrack.simps)
    moreover have "completion g (Cells w) (Cells w)" using completion_full[OF sq full] by simp
    ultimately show ?thesis by simp
  next
    fix r c assume fe: "Grid_findEmpty g w = Some (r, c, True)"
      and r: "r < gsize g" and c: "c < gsize g" and z: "Cells w ! r ! c = 0"
    obtain vals rnd1 where sh: "Shuffle (map (\<lambda>i. int i + 1) [0..<nat (Size g)]) rnd = (vals, rnd1)"
      by (cases "Shuffle (map (\<lambda>i. int i + 1) [0..<nat (Size g)]) rnd")
    have sv: "set vals = {v. 1 \<le> v \<and> v \<le> Size g}"
    proof -
      have "set vals = (\<lambda>i. int i + 1) ` {0..<nat (Size g)}" using Shuffle_set[OF sh] by simp
      also have "\<dots> = {v. 1 \<le> v \<and> v \<le> Size g}"
      proof (intro set_eqI iffI)
        fix v assume "v \<in> (\<lambda>i. int i + 1) ` {0..<nat (Size g)}"
        then show "v \<in> {v. 1 \<le> v \<and> v \<le> Size g}" by auto
      next
        fix v assume "v \<in> {v. 1 \<le> v \<and> v \<le> Size g}"
        then have "nat (v - 1) \<in> {0..<nat (Size g)}" "v = int (nat (v - 1)) + 1" by auto
        then show "v \<in> (\<lambda>i. int i + 1) ` {0..<nat (Size g)}" by (rule_tac image_eqI)
      qed
      finally show ?thesis .
    qed
    then have rng: "\<forall>v\<in>set vals. 1 \<le> v \<and> v \<le> Size g" by simp
    have bt: "Grid_backtrack g w rnd = Grid_backtrack_loop g r c vals w rnd1"
      using fe sh by (simp add: Grid_backtrack.simps)
    have cf: "\<And>cs'. completion g (Cells w) cs' \<longleftrightarrow>
        (\<exists>v\<in>set vals. unit_free g (Cells w) (r, c) v \<and> completion g (upd (Cells w) r c v) cs')"
      unfolding completion_first[OF sq r c z] sv by blast
    from "1.hyps"[OF fe refl refl _ sh[symmetric] d sq r c z rng] show ?thesis
      unfolding bt cf by blast
  qed
next
  case (2 g r c w rnd)
  then show ?case by simp
next
  case (3 g r c v vs w rnd)
  note d = "3.prems"(1) and sq = "3.prems"(2) and r = "3.prems"(3) and c = "3.prems"(4)
    and z = "3.prems"(5)
  from "3.prems"(6) have v: "1 \<le> v" "v \<le> Size g" and rng: "\<forall>v\<in>set vs. 1 \<le> v \<and> v \<le> Size g"
    by simp_all
  have safe: "Grid_isSafe g w r c v = Some (unit_free g (Cells w) (r, c) v)"
    by (rule Grid_isSafe_eq[OF d sq r c])
  show ?case
  proof (cases "unit_free g (Cells w) (r, c) v")
    case False
    with safe have s: "Grid_isSafe g w r c v = Some False" by simp
    then have eq: "Grid_backtrack_loop g r c (v # vs) w rnd = Grid_backtrack_loop g r c vs w rnd"
      by simp
    from "3.hyps"(3)[OF s refl d sq r c z rng] False show ?thesis
      unfolding eq by auto
  next
    case True
    with safe have s: "Grid_isSafe g w r c v = Some True" by simp
    have sc: "set_cell (Cells w) r c v = Some (upd (Cells w) r c v)"
      using sq r c square_nth[OF sq r] by (simp add: set_cell_Some square_def)
    let ?w1 = "w\<lparr>Cells := upd (Cells w) r c v\<rparr>"
    have sq1: "square (gsize g) (Cells ?w1)" using square_upd[OF sq] by simp
    from "3.hyps"(1)[OF s refl sc d sq1]
    show ?thesis
    proof (elim disjE exE conjE)
      fix w' rnd'
      assume bt: "Grid_backtrack g ?w1 rnd = Some (True, w', rnd')"
        and C: "completion g (Cells ?w1) (Cells w')" and w': "w' = (?w1)\<lparr>Cells := Cells w'\<rparr>"
      from s sc bt have "Grid_backtrack_loop g r c (v # vs) w rnd = Some (True, w', rnd')" by simp
      moreover from w' have "w' = w\<lparr>Cells := Cells w'\<rparr>" by (metis (no_types) Grid.update_convs(4) Grid.surjective)
      ultimately show ?thesis using C True by auto
    next
      fix rnd'
      assume bt: "Grid_backtrack g ?w1 rnd = Some (False, ?w1, rnd')"
        and none: "\<forall>cs'. \<not> completion g (Cells ?w1) cs'"
      have sc0: "set_cell (Cells ?w1) r c 0 = Some (Cells w)"
      proof -
        have "upd (upd (Cells w) r c v) r c 0 = upd (Cells w) r c 0" by (rule upd_upd)
        also have "\<dots> = Cells w" using upd_same[of "Cells w" r c 0] square_cell[OF sq r c] z by simp
        finally show ?thesis using sq1 r c square_nth[OF sq1 r] by (simp add: set_cell_Some square_def)
      qed
      have rest: "(?w1)\<lparr>Cells := Cells w\<rparr> = w" by simp
      from s sc bt sc0 rest
      have eq: "Grid_backtrack_loop g r c (v # vs) w rnd = Grid_backtrack_loop g r c vs w rnd'"
        by simp
      from "3.hyps"(2)[OF s refl sc bt refl refl refl sc0, unfolded rest, OF d sq r c z rng] none
      show ?thesis unfolding eq by auto
    qed
  qed
qed

definition completions :: "Grid \<Rightarrow> int list list \<Rightarrow> int list list set" where
  "completions g cs = {cs'. completion g cs cs'}"

definition branch_completions ::
  "Grid \<Rightarrow> int list list \<Rightarrow> nat \<Rightarrow> nat \<Rightarrow> int list \<Rightarrow> int list list set" where
  "branch_completions g cs r c vs =
     (\<Union>v\<in>{v \<in> set vs. unit_free g cs (r, c) v}. completions g (upd cs r c v))"

lemma finite_completions: "finite (completions g cs)"
proof -
  let ?n = "gsize g"
  let ?V = "(\<lambda>(r, c). cs ! r ! c) ` ({..<?n} \<times> {..<?n}) \<union> {1..Size g}"
  let ?rows = "{row. set row \<subseteq> ?V \<and> length row = ?n}"
  have fV: "finite ?V" by simp
  have frows: "finite ?rows" by (rule finite_lists_length_eq[OF fV])
  have "completions g cs \<subseteq> {xs. set xs \<subseteq> ?rows \<and> length xs = ?n}"
  proof
    fix cs' assume "cs' \<in> completions g cs"
    then have C: "completion g cs cs'" by (simp add: completions_def)
    then have sq: "square ?n cs'" by (simp add: completion_def)
    have "set cs' \<subseteq> ?rows"
    proof
      fix row assume "row \<in> set cs'"
      then obtain r where r: "r < ?n" and row: "row = cs' ! r"
        using sq by (auto simp: square_def in_set_conv_nth)
      have len: "length row = ?n" using square_nth[OF sq r] row by simp
      have "set row \<subseteq> ?V"
      proof
        fix x assume "x \<in> set row"
        then obtain c where c: "c < ?n" and x: "x = cs' ! r ! c"
          using len row by (auto simp: in_set_conv_nth)
        from C r c have "cs' ! r ! c = cs ! r ! c \<or> (1 \<le> cs' ! r ! c \<and> cs' ! r ! c \<le> Size g)"
          unfolding completion_def by metis
        then show "x \<in> ?V"
        proof
          assume "cs' ! r ! c = cs ! r ! c"
          with r c x have "x \<in> (\<lambda>(r, c). cs ! r ! c) ` ({..<?n} \<times> {..<?n})" by force
          then show ?thesis by simp
        next
          assume "1 \<le> cs' ! r ! c \<and> cs' ! r ! c \<le> Size g"
          with x show ?thesis by simp
        qed
      qed
      with len show "row \<in> ?rows" by simp
    qed
    with sq show "cs' \<in> {xs. set xs \<subseteq> ?rows \<and> length xs = ?n}" by (simp add: square_def)
  qed
  moreover have "finite {xs. set xs \<subseteq> ?rows \<and> length xs = ?n}"
    by (rule finite_lists_length_eq[OF frows])
  ultimately show ?thesis by (rule finite_subset)
qed

lemma finite_branch_completions: "finite (branch_completions g cs r c vs)"
  unfolding branch_completions_def by (simp add: finite_completions)

lemma branch_completions_Nil: "branch_completions g cs r c [] = {}"
  by (simp add: branch_completions_def)

lemma branch_completions_unsafe:
  "\<not> unit_free g cs (r, c) v \<Longrightarrow> branch_completions g cs r c (v # vs) = branch_completions g cs r c vs"
  unfolding branch_completions_def by (rule arg_cong[where f = "\<lambda>A. \<Union>v\<in>A. completions g (upd cs r c v)"]) auto

lemma branch_completions_safe:
  "unit_free g cs (r, c) v \<Longrightarrow>
   branch_completions g cs r c (v # vs) = completions g (upd cs r c v) \<union> branch_completions g cs r c vs"
  unfolding branch_completions_def by auto

lemma branch_completions_disjoint:
  assumes sq: "square (gsize g) cs" and r: "r < gsize g" and c: "c < gsize g"
    and v: "v \<noteq> 0" and vs: "0 \<notin> set vs" and nin: "v \<notin> set vs"
  shows "completions g (upd cs r c v) \<inter> branch_completions g cs r c vs = {}"
proof (rule ccontr)
  assume "completions g (upd cs r c v) \<inter> branch_completions g cs r c vs \<noteq> {}"
  then obtain cs' u where 1: "completion g (upd cs r c v) cs'" and u: "u \<in> set vs"
    and 2: "completion g (upd cs r c u) cs'"
    unfolding branch_completions_def completions_def by auto
  from u vs have "u \<noteq> 0" by auto
  from completion_upd_value[OF sq r c v 1] completion_upd_value[OF sq r c this 2]
  have "u = v" by simp
  with u nin show False by simp
qed

lemma card_branch_completions_safe:
  assumes "square (gsize g) cs" "r < gsize g" "c < gsize g" "v \<noteq> 0" "0 \<notin> set vs" "v \<notin> set vs"
    and "unit_free g cs (r, c) v"
  shows "card (branch_completions g cs r c (v # vs)) =
         card (completions g (upd cs r c v)) + card (branch_completions g cs r c vs)"
  unfolding branch_completions_safe[OF assms(7)]
  by (rule card_Un_disjoint[OF finite_completions finite_branch_completions
        branch_completions_disjoint[OF assms(1-6)]])

lemma completions_first:
  assumes "square (gsize g) cs" "r < gsize g" "c < gsize g" "cs ! r ! c = 0"
  shows "completions g cs = branch_completions g cs r c [1..Size g]"
  unfolding completions_def branch_completions_def
  using completion_first[OF assms] by auto

lemma Grid_dfs_spec:
  "wf_dims g \<Longrightarrow> square (gsize g) (Cells cur) \<Longrightarrow> cnt < limit \<Longrightarrow>
     (if cnt + int (card (completions g (Cells cur))) < limit
      then Grid_dfs g limit cur cnt = Some (False, cur, cnt + int (card (completions g (Cells cur))))
      else \<exists>cur'. Grid_dfs g limit cur cnt = Some (True, cur', limit))"
  "wf_dims g \<Longrightarrow> square (gsize g) (Cells cur) \<Longrightarrow> cnt < limit \<Longrightarrow> r < gsize g \<Longrightarrow> c < gsize g \<Longrightarrow>
   Cells cur ! r ! c = 0 \<Longrightarrow> distinct vs \<Longrightarrow> 0 \<notin> set vs \<Longrightarrow>
     (if cnt + int (card (branch_completions g (Cells cur) r c vs)) < limit
      then Grid_dfs_loop g limit r c vs cur cnt =
             Some (False, cur, cnt + int (card (branch_completions g (Cells cur) r c vs)))
      else \<exists>cur'. Grid_dfs_loop g limit r c vs cur cnt = Some (True, cur', limit))"
proof (induct g limit cur cnt and g limit r c vs cur cnt rule: Grid_dfs_Grid_dfs_loop.induct)
  case (1 g limit cur cnt)
  note d = "1.prems"(1) and sq = "1.prems"(2) and lt = "1.prems"(3)
  from Grid_findEmpty_cases[OF sq] show ?case
  proof (elim disjE exE conjE)
    assume fe: "Grid_findEmpty g cur = Some (0, 0, False)"
      and full: "\<forall>r<gsize g. \<forall>c<gsize g. Cells cur ! r ! c \<noteq> 0"
    have "completions g (Cells cur) = {Cells cur}"
      unfolding completions_def using completion_full[OF sq full] by auto
    then have k: "card (completions g (Cells cur)) = 1" by simp
    from fe have "Grid_dfs g limit cur cnt = Some (limit \<le> cnt + 1, cur, cnt + 1)"
      by (simp add: Grid_dfs.simps)
    with lt show ?thesis unfolding k by auto
  next
    fix r c assume fe: "Grid_findEmpty g cur = Some (r, c, True)"
      and r: "r < gsize g" and c: "c < gsize g" and z: "Cells cur ! r ! c = 0"
    have eq: "Grid_dfs g limit cur cnt = Grid_dfs_loop g limit r c [1..Size g] cur cnt"
      using fe by (simp add: Grid_dfs.simps)
    have "distinct [1..Size g]" "0 \<notin> set [1..Size g]" by simp_all
    from "1.hyps"[OF fe refl refl _ d sq lt r c z this] show ?thesis
      unfolding eq completions_first[OF sq r c z] by simp
  qed
next
  case (2 g limit r c cur cnt)
  then show ?case by (simp add: branch_completions_Nil)
next
  case (3 g limit r c v vs cur cnt)
  note d = "3.prems"(1) and sq = "3.prems"(2) and lt = "3.prems"(3) and r = "3.prems"(4)
    and c = "3.prems"(5) and z = "3.prems"(6)
  from "3.prems"(7,8) have dist: "distinct vs" and nin: "v \<notin> set vs" and v0: "v \<noteq> 0"
    and vs0: "0 \<notin> set vs" by auto
  have safe: "Grid_isSafe g cur r c v = Some (unit_free g (Cells cur) (r, c) v)"
    by (rule Grid_isSafe_eq[OF d sq r c])
  show ?case
  proof (cases "unit_free g (Cells cur) (r, c) v")
    case False
    with safe have s: "Grid_isSafe g cur r c v = Some False" by simp
    then have eq: "Grid_dfs_loop g limit r c (v # vs) cur cnt = Grid_dfs_loop g limit r c vs cur cnt"
      by simp
    from "3.hyps"(3)[OF s refl d sq lt r c z dist vs0] show ?thesis
      unfolding eq branch_completions_unsafe[OF False] .
  next
    case True
    with safe have s: "Grid_isSafe g cur r c v = Some True" by simp
    have sc: "set_cell (Cells cur) r c v = Some (upd (Cells cur) r c v)"
      using sq r c square_nth[OF sq r] by (simp add: set_cell_Some square_def)
    let ?w1 = "cur\<lparr>Cells := upd (Cells cur) r c v\<rparr>"
    let ?k1 = "int (card (completions g (upd (Cells cur) r c v)))"
    let ?k2 = "int (card (branch_completions g (Cells cur) r c vs))"
    have sq1: "square (gsize g) (Cells ?w1)" using square_upd[OF sq] by simp
    have card: "int (card (branch_completions g (Cells cur) r c (v # vs))) = ?k1 + ?k2"
      using card_branch_completions_safe[OF sq r c v0 vs0 nin True] by simp
    have IH1: "if cnt + ?k1 < limit
        then Grid_dfs g limit ?w1 cnt = Some (False, ?w1, cnt + ?k1)
        else \<exists>cur'. Grid_dfs g limit ?w1 cnt = Some (True, cur', limit)"
      using "3.hyps"(1)[OF s refl sc d sq1 lt] by simp
    show ?thesis
    proof (cases "cnt + ?k1 < limit")
      case False
      with IH1 obtain cur' where "Grid_dfs g limit ?w1 cnt = Some (True, cur', limit)" by auto
      with s sc have "Grid_dfs_loop g limit r c (v # vs) cur cnt = Some (True, cur', limit)" by simp
      moreover from False have "\<not> cnt + (?k1 + ?k2) < limit" by simp
      ultimately show ?thesis unfolding card by auto
    next
      case lt1: True
      with IH1 have bt: "Grid_dfs g limit ?w1 cnt = Some (False, ?w1, cnt + ?k1)" by simp
      have sc0: "set_cell (Cells ?w1) r c 0 = Some (Cells cur)"
      proof -
        have "upd (upd (Cells cur) r c v) r c 0 = upd (Cells cur) r c 0" by (rule upd_upd)
        also have "\<dots> = Cells cur"
          using upd_same[of "Cells cur" r c 0] square_cell[OF sq r c] z by simp
        finally show ?thesis using sq1 r c square_nth[OF sq1 r] by (simp add: set_cell_Some square_def)
      qed
      have rest: "(?w1)\<lparr>Cells := Cells cur\<rparr> = cur" by simp
      from s sc bt sc0 rest
      have eq: "Grid_dfs_loop g limit r c (v # vs) cur cnt = Grid_dfs_loop g limit r c vs cur (cnt + ?k1)"
        by simp
      from "3.hyps"(2)[OF s refl sc bt refl refl refl sc0, unfolded rest, OF d sq lt1 r c z dist vs0]
      show ?thesis unfolding eq card by (simp add: add.assoc)
    qed
  qed
qed

section \<open>What the validator checks\<close>

definition marks :: "nat \<Rightarrow> int set \<Rightarrow> bool list" where
  "marks m A = map (\<lambda>k. int k \<in> A) [0..<m]"

fun nodup :: "int list \<Rightarrow> int set \<Rightarrow> bool" where
  "nodup [] A = True"
| "nodup (x # xs) A = (if x = 0 then nodup xs A else x \<notin> A \<and> nodup xs (insert x A))"

lemma marks_empty: "replicate m False = marks m {}"
  by (simp add: marks_def map_replicate_const)

lemma marks_insert: "0 \<le> v \<Longrightarrow> (marks m A)[nat v := True] = marks m (insert v A)"
proof (rule nth_equalityI)
  show "length ((marks m A)[nat v := True]) = length (marks m (insert v A))"
    by (simp add: marks_def)
next
  fix i assume "i < length ((marks m A)[nat v := True])"
  then have i: "i < m" by (simp add: marks_def)
  assume v: "0 \<le> v"
  then have eq: "(nat v = i) = (int i = v)" by auto
  show "(marks m A)[nat v := True] ! i = marks m (insert v A) ! i"
  proof (cases "nat v < m")
    case True
    then have "(marks m A)[nat v := True] ! i = (if nat v = i then True else marks m A ! i)"
      by (simp add: marks_def nth_list_update)
    with i eq show ?thesis by (simp add: marks_def)
  next
    case False
    with i have "nat v \<noteq> i" by simp
    with eq have "int i \<noteq> v" by simp
    with i False show ?thesis by (simp add: marks_def list_update_beyond)
  qed
qed

lemma check_seen_zero: "check_seen seen 0 = Some (Inr seen)"
  by (simp add: check_seen_def)

lemma check_seen_marks:
  assumes "0 \<le> v" "v < int m"
  shows "check_seen (marks m A) v =
         Some (if v = 0 then Inr (marks m A)
               else if v \<in> A then Inl ErrInvalidBoard else Inr (marks m (insert v A)))"
proof (cases "v = 0")
  case True
  then show ?thesis by (simp add: check_seen_zero)
next
  case False
  from assms have lt: "nat v < m" by simp
  then have nth: "marks m A ! nat v = (v \<in> A)" using assms(1) by (simp add: marks_def)
  have len: "\<not> length (marks m A) \<le> nat v" using lt by (simp add: marks_def)
  from False assms(1) have "\<not> v < 0" by simp
  with False len nth show ?thesis by (simp add: check_seen_def marks_insert[OF assms(1)])
qed

lemma nodup_step:
  fixes f :: "'a \<Rightarrow> int"
  assumes a: "a \<notin> set ps" and False: "f a \<noteq> 0"
  shows "(f a \<notin> A \<and> (\<forall>p\<in>set ps. f p \<noteq> 0 \<longrightarrow>
         f p \<notin> insert (f a) A \<and> (\<forall>q\<in>set ps. q \<noteq> p \<longrightarrow> f q \<noteq> f p))) =
       (\<forall>p\<in>set (a # ps). f p \<noteq> 0 \<longrightarrow> f p \<notin> A \<and> (\<forall>q\<in>set (a # ps). q \<noteq> p \<longrightarrow> f q \<noteq> f p))"
proof
  assume L: "f a \<notin> A \<and> (\<forall>p\<in>set ps. f p \<noteq> 0 \<longrightarrow>
         f p \<notin> insert (f a) A \<and> (\<forall>q\<in>set ps. q \<noteq> p \<longrightarrow> f q \<noteq> f p))"
  show "\<forall>p\<in>set (a # ps). f p \<noteq> 0 \<longrightarrow> f p \<notin> A \<and> (\<forall>q\<in>set (a # ps). q \<noteq> p \<longrightarrow> f q \<noteq> f p)"
  proof (intro ballI impI conjI)
    fix p assume p: "p \<in> set (a # ps)" and nz: "f p \<noteq> 0"
    show "f p \<notin> A" using L p nz by auto
    fix q assume q: "q \<in> set (a # ps)" and ne: "q \<noteq> p"
    show "f q \<noteq> f p"
    proof (cases "p = a")
      case True
      with q ne have qs: "q \<in> set ps" by auto
      show ?thesis
      proof (cases "f q = 0")
        case True with nz show ?thesis by simp
      next
        case False
        with L qs have "f q \<notin> insert (f a) A" by blast
        with \<open>p = a\<close> show ?thesis by auto
      qed
    next
      case False
      with p have ps: "p \<in> set ps" by auto
      with L nz have 1: "f p \<notin> insert (f a) A" and 2: "\<forall>q\<in>set ps. q \<noteq> p \<longrightarrow> f q \<noteq> f p" by blast+
      show ?thesis
      proof (cases "q = a")
        case True with 1 show ?thesis by auto
      next
        case False with q have "q \<in> set ps" by auto
        with 2 ne show ?thesis by blast
      qed
    qed
  qed
next
  assume R: "\<forall>p\<in>set (a # ps). f p \<noteq> 0 \<longrightarrow> f p \<notin> A \<and> (\<forall>q\<in>set (a # ps). q \<noteq> p \<longrightarrow> f q \<noteq> f p)"
  from R False have 1: "f a \<notin> A" by simp
  have "\<forall>p\<in>set ps. f p \<noteq> 0 \<longrightarrow> f p \<notin> insert (f a) A \<and> (\<forall>q\<in>set ps. q \<noteq> p \<longrightarrow> f q \<noteq> f p)"
  proof (intro ballI impI)
    fix p assume p: "p \<in> set ps" and nz: "f p \<noteq> 0"
    from p a have pa: "a \<noteq> p" by auto
    from R p nz have A: "f p \<notin> A" and Q: "\<forall>q\<in>set (a # ps). q \<noteq> p \<longrightarrow> f q \<noteq> f p" by simp_all
    from Q pa have "f a \<noteq> f p" by simp
    moreover from Q have "\<forall>q\<in>set ps. q \<noteq> p \<longrightarrow> f q \<noteq> f p" by simp
    ultimately show "f p \<notin> insert (f a) A \<and> (\<forall>q\<in>set ps. q \<noteq> p \<longrightarrow> f q \<noteq> f p)" using A by simp
  qed
  with 1 show "f a \<notin> A \<and> (\<forall>p\<in>set ps. f p \<noteq> 0 \<longrightarrow>
         f p \<notin> insert (f a) A \<and> (\<forall>q\<in>set ps. q \<noteq> p \<longrightarrow> f q \<noteq> f p))" by simp
qed


lemma nodup_map:
  "distinct ps \<Longrightarrow>
   nodup (map f ps) A \<longleftrightarrow>
   (\<forall>p\<in>set ps. f p \<noteq> 0 \<longrightarrow> f p \<notin> A \<and> (\<forall>q\<in>set ps. q \<noteq> p \<longrightarrow> f q \<noteq> f p))"
proof (induction ps arbitrary: A)
  case Nil
  then show ?case by simp
next
  case (Cons a ps)
  from Cons.prems have d: "distinct ps" and a: "a \<notin> set ps" by simp_all
  show ?case
  proof (cases "f a = 0")
    case True
    with Cons.IH[OF d, of A] a show ?thesis by auto
  next
    case False
    have "nodup (map f (a # ps)) A = (f a \<notin> A \<and> nodup (map f ps) (insert (f a) A))"
      using False by simp
    also have "\<dots> = (f a \<notin> A \<and> (\<forall>p\<in>set ps. f p \<noteq> 0 \<longrightarrow>
         f p \<notin> insert (f a) A \<and> (\<forall>q\<in>set ps. q \<noteq> p \<longrightarrow> f q \<noteq> f p)))"
      unfolding Cons.IH[OF d, of "insert (f a) A"] ..
    also have "\<dots> = (\<forall>p\<in>set (a # ps). f p \<noteq> 0 \<longrightarrow> f p \<notin> A \<and> (\<forall>q\<in>set (a # ps). q \<noteq> p \<longrightarrow> f q \<noteq> f p))"
      by (rule nodup_step[of a ps f A, OF a False])
    finally show ?thesis .
  qed
qed

definition line_ok :: "int \<Rightarrow> int list list \<Rightarrow> nat \<Rightarrow> nat list \<Rightarrow> int set \<Rightarrow> int set \<Rightarrow> bool" where
  "line_ok s cs i js A B =
     ((\<forall>j\<in>set js. 0 \<le> cs ! i ! j \<and> cs ! i ! j \<le> s \<and> 0 \<le> cs ! j ! i \<and> cs ! j ! i \<le> s) \<and>
      nodup (map (\<lambda>j. cs ! i ! j) js) A \<and> nodup (map (\<lambda>j. cs ! j ! i) js) B)"

lemma validate_line_eq:
  assumes sq: "square n cs" and i: "i < n" and s: "0 \<le> s"
  shows "\<forall>j\<in>set js. j < n \<Longrightarrow>
         validate_line s cs i js (marks (nat (s + 1)) A) (marks (nat (s + 1)) B) =
         Some (if line_ok s cs i js A B then Inr () else Inl ErrInvalidBoard)"
proof (induction js arbitrary: A B)
  case Nil
  then show ?case by (simp add: line_ok_def)
next
  case (Cons j js)
  let ?m = "nat (s + 1)"
  let ?rv = "cs ! i ! j" and ?cv = "cs ! j ! i"
  from Cons.prems have j: "j < n" and js: "\<forall>j\<in>set js. j < n" by simp_all
  have rd: "cell cs i j = Some ?rv" "cell cs j i = Some ?cv"
    using square_cell[OF sq i j] square_cell[OF sq j i] by simp_all
  show ?case
  proof (cases "?rv < 0 \<or> ?rv > s \<or> ?cv < 0 \<or> ?cv > s")
    case True
    then have "\<not> line_ok s cs i (j # js) A B" by (auto simp: line_ok_def)
    with True rd show ?thesis by simp
  next
    case False
    then have rng: "0 \<le> ?rv" "?rv < int ?m" "0 \<le> ?cv" "?cv < int ?m" using s by auto
    note cr = check_seen_marks[OF rng(1,2), of A] and cc = check_seen_marks[OF rng(3,4)]
    have step: "validate_line s cs i (j # js) (marks ?m A) (marks ?m B) =
        (if ?rv \<noteq> 0 \<and> ?rv \<in> A then Some (Inl ErrInvalidBoard)
         else if ?cv \<noteq> 0 \<and> ?cv \<in> B then Some (Inl ErrInvalidBoard)
         else validate_line s cs i js
                (marks ?m (if ?rv = 0 then A else insert ?rv A))
                (marks ?m (if ?cv = 0 then B else insert ?cv B)))"
      using False rd by (simp add: cr cc check_seen_zero)
    have ok: "line_ok s cs i (j # js) A B =
        (\<not> (?rv \<noteq> 0 \<and> ?rv \<in> A) \<and> \<not> (?cv \<noteq> 0 \<and> ?cv \<in> B) \<and>
         line_ok s cs i js (if ?rv = 0 then A else insert ?rv A) (if ?cv = 0 then B else insert ?cv B))"
      using False by (auto simp: line_ok_def)
    show ?thesis unfolding step ok using Cons.IH[OF js] by simp
  qed
qed

lemma validate_lines_eq:
  assumes sq: "square n cs" and s: "0 \<le> s" and n: "n = nat s"
  shows "\<forall>i\<in>set is. i < n \<Longrightarrow>
         validate_lines s cs is =
         Some (if \<forall>i\<in>set is. line_ok s cs i [0..<n] {} {} then Inr () else Inl ErrInvalidBoard)"
proof (induction "is")
  case Nil
  then show ?case by simp
next
  case (Cons i "is")
  then have i: "i < n" and rest: "\<forall>i\<in>set is. i < n" by simp_all
  have "validate_line s cs i [0..<n] (marks (nat (s + 1)) {}) (marks (nat (s + 1)) {}) =
        Some (if line_ok s cs i [0..<n] {} {} then Inr () else Inl ErrInvalidBoard)"
    by (rule validate_line_eq[OF sq i s]) simp
  with Cons.IH[OF rest] show ?case by (simp add: marks_empty n)
qed

lemma validate_box_eq:
  assumes sq: "square n cs" and s: "0 \<le> s"
  shows "\<forall>(r, c)\<in>set ps. r < n \<and> c < n \<and> 0 \<le> cs ! r ! c \<and> cs ! r ! c \<le> s \<Longrightarrow>
         validate_box cs ps (marks (nat (s + 1)) A) =
         Some (if nodup (map (\<lambda>(r, c). cs ! r ! c) ps) A then Inr () else Inl ErrInvalidBoard)"
proof (induction ps arbitrary: A)
  case Nil
  then show ?case by simp
next
  case (Cons p ps)
  obtain r c where p: "p = (r, c)" by (cases p)
  let ?m = "nat (s + 1)" and ?v = "cs ! r ! c"
  from Cons.prems p have rc: "r < n" "c < n" and rng: "0 \<le> ?v" "?v < int ?m"
    and rest: "\<forall>(r, c)\<in>set ps. r < n \<and> c < n \<and> 0 \<le> cs ! r ! c \<and> cs ! r ! c \<le> s"
    using s by auto
  have rd: "cell cs r c = Some ?v" using square_cell[OF sq rc] .
  show ?case
    unfolding p using Cons.IH[OF rest] rd by (simp add: check_seen_marks[OF rng])
qed

lemma validate_boxes_eq:
  assumes sq: "square n cs" and s: "0 \<le> s"
    and rng: "\<forall>r<n. \<forall>c<n. 0 \<le> cs ! r ! c \<and> cs ! r ! c \<le> s"
  shows "\<forall>(br, bc)\<in>set bs. br + R \<le> n \<and> bc + C \<le> n \<Longrightarrow>
         validate_boxes s R C cs bs =
         Some (if \<forall>(br, bc)\<in>set bs.
                    nodup (map (\<lambda>(r, c). cs ! r ! c) (List.product [br..<br + R] [bc..<bc + C])) {}
               then Inr () else Inl ErrInvalidBoard)"
proof (induction bs)
  case Nil
  then show ?case by simp
next
  case (Cons b bs)
  obtain br bc where b: "b = (br, bc)" by (cases b)
  from Cons.prems b have le: "br + R \<le> n" "bc + C \<le> n"
    and rest: "\<forall>(br, bc)\<in>set bs. br + R \<le> n \<and> bc + C \<le> n" by auto
  have "\<forall>(r, c)\<in>set (List.product [br..<br + R] [bc..<bc + C]).
          r < n \<and> c < n \<and> 0 \<le> cs ! r ! c \<and> cs ! r ! c \<le> s"
    using le rng by auto
  from validate_box_eq[OF sq s this, of "{}"] Cons.IH[OF rest] show ?case
    unfolding b by (simp add: marks_empty)
qed

definition valid_cells :: "Grid \<Rightarrow> int list list \<Rightarrow> bool" where
  "valid_cells g cs =
     ((\<forall>r<gsize g. \<forall>c<gsize g. 0 \<le> cs ! r ! c \<and> cs ! r ! c \<le> Size g) \<and>
      (\<forall>r<gsize g. \<forall>c<gsize g. cs ! r ! c \<noteq> 0 \<longrightarrow>
         (\<forall>r'<gsize g. \<forall>c'<gsize g.
            (r', c') \<noteq> (r, c) \<and> same_unit g (r, c) (r', c') \<longrightarrow> cs ! r' ! c' \<noteq> cs ! r ! c)))"

definition lines_ok :: "Grid \<Rightarrow> int list list \<Rightarrow> bool" where
  "lines_ok g cs = (\<forall>i<gsize g. line_ok (Size g) cs i [0..<gsize g] {} {})"

definition boxes_ok :: "Grid \<Rightarrow> int list list \<Rightarrow> bool" where
  "boxes_ok g cs =
     (\<forall>(br, bc)\<in>set (List.product (box_starts (gsize g) (nat (BoxRows g)))
                                   (box_starts (gsize g) (nat (BoxCols g)))).
        nodup (map (\<lambda>(r, c). cs ! r ! c)
                 (List.product [br..<br + nat (BoxRows g)] [bc..<bc + nat (BoxCols g)])) {})"

lemma box_starts_iff: "b \<in> set (box_starts n R) \<longleftrightarrow> b < n \<and> b mod R = 0"
  by (auto simp: box_starts_def)

lemma box_start_fits:
  fixes b R C :: nat
  assumes "0 < R" "b < R * C" "b mod R = 0"
  shows "b + R \<le> R * C"
proof -
  from assms(3) have "b div R * R = b" by (metis div_mult_mod_eq add.right_neutral mult.commute)
  with block_in_range[OF assms(1,2)] show ?thesis by simp
qed

lemma lines_ok_range:
  "lines_ok g cs \<Longrightarrow> r < gsize g \<Longrightarrow> c < gsize g \<Longrightarrow> 0 \<le> cs ! r ! c \<and> cs ! r ! c \<le> Size g"
  unfolding lines_ok_def line_ok_def by simp

lemma Grid_Validate_eq:
  assumes d: "wf_dims g" and sq: "square (gsize g) (Cells g)"
  shows "Grid_Validate g =
         Some (if lines_ok g (Cells g) \<and> boxes_ok g (Cells g) then Inr () else Inl ErrInvalidBoard)"
proof -
  let ?n = "gsize g" and ?R = "nat (BoxRows g)" and ?C = "nat (BoxCols g)" and ?cs = "Cells g"
  let ?s = "Size g"
  note dn = wf_dims_nat[OF d]
  have s: "0 \<le> ?s" "\<not> ?s \<le> 0" using wf_dims_pos[OF d] by simp_all
  have n: "?n = nat ?s" by (simp add: gsize_def)
  have lines: "validate_lines ?s ?cs [0..<nat ?s] =
      Some (if lines_ok g ?cs then Inr () else Inl ErrInvalidBoard)"
    using validate_lines_eq[OF sq s(1) n, of "[0..<?n]"] by (simp add: lines_ok_def n)
  have bx: "\<not> (BoxRows g = 0 \<or> BoxCols g = 0)" "\<not> (BoxRows g < 0 \<or> BoxCols g < 0)"
    using d by (auto simp: wf_dims_def)
  show ?thesis
  proof (cases "lines_ok g ?cs")
    case False
    with lines show ?thesis by (simp add: Grid_Validate_def Let_def)
  next
    case True
    then have rng: "\<forall>r<?n. \<forall>c<?n. 0 \<le> ?cs ! r ! c \<and> ?cs ! r ! c \<le> ?s"
      using lines_ok_range by blast
    have fits: "\<forall>(br, bc)\<in>set (List.product (box_starts ?n ?R) (box_starts ?n ?C)).
                  br + ?R \<le> ?n \<and> bc + ?C \<le> ?n"
    proof -
      have "\<And>br. br \<in> set (box_starts ?n ?R) \<Longrightarrow> br + ?R \<le> ?n"
        using box_start_fits[OF dn(1), of _ ?C] dn(3) by (simp add: box_starts_iff)
      moreover have "\<And>bc. bc \<in> set (box_starts ?n ?C) \<Longrightarrow> bc + ?C \<le> ?n"
        using box_start_fits[OF dn(2), of _ ?R] dn(3) by (simp add: box_starts_iff mult.commute)
      ultimately show ?thesis by auto
    qed
    have "validate_boxes ?s ?R ?C ?cs (List.product (box_starts ?n ?R) (box_starts ?n ?C)) =
          Some (if boxes_ok g ?cs then Inr () else Inl ErrInvalidBoard)"
      using validate_boxes_eq[OF sq s(1) rng fits] by (simp add: boxes_ok_def)
    with lines True s(2) bx show ?thesis
      by (simp add: Grid_Validate_def Let_def n[symmetric])
  qed
qed

lemma line_ok_iff:
  "line_ok s cs i [0..<n] {} {} \<longleftrightarrow>
     (\<forall>j<n. 0 \<le> cs ! i ! j \<and> cs ! i ! j \<le> s \<and> 0 \<le> cs ! j ! i \<and> cs ! j ! i \<le> s) \<and>
     (\<forall>j<n. cs ! i ! j \<noteq> 0 \<longrightarrow> (\<forall>j'<n. j' \<noteq> j \<longrightarrow> cs ! i ! j' \<noteq> cs ! i ! j)) \<and>
     (\<forall>j<n. cs ! j ! i \<noteq> 0 \<longrightarrow> (\<forall>j'<n. j' \<noteq> j \<longrightarrow> cs ! j' ! i \<noteq> cs ! j ! i))"
proof -
  have d: "distinct [0..<n]" by simp
  show ?thesis
    unfolding line_ok_def nodup_map[OF d] by auto
qed

lemma box_of_start:
  fixes b R r :: nat
  assumes R: "0 < R" and b: "b mod R = 0"
  shows "(b \<le> r \<and> r < b + R) = (r div R * R = b)"
proof -
  from b have bb: "b div R * R = b" by (metis div_mult_mod_eq add.right_neutral mult.commute)
  have "(b \<le> r \<and> r < b + R) = (r div R = b div R)"
    using div_eq_block[OF R, of r b] bb by simp
  also have "\<dots> = (r div R * R = b)"
    using bb R by (metis div_mult_self_is_m)
  finally show ?thesis .
qed

lemma boxes_okD:
  assumes ok: "boxes_ok g cs"
    and br: "br \<in> set (box_starts (gsize g) (nat (BoxRows g)))"
    and bc: "bc \<in> set (box_starts (gsize g) (nat (BoxCols g)))"
    and p: "p \<in> set (List.product [br..<br + nat (BoxRows g)] [bc..<bc + nat (BoxCols g)])"
    and q: "q \<in> set (List.product [br..<br + nat (BoxRows g)] [bc..<bc + nat (BoxCols g)])"
    and nz: "cs ! fst p ! snd p \<noteq> 0" and ne: "q \<noteq> p"
  shows "cs ! fst q ! snd q \<noteq> cs ! fst p ! snd p"
proof -
  let ?box = "List.product [br..<br + nat (BoxRows g)] [bc..<bc + nat (BoxCols g)]"
  let ?f = "\<lambda>(r, c). cs ! r ! c"
  have dist: "distinct ?box" by (simp add: distinct_product)
  from br bc have "(br, bc) \<in> set (List.product (box_starts (gsize g) (nat (BoxRows g)))
         (box_starts (gsize g) (nat (BoxCols g))))" by simp
  with ok have "nodup (map ?f ?box) {}" unfolding boxes_ok_def by fast
  then have "\<forall>p\<in>set ?box. ?f p \<noteq> 0 \<longrightarrow> ?f p \<notin> {} \<and> (\<forall>q\<in>set ?box. q \<noteq> p \<longrightarrow> ?f q \<noteq> ?f p)"
    unfolding nodup_map[OF dist] .
  from bspec[OF this p] nz have "\<forall>q\<in>set ?box. q \<noteq> p \<longrightarrow> ?f q \<noteq> ?f p"
    by (simp add: split_def)
  from bspec[OF this q] ne show ?thesis by (simp add: split_def)
qed

lemma boxes_okI:
  assumes "\<And>br bc p q. br \<in> set (box_starts (gsize g) (nat (BoxRows g))) \<Longrightarrow>
      bc \<in> set (box_starts (gsize g) (nat (BoxCols g))) \<Longrightarrow>
      p \<in> set (List.product [br..<br + nat (BoxRows g)] [bc..<bc + nat (BoxCols g)]) \<Longrightarrow>
      q \<in> set (List.product [br..<br + nat (BoxRows g)] [bc..<bc + nat (BoxCols g)]) \<Longrightarrow>
      cs ! fst p ! snd p \<noteq> 0 \<Longrightarrow> q \<noteq> p \<Longrightarrow> cs ! fst q ! snd q \<noteq> cs ! fst p ! snd p"
  shows "boxes_ok g cs"
  unfolding boxes_ok_def
proof (intro ballI, clarify)
  fix br bc
  assume "(br, bc) \<in> set (List.product (box_starts (gsize g) (nat (BoxRows g)))
         (box_starts (gsize g) (nat (BoxCols g))))"
  then have br: "br \<in> set (box_starts (gsize g) (nat (BoxRows g)))"
    and bc: "bc \<in> set (box_starts (gsize g) (nat (BoxCols g)))" by simp_all
  let ?box = "List.product [br..<br + nat (BoxRows g)] [bc..<bc + nat (BoxCols g)]"
  let ?f = "\<lambda>(r, c). cs ! r ! c"
  have dist: "distinct ?box" by (simp add: distinct_product)
  have "\<forall>p\<in>set ?box. ?f p \<noteq> 0 \<longrightarrow> ?f p \<notin> {} \<and> (\<forall>q\<in>set ?box. q \<noteq> p \<longrightarrow> ?f q \<noteq> ?f p)"
  proof (intro ballI impI conjI)
    fix p q assume p: "p \<in> set ?box" and nz: "?f p \<noteq> 0" and q: "q \<in> set ?box" and ne: "q \<noteq> p"
    from nz have "cs ! fst p ! snd p \<noteq> 0" by (simp add: split_def)
    from assms[OF br bc p q this ne] show "?f q \<noteq> ?f p" by (simp add: split_def)
  qed simp
  then show "nodup (map ?f ?box) {}" unfolding nodup_map[OF dist] .
qed

lemma boxes_ok_iff:
  assumes d: "wf_dims g"
  shows "boxes_ok g cs \<longleftrightarrow>
     (\<forall>r<gsize g. \<forall>c<gsize g. cs ! r ! c \<noteq> 0 \<longrightarrow>
        (\<forall>r'<gsize g. \<forall>c'<gsize g.
           r div nat (BoxRows g) = r' div nat (BoxRows g) \<and> c div nat (BoxCols g) = c' div nat (BoxCols g) \<longrightarrow>
           (r', c') \<noteq> (r, c) \<longrightarrow> cs ! r' ! c' \<noteq> cs ! r ! c))"
    (is "?L \<longleftrightarrow> ?Rhs")
proof
  let ?n = "gsize g" and ?R = "nat (BoxRows g)" and ?C = "nat (BoxCols g)"
  note dn = wf_dims_nat[OF d]
  assume L: ?L
  show ?Rhs
  proof (intro allI impI)
    fix r c r' c'
    assume r: "r < ?n" and c: "c < ?n" and nz: "cs ! r ! c \<noteq> 0" and r': "r' < ?n" and c': "c' < ?n"
      and same: "r div ?R = r' div ?R \<and> c div ?C = c' div ?C" and ne: "(r', c') \<noteq> (r, c)"
    let ?br = "r div ?R * ?R" and ?bc = "c div ?C * ?C"
    have "?br < ?n" "?bc < ?n"
      by (rule le_less_trans[OF div_times_less_eq_dividend r],
          rule le_less_trans[OF div_times_less_eq_dividend c])
    then have brs: "?br \<in> set (box_starts ?n ?R)" "?bc \<in> set (box_starts ?n ?C)"
      by (simp_all add: box_starts_iff)
    have inr: "?br \<le> r \<and> r < ?br + ?R" "?bc \<le> c \<and> c < ?bc + ?C"
      using div_eq_block[OF dn(1), of r r] div_eq_block[OF dn(2), of c c] by simp_all
    have inr': "?br \<le> r' \<and> r' < ?br + ?R" "?bc \<le> c' \<and> c' < ?bc + ?C"
      using div_eq_block[OF dn(1), of r' r] div_eq_block[OF dn(2), of c' c] same by simp_all
    from inr have p: "(r, c) \<in> set (List.product [?br..<?br + ?R] [?bc..<?bc + ?C])" by simp
    from inr' have q: "(r', c') \<in> set (List.product [?br..<?br + ?R] [?bc..<?bc + ?C])" by simp
    from boxes_okD[OF L brs p q] nz ne show "cs ! r' ! c' \<noteq> cs ! r ! c" by simp
  qed
next
  let ?n = "gsize g" and ?R = "nat (BoxRows g)" and ?C = "nat (BoxCols g)"
  note dn = wf_dims_nat[OF d]
  assume Rh: ?Rhs
  show ?L
  proof (rule boxes_okI)
    fix br bc p q
    assume br: "br \<in> set (box_starts ?n ?R)" and bc: "bc \<in> set (box_starts ?n ?C)"
      and p: "p \<in> set (List.product [br..<br + ?R] [bc..<bc + ?C])"
      and q: "q \<in> set (List.product [br..<br + ?R] [bc..<bc + ?C])"
      and nz: "cs ! fst p ! snd p \<noteq> 0" and ne: "q \<noteq> p"
    obtain r c where pp: "p = (r, c)" by (cases p)
    obtain r' c' where qq: "q = (r', c')" by (cases q)
    from br bc have m: "br mod ?R = 0" "bc mod ?C = 0" and lt: "br < ?n" "bc < ?n"
      by (simp_all add: box_starts_iff)
    have fit: "br + ?R \<le> ?n" "bc + ?C \<le> ?n"
      using box_start_fits[OF dn(1), of br ?C] box_start_fits[OF dn(2), of bc ?R] m lt dn(3)
      by (simp_all add: mult.commute)
    from p q fit have rng: "r < ?n" "c < ?n" "r' < ?n" "c' < ?n" unfolding pp qq by auto
    from p q have e: "r div ?R * ?R = br" "r' div ?R * ?R = br" "c div ?C * ?C = bc" "c' div ?C * ?C = bc"
      using box_of_start[OF dn(1) m(1)] box_of_start[OF dn(2) m(2)] unfolding pp qq by auto
    from e(1,2) dn(1) have e1: "r div ?R = r' div ?R" by (metis div_mult_self_is_m)
    from e(3,4) dn(2) have e2: "c div ?C = c' div ?C" by (metis div_mult_self_is_m)
    from nz have nz': "cs ! r ! c \<noteq> 0" by (simp add: pp)
    from ne have ne': "(r', c') \<noteq> (r, c)" by (simp add: pp qq)
    from Rh rng(1,2) nz' have "\<forall>r'<?n. \<forall>c'<?n.
           r div ?R = r' div ?R \<and> c div ?C = c' div ?C \<longrightarrow>
           (r', c') \<noteq> (r, c) \<longrightarrow> cs ! r' ! c' \<noteq> cs ! r ! c" by simp
    with rng(3,4) e1 e2 ne' have "cs ! r' ! c' \<noteq> cs ! r ! c" by simp
    then show "cs ! fst q ! snd q \<noteq> cs ! fst p ! snd p" by (simp add: pp qq)
  qed
qed

lemma lines_ok_iff:
  "lines_ok g cs \<longleftrightarrow>
     (\<forall>r<gsize g. \<forall>c<gsize g. 0 \<le> cs ! r ! c \<and> cs ! r ! c \<le> Size g) \<and>
     (\<forall>r<gsize g. \<forall>c<gsize g. cs ! r ! c \<noteq> 0 \<longrightarrow>
        (\<forall>i<gsize g. (i \<noteq> c \<longrightarrow> cs ! r ! i \<noteq> cs ! r ! c) \<and> (i \<noteq> r \<longrightarrow> cs ! i ! c \<noteq> cs ! r ! c)))"
    (is "?L \<longleftrightarrow> ?A \<and> ?B")
proof
  let ?n = "gsize g"
  assume L: ?L
  then have l: "\<And>i. i < ?n \<Longrightarrow>
     (\<forall>j<?n. 0 \<le> cs ! i ! j \<and> cs ! i ! j \<le> Size g \<and> 0 \<le> cs ! j ! i \<and> cs ! j ! i \<le> Size g) \<and>
     (\<forall>j<?n. cs ! i ! j \<noteq> 0 \<longrightarrow> (\<forall>j'<?n. j' \<noteq> j \<longrightarrow> cs ! i ! j' \<noteq> cs ! i ! j)) \<and>
     (\<forall>j<?n. cs ! j ! i \<noteq> 0 \<longrightarrow> (\<forall>j'<?n. j' \<noteq> j \<longrightarrow> cs ! j' ! i \<noteq> cs ! j ! i))"
    unfolding lines_ok_def line_ok_iff by simp
  have A: ?A using l by simp
  have B: ?B
  proof (intro allI impI conjI)
    fix r c i assume r: "r < ?n" and c: "c < ?n" and nz: "cs ! r ! c \<noteq> 0" and i: "i < ?n"
    { assume "i \<noteq> c"
      with l[OF r] c nz i show "cs ! r ! i \<noteq> cs ! r ! c" by simp }
    { assume "i \<noteq> r"
      with l[OF c] r nz i show "cs ! i ! c \<noteq> cs ! r ! c" by simp }
  qed
  from A B show "?A \<and> ?B" ..
next
  let ?n = "gsize g"
  assume AB: "?A \<and> ?B"
  then have A: "\<And>r c. r < ?n \<Longrightarrow> c < ?n \<Longrightarrow> 0 \<le> cs ! r ! c \<and> cs ! r ! c \<le> Size g"
    and B: "\<And>r c i. r < ?n \<Longrightarrow> c < ?n \<Longrightarrow> cs ! r ! c \<noteq> 0 \<Longrightarrow> i < ?n \<Longrightarrow>
              (i \<noteq> c \<longrightarrow> cs ! r ! i \<noteq> cs ! r ! c) \<and> (i \<noteq> r \<longrightarrow> cs ! i ! c \<noteq> cs ! r ! c)"
    by simp_all
  show ?L
    unfolding lines_ok_def line_ok_iff
  proof (intro allI impI conjI)
    fix i j assume i: "i < ?n" and j: "j < ?n"
    from A[OF i j] show "0 \<le> cs ! i ! j" "cs ! i ! j \<le> Size g" by simp_all
    from A[OF j i] show "0 \<le> cs ! j ! i" "cs ! j ! i \<le> Size g" by simp_all
  next
    fix i j j' assume i: "i < ?n" and j: "j < ?n" and nz: "cs ! i ! j \<noteq> 0" and j': "j' < ?n" and ne: "j' \<noteq> j"
    from B[OF i j nz j'] ne show "cs ! i ! j' \<noteq> cs ! i ! j" by simp
  next
    fix i j j' assume i: "i < ?n" and j: "j < ?n" and nz: "cs ! j ! i \<noteq> 0" and j': "j' < ?n" and ne: "j' \<noteq> j"
    from B[OF j i nz j'] ne show "cs ! j' ! i \<noteq> cs ! j ! i" by simp
  qed
qed

lemma valid_cells_iff:
  assumes d: "wf_dims g"
  shows "valid_cells g cs \<longleftrightarrow> lines_ok g cs \<and> boxes_ok g cs"
proof -
  let ?n = "gsize g"
  define Rng where "Rng = (\<forall>r<?n. \<forall>c<?n. 0 \<le> cs ! r ! c \<and> cs ! r ! c \<le> Size g)"
  define Lin where "Lin = (\<lambda>r c. \<forall>i<?n. (i \<noteq> c \<longrightarrow> cs ! r ! i \<noteq> cs ! r ! c) \<and> (i \<noteq> r \<longrightarrow> cs ! i ! c \<noteq> cs ! r ! c))"
  define Box where "Box = (\<lambda>r c. \<forall>r'<?n. \<forall>c'<?n.
           r div nat (BoxRows g) = r' div nat (BoxRows g) \<and> c div nat (BoxCols g) = c' div nat (BoxCols g) \<longrightarrow>
           (r', c') \<noteq> (r, c) \<longrightarrow> cs ! r' ! c' \<noteq> cs ! r ! c)"
  define Unit where "Unit = (\<lambda>r c. \<forall>r'<?n. \<forall>c'<?n.
            (r', c') \<noteq> (r, c) \<and> same_unit g (r, c) (r', c') \<longrightarrow> cs ! r' ! c' \<noteq> cs ! r ! c)"
  have split: "\<And>r c. r < ?n \<Longrightarrow> c < ?n \<Longrightarrow> Unit r c = (Lin r c \<and> Box r c)"
  proof -
    fix r c assume r: "r < ?n" and c: "c < ?n"
    let ?Q = "\<lambda>r' c'. (r', c') \<noteq> (r, c) \<longrightarrow> cs ! r' ! c' \<noteq> cs ! r ! c"
    have "Unit r c = (\<forall>r'<?n. \<forall>c'<?n. same_unit g (r, c) (r', c') \<longrightarrow> ?Q r' c')"
      unfolding Unit_def by blast
    also have "\<dots> = ((\<forall>i<?n. ?Q r i \<and> ?Q i c) \<and>
       (\<forall>r'<?n. \<forall>c'<?n. r div nat (BoxRows g) = r' div nat (BoxRows g) \<and>
            c div nat (BoxCols g) = c' div nat (BoxCols g) \<longrightarrow> ?Q r' c'))"
      by (rule unit_forall_split[OF r c])
    also have "\<dots> = (Lin r c \<and> Box r c)"
      unfolding Lin_def Box_def by simp
    finally show "Unit r c = (Lin r c \<and> Box r c)" .
  qed
  have V: "valid_cells g cs \<longleftrightarrow> Rng \<and> (\<forall>r<?n. \<forall>c<?n. cs ! r ! c \<noteq> 0 \<longrightarrow> Unit r c)"
    unfolding valid_cells_def Rng_def Unit_def ..
  have Ln: "lines_ok g cs \<longleftrightarrow> Rng \<and> (\<forall>r<?n. \<forall>c<?n. cs ! r ! c \<noteq> 0 \<longrightarrow> Lin r c)"
    unfolding lines_ok_iff Rng_def Lin_def ..
  have Bx: "boxes_ok g cs \<longleftrightarrow> (\<forall>r<?n. \<forall>c<?n. cs ! r ! c \<noteq> 0 \<longrightarrow> Box r c)"
    unfolding boxes_ok_iff[OF d] Box_def ..
  show ?thesis unfolding V Ln Bx using split by blast
qed

lemma Grid_Validate_valid:
  assumes "wf_dims g" "square (gsize g) (Cells g)"
  shows "Grid_Validate g = Some (if valid_cells g (Cells g) then Inr () else Inl ErrInvalidBoard)"
  unfolding Grid_Validate_eq[OF assms] valid_cells_iff[OF assms(1)] ..

lemma completion_square: "completion g cs cs' \<Longrightarrow> square (gsize g) cs'"
  by (simp add: completion_def)

lemma completion_cell:
  assumes "completion g cs cs'" "r < gsize g" "c < gsize g"
  shows "if cs ! r ! c \<noteq> 0 then cs' ! r ! c = cs ! r ! c
         else 1 \<le> cs' ! r ! c \<and> cs' ! r ! c \<le> Size g \<and>
              (\<forall>r'<gsize g. \<forall>c'<gsize g.
                 (r', c') \<noteq> (r, c) \<and> same_unit g (r, c) (r', c') \<longrightarrow> cs' ! r' ! c' \<noteq> cs' ! r ! c)"
  using assms unfolding completion_def by blast

lemma completion_nonzero:
  assumes "completion g cs cs'" "r < gsize g" "c < gsize g"
  shows "cs' ! r ! c \<noteq> 0"
  using completion_cell[OF assms] by (cases "cs ! r ! c = 0") auto

lemma completion_keeps:
  assumes "completion g cs cs'" "r < gsize g" "c < gsize g" "cs ! r ! c \<noteq> 0"
  shows "cs' ! r ! c = cs ! r ! c"
  using completion_cell[OF assms(1-3)] assms(4) by simp

lemma square_no_empty:
  assumes sq: "square n cs" and nz: "\<And>r c. r < n \<Longrightarrow> c < n \<Longrightarrow> cs ! r ! c \<noteq> 0"
  shows "no_empty cs"
  unfolding no_empty_def
proof (intro ballI notI)
  fix row assume row: "row \<in> set cs" and z: "0 \<in> set row"
  from row obtain r where r: "r < length cs" and rr: "cs ! r = row" by (auto simp: in_set_conv_nth)
  from z obtain c where c: "c < length row" and cc: "row ! c = 0" by (auto simp: in_set_conv_nth)
  from sq r have rn: "r < n" by (simp add: square_def)
  with square_nth[OF sq rn] rr c have "c < n" by simp
  from nz[OF rn this] rr cc show False by simp
qed

lemma completion_no_empty:
  assumes "completion g cs cs'"
  shows "no_empty cs'"
  by (rule square_no_empty[OF completion_square[OF assms]]) (rule completion_nonzero[OF assms])

lemma valid_cellsD:
  assumes "valid_cells g cs" "r < gsize g" "c < gsize g"
  shows "0 \<le> cs ! r ! c" "cs ! r ! c \<le> Size g"
    "cs ! r ! c \<noteq> 0 \<Longrightarrow> r' < gsize g \<Longrightarrow> c' < gsize g \<Longrightarrow> (r', c') \<noteq> (r, c) \<Longrightarrow>
       same_unit g (r, c) (r', c') \<Longrightarrow> cs ! r' ! c' \<noteq> cs ! r ! c"
  using assms unfolding valid_cells_def by blast+

lemma completion_valid:
  assumes v: "valid_cells g cs" and C: "completion g cs cs'"
  shows "valid_cells g cs'"
  unfolding valid_cells_def
proof (intro conjI allI impI)
  fix r c assume r: "r < gsize g" and c: "c < gsize g"
  from completion_cell[OF C r c] valid_cellsD(1,2)[OF v r c]
  show "0 \<le> cs' ! r ! c" "cs' ! r ! c \<le> Size g" by (cases "cs ! r ! c = 0"; simp)+
next
  fix r c r' c'
  assume r: "r < gsize g" and c: "c < gsize g" and r': "r' < gsize g" and c': "c' < gsize g"
    and h: "(r', c') \<noteq> (r, c) \<and> same_unit g (r, c) (r', c')"
  then have ne: "(r', c') \<noteq> (r, c)" and su: "same_unit g (r, c) (r', c')" by simp_all
  show "cs' ! r' ! c' \<noteq> cs' ! r ! c"
  proof (cases "cs ! r ! c = 0")
    case True
    with completion_cell[OF C r c] r' c' h show ?thesis by simp
  next
    case nz: False
    show ?thesis
    proof (cases "cs ! r' ! c' = 0")
      case True
      from ne have ne': "(r, c) \<noteq> (r', c')" by auto
      from completion_cell[OF C r' c'] True r c ne' same_unit_sym[OF su]
      have "cs' ! r ! c \<noteq> cs' ! r' ! c'" by simp
      then show ?thesis by simp
    next
      case False
      from valid_cellsD(3)[OF v r c nz r' c' ne su]
        completion_keeps[OF C r c nz] completion_keeps[OF C r' c' False]
      show ?thesis by simp
    qed
  qed
qed

lemma valid_completion_iff:
  assumes v: "valid_cells g cs"
  shows "completion g cs cs' \<longleftrightarrow>
         square (gsize g) cs' \<and> valid_cells g cs' \<and>
         (\<forall>r<gsize g. \<forall>c<gsize g. cs' ! r ! c \<noteq> 0 \<and> (cs ! r ! c \<noteq> 0 \<longrightarrow> cs' ! r ! c = cs ! r ! c))"
proof
  assume C: "completion g cs cs'"
  with completion_valid[OF v C] completion_square[OF C] show
    "square (gsize g) cs' \<and> valid_cells g cs' \<and>
     (\<forall>r<gsize g. \<forall>c<gsize g. cs' ! r ! c \<noteq> 0 \<and> (cs ! r ! c \<noteq> 0 \<longrightarrow> cs' ! r ! c = cs ! r ! c))"
    using completion_nonzero[OF C] completion_keeps[OF C] by blast
next
  assume R: "square (gsize g) cs' \<and> valid_cells g cs' \<and>
     (\<forall>r<gsize g. \<forall>c<gsize g. cs' ! r ! c \<noteq> 0 \<and> (cs ! r ! c \<noteq> 0 \<longrightarrow> cs' ! r ! c = cs ! r ! c))"
  then have sq: "square (gsize g) cs'" and v': "valid_cells g cs'"
    and nz: "\<And>r c. r < gsize g \<Longrightarrow> c < gsize g \<Longrightarrow> cs' ! r ! c \<noteq> 0"
    and keep: "\<And>r c. r < gsize g \<Longrightarrow> c < gsize g \<Longrightarrow> cs ! r ! c \<noteq> 0 \<Longrightarrow> cs' ! r ! c = cs ! r ! c"
    by simp_all
  show "completion g cs cs'"
    unfolding completion_def
  proof (intro conjI allI impI)
    show "square (gsize g) cs'" by (rule sq)
  next
    fix r c assume r: "r < gsize g" and c: "c < gsize g"
    show "if cs ! r ! c \<noteq> 0 then cs' ! r ! c = cs ! r ! c
          else 1 \<le> cs' ! r ! c \<and> cs' ! r ! c \<le> Size g \<and>
               (\<forall>r'<gsize g. \<forall>c'<gsize g.
                  (r', c') \<noteq> (r, c) \<and> same_unit g (r, c) (r', c') \<longrightarrow> cs' ! r' ! c' \<noteq> cs' ! r ! c)"
    proof (cases "cs ! r ! c = 0")
      case False
      with keep[OF r c] show ?thesis by simp
    next
      case True
      from valid_cellsD(1,2)[OF v' r c] nz[OF r c] have "1 \<le> cs' ! r ! c" "cs' ! r ! c \<le> Size g" by simp_all
      moreover have "\<forall>r'<gsize g. \<forall>c'<gsize g.
                  (r', c') \<noteq> (r, c) \<and> same_unit g (r, c) (r', c') \<longrightarrow> cs' ! r' ! c' \<noteq> cs' ! r ! c"
        using valid_cellsD(3)[OF v' r c nz[OF r c]] by blast
      ultimately show ?thesis using True by simp
    qed
  qed
qed

lemma Grid_Validate_ok_iff:
  assumes "wf_grid g"
  shows "Grid_Validate g = Some (Inr ()) \<longleftrightarrow> valid_cells g (Cells g)"
proof -
  from assms have "wf_dims g" "square (gsize g) (Cells g)" by (simp_all add: wf_grid_def gsize_def)
  from Grid_Validate_valid[OF this] show ?thesis by simp
qed

lemma Grid_Solve_spec:
  assumes wf: "wf_grid g"
  shows "(\<exists>cs' rnd'. Grid_Solve g rnd = Some ((g\<lparr>Cells := cs'\<rparr>, True), rnd') \<and> completion g (Cells g) cs') \<or>
         (\<exists>rnd'. Grid_Solve g rnd = Some ((zeroGrid, False), rnd') \<and> (\<forall>cs'. \<not> completion g (Cells g) cs'))"
proof -
  from wf have d: "wf_dims g" and sq: "square (gsize g) (Cells g)" by (simp_all add: wf_grid_def gsize_def)
  from Grid_backtrack_spec(1)[OF d sq, of rnd] show ?thesis
  proof (elim disjE exE conjE)
    fix w' rnd'
    assume "Grid_backtrack g g rnd = Some (True, w', rnd')" "completion g (Cells g) (Cells w')"
      "w' = g\<lparr>Cells := Cells w'\<rparr>"
    then have "Grid_Solve g rnd = Some ((g\<lparr>Cells := Cells w'\<rparr>, True), rnd') \<and> completion g (Cells g) (Cells w')"
      by (simp add: Grid_Solve_def Grid_Clone_wf[OF wf])
    then show ?thesis by blast
  next
    fix rnd'
    assume "Grid_backtrack g g rnd = Some (False, g, rnd')" "\<forall>cs'. \<not> completion g (Cells g) cs'"
    then show ?thesis by (simp add: Grid_Solve_def Grid_Clone_wf[OF wf])
  qed
qed

section \<open>Example inputs and derived specifications\<close>

definition zero_rng :: rng where
  "zero_rng = (\<lambda>k. 0)"

definition count_rng :: rng where
  "count_rng = (\<lambda>k. k)"

definition puzzle4 :: Grid where
  "puzzle4 = \<lparr>Size = 4, BoxRows = 2, BoxCols = 2,
         Cells = [[1, 0, 0, 4], [3, 4, 1, 0], [0, 1, 4, 3], [4, 0, 0, 1]]\<rparr>"

definition solved4 :: Grid where
  "solved4 = \<lparr>Size = 4, BoxRows = 2, BoxCols = 2,
         Cells = [[1, 2, 3, 4], [3, 4, 1, 2], [2, 1, 4, 3], [4, 3, 2, 1]]\<rparr>"

definition bad2 :: Grid where
  "bad2 = \<lparr>Size = 2, BoxRows = 1, BoxCols = 2, Cells = [[0, 2], [2, 2]]\<rparr>"

lemma Grid_hasUniqueSolution_spec:
  assumes d: "wf_dims g" and wf: "wf_grid w" and sz: "Size w = Size g"
  shows "Grid_hasUniqueSolution g w 2 = Some (\<exists>!cs'. completion g (Cells w) cs')"
    and "\<exists>stop cur. Grid_dfs g 2 w 0 = Some (stop, cur, min 2 (int (card (completions g (Cells w))))) \<and>
           stop = (2 \<le> card (completions g (Cells w)))"
proof -
  let ?k = "card (completions g (Cells w))"
  from wf sz have sq: "square (gsize g) (Cells w)" by (simp add: wf_grid_def gsize_def)
  have dfs: "if 0 + int ?k < 2 then Grid_dfs g 2 w 0 = Some (False, w, 0 + int ?k)
             else \<exists>cur'. Grid_dfs g 2 w 0 = Some (True, cur', 2)"
    by (rule Grid_dfs_spec(1)[OF d sq]) simp
  show "\<exists>stop cur. Grid_dfs g 2 w 0 = Some (stop, cur, min 2 (int ?k)) \<and> stop = (2 \<le> ?k)"
  proof (cases "?k < 2")
    case True
    with dfs have "Grid_dfs g 2 w 0 = Some (False, w, int ?k)" by simp
    with True show ?thesis by auto
  next
    case False
    with dfs obtain cur' where "Grid_dfs g 2 w 0 = Some (True, cur', 2)" by auto
    with False show ?thesis by auto
  qed
  then obtain stop cur where r: "Grid_dfs g 2 w 0 = Some (stop, cur, min 2 (int ?k))" by blast
  have "(\<exists>!cs'. completion g (Cells w) cs') \<longleftrightarrow> ?k = 1"
  proof
    assume "\<exists>!cs'. completion g (Cells w) cs'"
    then obtain x where x: "completion g (Cells w) x" "\<And>y. completion g (Cells w) y \<Longrightarrow> y = x"
      by (rule ex1E) blast
    have "completions g (Cells w) = {x}"
    proof (intro set_eqI iffI)
      fix y assume "y \<in> completions g (Cells w)"
      then show "y \<in> {x}" using x(2) by (simp add: completions_def)
    next
      fix y assume "y \<in> {x}"
      then show "y \<in> completions g (Cells w)" using x(1) by (simp add: completions_def)
    qed
    then show "?k = 1" by simp
  next
    assume "?k = 1"
    then obtain x where "completions g (Cells w) = {x}" by (auto simp: card_1_singleton_iff)
    then have "\<And>y. (y \<in> completions g (Cells w)) = (y = x)" by simp
    then have "\<And>y. completion g (Cells w) y = (y = x)" by (simp add: completions_def)
    then show "\<exists>!cs'. completion g (Cells w) cs'" by (intro ex1I[of _ x]) simp_all
  qed
  moreover have "(min 2 (int ?k) = 1) \<longleftrightarrow> ?k = 1" by auto
  ultimately show "Grid_hasUniqueSolution g w 2 = Some (\<exists>!cs'. completion g (Cells w) cs')"
    using r by (simp add: Grid_hasUniqueSolution_def Grid_Clone_wf[OF wf])
qed

lemma completion_Validate_iff:
  assumes d: "wf_dims g" and sq: "square (gsize g) cs"
    and v: "Grid_Validate (g\<lparr>Cells := cs\<rparr>) = Some (Inr ())"
  shows "completion g cs cs' \<longleftrightarrow>
         square (gsize g) cs' \<and> Grid_Validate (g\<lparr>Cells := cs'\<rparr>) = Some (Inr ()) \<and>
         (\<forall>r<gsize g. \<forall>c<gsize g. cs' ! r ! c \<noteq> 0 \<and> (cs ! r ! c \<noteq> 0 \<longrightarrow> cs' ! r ! c = cs ! r ! c))"
proof -
  have eqs: "\<And>x. gsize (g\<lparr>Cells := x\<rparr>) = gsize g" "\<And>x. wf_dims (g\<lparr>Cells := x\<rparr>) = wf_dims g"
    "\<And>x y. valid_cells (g\<lparr>Cells := x\<rparr>) y = valid_cells g y"
    by (simp_all add: gsize_def wf_dims_def valid_cells_def same_unit_def)
  have wfc: "wf_grid (g\<lparr>Cells := cs\<rparr>)" using d sq by (simp add: wf_grid_def gsize_def wf_dims_def)
  from v Grid_Validate_ok_iff[OF wfc] have vc: "valid_cells g cs" by (simp add: eqs)
  show ?thesis
  proof (cases "square (gsize g) cs'")
    case False
    then show ?thesis by (auto simp: completion_def)
  next
    case True
    then have "wf_grid (g\<lparr>Cells := cs'\<rparr>)" using d by (simp add: wf_grid_def gsize_def wf_dims_def)
    from Grid_Validate_ok_iff[OF this] have "Grid_Validate (g\<lparr>Cells := cs'\<rparr>) = Some (Inr ()) \<longleftrightarrow> valid_cells g cs'"
      by (simp add: eqs)
    then show ?thesis unfolding valid_completion_iff[OF vc] by simp
  qed
qed

section \<open>The codec\<close>

definition digit_byte :: "int \<Rightarrow> char" where
  "digit_byte v = (if v = 0 then CHR ''0'' else char_of (48 + v))"

fun string_cells :: "int list list \<Rightarrow> (nat \<times> nat) list \<Rightarrow> string option" where
  "string_cells cs [] = Some []"
| "string_cells cs ((r, c) # ps) =
     (case cell cs r c of
        None \<Rightarrow> None
      | Some v \<Rightarrow>
          (case string_cells cs ps of
             None \<Rightarrow> None
           | Some buf \<Rightarrow> Some (digit_byte v # buf)))"

definition Grid_String :: "Grid \<Rightarrow> string option" where
  "Grid_String g = string_cells (Cells g) (List.product [0..<nat (Size g)] [0..<nat (Size g)])"

text \<open>An assignment \<^verbatim>\<open>g.Cells[r][c] = v\<close> with \<^verbatim>\<open>int\<close> indices; a negative index panics.\<close>

definition set_cell_int :: "int list list \<Rightarrow> int \<Rightarrow> int \<Rightarrow> int \<Rightarrow> int list list option" where
  "set_cell_int cs r c v = (if r < 0 \<or> c < 0 then None else set_cell cs (nat r) (nat c) v)"

fun parse_cells :: "string \<Rightarrow> int \<Rightarrow> nat list \<Rightarrow> int list list \<Rightarrow> (error + int list list) option" where
  "parse_cells s sz [] cs = Some (Inr cs)"
| "parse_cells s sz (i # is) cs =
     (if length s \<le> i then None
      else
        let ch = s ! i; r = int i sdiv sz; c = int i smod sz in
        if ch \<in> set ''123456789'' then
          (let v = of_char ch - 48 in
           if v > sz then Some (Inl ErrDigitExceedsSize)
           else (case set_cell_int cs r c v of
                   None \<Rightarrow> None
                 | Some cs' \<Rightarrow> parse_cells s sz is cs'))
        else if ch = CHR ''0'' \<or> ch = CHR ''.'' then
          (case set_cell_int cs r c 0 of
             None \<Rightarrow> None
           | Some cs' \<Rightarrow> parse_cells s sz is cs')
        else Some (Inl ErrInvalidCharacter))"

definition FromStringN :: "string \<Rightarrow> int \<Rightarrow> int \<Rightarrow> int \<Rightarrow> (error + Grid) option" where
  "FromStringN s sz boxRows boxCols =
     (if sz \<noteq> int64 (boxRows * boxCols) then Some (Inl ErrInvalidDims)
      else
        let expected = int64 (sz * sz) in
        if int (length s) \<noteq> expected then Some (Inl ErrInputLength)
        else
          let g = (case NewGrid sz boxRows boxCols of Inl e \<Rightarrow> zeroGrid | Inr x \<Rightarrow> x) in
          (case parse_cells s sz [0..<nat expected] (Cells g) of
             None \<Rightarrow> None
           | Some (Inl e) \<Rightarrow> Some (Inl e)
           | Some (Inr cs) \<Rightarrow>
               (case Grid_Validate (g\<lparr>Cells := cs\<rparr>) of
                  None \<Rightarrow> None
                | Some (Inl e) \<Rightarrow> Some (Inl e)
                | Some (Inr u) \<Rightarrow> Some (Inr (g\<lparr>Cells := cs\<rparr>)))))"

subsection \<open>What the parser accepts\<close>

definition legal_char :: "int \<Rightarrow> char \<Rightarrow> bool" where
  "legal_char sz ch =
     (ch = CHR ''0'' \<or> ch = CHR ''.'' \<or> (ch \<in> set ''123456789'' \<and> of_char ch - 48 \<le> sz))"

definition decode_char :: "char \<Rightarrow> int" where
  "decode_char ch = (if ch \<in> set ''123456789'' then of_char ch - 48 else 0)"

definition decode_cells :: "string \<Rightarrow> nat \<Rightarrow> int list list" where
  "decode_cells s n = map (\<lambda>r. map (\<lambda>c. decode_char (s ! (r * n + c))) [0..<n]) [0..<n]"

definition decode_grid :: "string \<Rightarrow> int \<Rightarrow> int \<Rightarrow> int \<Rightarrow> Grid" where
  "decode_grid s sz boxRows boxCols =
     \<lparr>Size = sz, BoxRows = boxRows, BoxCols = boxCols, Cells = decode_cells s (nat sz)\<rparr>"

lemma sdiv_nonneg: "0 \<le> a \<Longrightarrow> 0 < b \<Longrightarrow> (a::int) sdiv b = a div b"
  by (simp add: signed_divide_int_def sgn_if)

lemma smod_nonneg: "0 \<le> a \<Longrightarrow> 0 < b \<Longrightarrow> (a::int) smod b = a mod b"
  by (simp add: signed_modulo_int_def sgn_if)

lemma index_split:
  assumes sz: "0 < sz" and i: "i < nat sz * nat sz"
  shows "int i sdiv sz = int (i div nat sz)" "int i smod sz = int (i mod nat sz)"
    "i div nat sz < nat sz" "i mod nat sz < nat sz"
proof -
  have z: "sz = int (nat sz)" using sz by simp
  show "int i sdiv sz = int (i div nat sz)"
    using sz by (subst (2) z) (simp add: sdiv_nonneg zdiv_int)
  show "int i smod sz = int (i mod nat sz)"
    using sz by (subst (2) z) (simp add: smod_nonneg zmod_int)
  show "i div nat sz < nat sz" using i sz by (simp add: less_mult_imp_div_less)
  show "i mod nat sz < nat sz" using sz by simp
qed

lemma parse_cells_step:
  assumes sz: "0 < sz" and sq: "square (nat sz) cs" and i: "i < nat sz * nat sz" and il: "i < length s"
  shows "parse_cells s sz (i # is) cs =
         (if legal_char sz (s ! i)
          then parse_cells s sz is (upd cs (i div nat sz) (i mod nat sz) (decode_char (s ! i)))
          else Some (Inl (if s ! i \<in> set ''123456789'' then ErrDigitExceedsSize else ErrInvalidCharacter)))"
proof -
  note ix = index_split[OF sz i]
  have sc: "\<And>v. set_cell_int cs (int i sdiv sz) (int i smod sz) v =
                 Some (upd cs (i div nat sz) (i mod nat sz) v)"
    using ix sq square_nth[OF sq ix(3)]
    by (simp add: set_cell_int_def set_cell_Some square_def)
  have nd: "CHR ''0'' \<notin> set ''123456789''" "CHR ''.'' \<notin> set ''123456789''" by simp_all
  show ?thesis
  proof (cases "s ! i \<in> set ''123456789''")
    case True
    then have "s ! i \<noteq> CHR ''0''" "s ! i \<noteq> CHR ''.''" using nd by auto
    with True il show ?thesis
      by (simp add: Let_def sc legal_char_def decode_char_def not_less)
  next
    case False
    with il show ?thesis
      by (auto simp add: Let_def sc legal_char_def decode_char_def simp del: set_simps)
  qed
qed

definition put_char :: "string \<Rightarrow> nat \<Rightarrow> int list list \<Rightarrow> nat \<Rightarrow> int list list" where
  "put_char s n cs i = upd cs (i div n) (i mod n) (decode_char (s ! i))"

lemma parse_cells_all:
  assumes sz: "0 < sz"
  shows "square (nat sz) cs \<Longrightarrow> \<forall>i\<in>set is. i < nat sz * nat sz \<and> i < length s \<Longrightarrow>
         (if \<forall>i\<in>set is. legal_char sz (s ! i)
          then parse_cells s sz is cs = Some (Inr (foldl (put_char s (nat sz)) cs is))
          else \<exists>e. parse_cells s sz is cs = Some (Inl e))"
proof (induction "is" arbitrary: cs)
  case Nil
  then show ?case by simp
next
  case (Cons i "is")
  from Cons.prems have i: "i < nat sz * nat sz" "i < length s"
    and rest: "\<forall>i\<in>set is. i < nat sz * nat sz \<and> i < length s" by simp_all
  note step = parse_cells_step[OF sz Cons.prems(1) i, of "is", folded put_char_def]
  show ?case
  proof (cases "legal_char sz (s ! i)")
    case False
    then show ?thesis unfolding step by simp
  next
    case True
    have sq': "square (nat sz) (put_char s (nat sz) cs i)"
      unfolding put_char_def by (rule square_upd[OF Cons.prems(1)])
    from Cons.IH[OF sq' rest] True show ?thesis
      unfolding step by simp
  qed
qed

lemma index_unique:
  fixes n r c i :: nat
  assumes "c < n"
  shows "(r = i div n \<and> c = i mod n) = (i = r * n + c)"
  using assms by (auto simp: div_mult_mod_eq)

lemma foldl_put_char:
  assumes n: "0 < n"
  shows "square n cs \<Longrightarrow> r < n \<Longrightarrow> c < n \<Longrightarrow>
         square n (foldl (put_char s n) cs is) \<and>
         foldl (put_char s n) cs is ! r ! c =
           (if r * n + c \<in> set is then decode_char (s ! (r * n + c)) else cs ! r ! c)"
proof (induction "is" arbitrary: cs)
  case Nil
  then show ?case by simp
next
  case (Cons i "is")
  let ?cs1 = "put_char s n cs i"
  have sq1: "square n ?cs1" unfolding put_char_def by (rule square_upd[OF Cons.prems(1)])
  note IH = Cons.IH[OF sq1 Cons.prems(2,3)]
  have v: "?cs1 ! r ! c = (if i = r * n + c then decode_char (s ! i) else cs ! r ! c)"
  proof (cases "i div n < n")
    case True
    have "i mod n < n" using n by simp
    from upd_nth[OF Cons.prems(1) True this Cons.prems(2,3)] index_unique[OF Cons.prems(3), of r i]
    show ?thesis by (simp add: put_char_def)
  next
    case False
    then have "i div n \<noteq> r" using Cons.prems(2) by auto
    moreover from this index_unique[OF Cons.prems(3), of r i] have "i \<noteq> r * n + c" by auto
    moreover have "length cs = n" using Cons.prems(1) by (simp add: square_def)
    ultimately show ?thesis using False by (simp add: put_char_def upd_def list_update_beyond)
  qed
  from IH v show ?case by auto
qed

lemma decode_cells_square: "square n (decode_cells s n)"
  by (auto simp: square_def decode_cells_def)

lemma decode_cells_nth: "r < n \<Longrightarrow> c < n \<Longrightarrow> decode_cells s n ! r ! c = decode_char (s ! (r * n + c))"
  by (simp add: decode_cells_def)

lemma index_bound:
  fixes n r c :: nat
  assumes "r < n" "c < n"
  shows "r * n + c < n * n"
proof -
  from assms(1) have "Suc r \<le> n" by simp
  then have "Suc r * n \<le> n * n" by (rule mult_le_mono1)
  with assms(2) show ?thesis by simp
qed

lemma foldl_put_char_all:
  assumes n: "0 < n" and sq: "square n cs"
  shows "foldl (put_char s n) cs [0..<n * n] = decode_cells s n"
proof (rule square_eqI[where n = n])
  show "square n (foldl (put_char s n) cs [0..<n * n])"
    using foldl_put_char[OF n sq, of 0 0 s "[0..<n * n]"] n by simp
  show "square n (decode_cells s n)" by (rule decode_cells_square)
next
  fix r c assume r: "r < n" and c: "c < n"
  from foldl_put_char[OF n sq r c, of s "[0..<n * n]"] index_bound[OF r c]
  show "foldl (put_char s n) cs [0..<n * n] ! r ! c = decode_cells s n ! r ! c"
    by (simp add: decode_cells_nth[OF r c])
qed

lemma FromStringN_dims_mismatch:
  "sz \<noteq> int64 (boxRows * boxCols) \<Longrightarrow> FromStringN s sz boxRows boxCols = Some (Inl ErrInvalidDims)"
  by (simp add: FromStringN_def)

lemma FromStringN_spec:
  assumes br: "0 < boxRows" and bc: "0 < boxCols" and sz: "sz = boxRows * boxCols"
    and mx: "sz \<le> MaxGridSize"
  shows "if length s = nat sz * nat sz \<and> (\<forall>ch\<in>set s. legal_char sz ch) \<and>
            Grid_Validate (decode_grid s sz boxRows boxCols) = Some (Inr ())
         then FromStringN s sz boxRows boxCols = Some (Inr (decode_grid s sz boxRows boxCols))
         else \<exists>e. FromStringN s sz boxRows boxCols = Some (Inl e)"
proof -
  let ?n = "nat sz"
  let ?g0 = "\<lparr>Size = sz, BoxRows = boxRows, BoxCols = boxCols, Cells = replicate ?n (replicate ?n 0)\<rparr>"
  have pos: "0 < sz" using br bc sz by simp
  have d: "wf_dims ?g0" using br bc sz mx by (simp add: wf_dims_def)
  have ng: "NewGrid sz boxRows boxCols = Inr ?g0" using NewGrid_wf[OF d] by simp
  have i1: "int64 (boxRows * boxCols) = sz" using pos mx sz by (simp add: int64_small MaxGridSize_def)
  have "sz * sz \<le> 25 * 25" using pos mx by (intro mult_mono) (simp_all add: MaxGridSize_def)
  then have i2: "int64 (sz * sz) = sz * sz" using pos by (simp add: int64_def)
  have nn: "int (?n * ?n) = sz * sz" using pos by simp
  have sq0: "square ?n (replicate ?n (replicate ?n 0))" by (simp add: square_def)
  show ?thesis
  proof (cases "length s = ?n * ?n")
    case False
    then have "int (length s) \<noteq> sz * sz" using nn by (metis of_nat_eq_iff)
    then show ?thesis using False by (simp add: FromStringN_def i1 i2 Let_def)
  next
    case len: True
    then have len': "int (length s) = sz * sz" using nn by simp
    have idx: "\<forall>i\<in>set [0..<?n * ?n]. i < ?n * ?n \<and> i < length s" using len by simp
    have legal_iff: "(\<forall>i\<in>set [0..<?n * ?n]. legal_char sz (s ! i)) = (\<forall>ch\<in>set s. legal_char sz ch)"
    proof
      assume a: "\<forall>i\<in>set [0..<?n * ?n]. legal_char sz (s ! i)"
      show "\<forall>ch\<in>set s. legal_char sz ch"
      proof
        fix ch assume "ch \<in> set s"
        then obtain i where "i < length s" "s ! i = ch" by (auto simp: in_set_conv_nth)
        with a len show "legal_char sz ch" by auto
      qed
    next
      assume a: "\<forall>ch\<in>set s. legal_char sz ch"
      show "\<forall>i\<in>set [0..<?n * ?n]. legal_char sz (s ! i)"
      proof
        fix i assume "i \<in> set [0..<?n * ?n]"
        with len have "s ! i \<in> set s" by simp
        with a show "legal_char sz (s ! i)" by simp
      qed
    qed
    have nat_eq: "nat (sz * sz) = ?n * ?n" using pos by (simp add: nat_mult_distrib)
    note pc = parse_cells_all[OF pos sq0 idx, unfolded legal_iff]
    have unfold: "FromStringN s sz boxRows boxCols =
        (case parse_cells s sz [0..<?n * ?n] (replicate ?n (replicate ?n 0)) of
             None \<Rightarrow> None
           | Some (Inl e) \<Rightarrow> Some (Inl e)
           | Some (Inr cs) \<Rightarrow>
               (case Grid_Validate (?g0\<lparr>Cells := cs\<rparr>) of
                  None \<Rightarrow> None
                | Some (Inl e) \<Rightarrow> Some (Inl e)
                | Some (Inr u) \<Rightarrow> Some (Inr (?g0\<lparr>Cells := cs\<rparr>))))"
      by (simp add: FromStringN_def i1 i2 len' ng Let_def nat_eq)
    show ?thesis
    proof (cases "\<forall>ch\<in>set s. legal_char sz ch")
      case False
      with pc obtain e where "parse_cells s sz [0..<?n * ?n] (replicate ?n (replicate ?n 0)) = Some (Inl e)"
        by auto
      with False show ?thesis unfolding unfold by simp
    next
      case True
      have n0: "0 < ?n" using pos by simp
      from pc True have p: "parse_cells s sz [0..<?n * ?n] (replicate ?n (replicate ?n 0)) =
          Some (Inr (decode_cells s ?n))"
        by (simp add: foldl_put_char_all[OF n0 sq0])
      have g: "?g0\<lparr>Cells := decode_cells s ?n\<rparr> = decode_grid s sz boxRows boxCols"
        by (simp add: decode_grid_def)
      have wfd: "wf_dims (decode_grid s sz boxRows boxCols)"
        using d by (simp add: wf_dims_def decode_grid_def)
      have sqd: "square (gsize (decode_grid s sz boxRows boxCols)) (Cells (decode_grid s sz boxRows boxCols))"
        by (simp add: decode_grid_def gsize_def decode_cells_square)
      have u2: "FromStringN s sz boxRows boxCols =
          (case Grid_Validate (decode_grid s sz boxRows boxCols) of
                  None \<Rightarrow> None
                | Some (Inl e) \<Rightarrow> Some (Inl e)
                | Some (Inr u) \<Rightarrow> Some (Inr (decode_grid s sz boxRows boxCols)))"
        unfolding unfold p g[symmetric] by simp
      show ?thesis
      proof (cases "valid_cells (decode_grid s sz boxRows boxCols) (Cells (decode_grid s sz boxRows boxCols))")
        case v: True
        with Grid_Validate_valid[OF wfd sqd] have "Grid_Validate (decode_grid s sz boxRows boxCols) = Some (Inr ())"
          by simp
        with True len show ?thesis unfolding u2 by simp
      next
        case False
        with Grid_Validate_valid[OF wfd sqd]
        have "Grid_Validate (decode_grid s sz boxRows boxCols) = Some (Inl ErrInvalidBoard)" by simp
        then show ?thesis unfolding u2 by simp
      qed
    qed
  qed
qed

lemma digit_table:
  "\<forall>v\<in>set [0..9].
     (v = 0 \<and> digit_byte v = CHR ''0'') \<or>
     (v \<noteq> 0 \<and> digit_byte v \<in> set ''123456789'' \<and> (of_char (digit_byte v) :: int) - 48 = v)"
  by code_simp

lemma digit_byte_cases:
  assumes "0 \<le> v" "v \<le> 9"
  shows "(v = 0 \<and> digit_byte v = CHR ''0'') \<or>
         (v \<noteq> 0 \<and> digit_byte v \<in> set ''123456789'' \<and> (of_char (digit_byte v) :: int) - 48 = v)"
proof -
  from assms have "v \<in> set [0..9]" by simp
  with digit_table show ?thesis by blast
qed

lemma decode_digit_byte: "0 \<le> v \<Longrightarrow> v \<le> 9 \<Longrightarrow> decode_char (digit_byte v) = v"
  using digit_byte_cases[of v] by (auto simp: decode_char_def)

lemma legal_digit_byte: "0 \<le> v \<Longrightarrow> v \<le> 9 \<Longrightarrow> v \<le> sz \<Longrightarrow> legal_char sz (digit_byte v)"
  using digit_byte_cases[of v] by (auto simp: legal_char_def)

lemma string_cells_eq:
  "square n cs \<Longrightarrow> \<forall>(r, c)\<in>set ps. r < n \<and> c < n \<Longrightarrow>
   string_cells cs ps = Some (map (\<lambda>(r, c). digit_byte (cs ! r ! c)) ps)"
proof (induction ps)
  case Nil
  then show ?case by simp
next
  case (Cons p ps)
  obtain r c where p: "p = (r, c)" by (cases p)
  with Cons.prems have rc: "r < n" "c < n" and rest: "\<forall>(r, c)\<in>set ps. r < n \<and> c < n" by auto
  from Cons.IH[OF Cons.prems(1) rest] square_cell[OF Cons.prems(1) rc] show ?case
    by (simp add: p)
qed

lemma Grid_String_eq:
  assumes sq: "square (gsize g) (Cells g)"
  shows "Grid_String g =
         Some (map (\<lambda>(r, c). digit_byte (Cells g ! r ! c)) (List.product [0..<gsize g] [0..<gsize g]))"
  unfolding Grid_String_def gsize_def[symmetric]
  by (rule string_cells_eq[OF sq]) simp

lemma product_upt_nth:
  assumes r: "r < n" and c: "c < n"
  shows "List.product [0..<n] [0..<n] ! (r * n + c) = (r, c)"
proof -
  have lt: "r * n + c < length [0..<n] * length [0..<n]" using index_bound[OF r c] by simp
  have "List.product [0..<n] [0..<n] ! (r * n + c) =
        ([0..<n] ! ((r * n + c) div n), [0..<n] ! ((r * n + c) mod n))"
    using List.product_nth[OF lt] by simp
  also have "\<dots> = (r, c)" using r c by simp
  finally show ?thesis .
qed

lemma Grid_roundtrip:
  assumes wf: "wf_grid g" and le9: "Size g \<le> 9" and v: "Grid_Validate g = Some (Inr ())"
  shows "\<exists>str. Grid_String g = Some str \<and>
           FromStringN str (Size g) (BoxRows g) (BoxCols g) = Some (Inr g)"
proof -
  let ?n = "gsize g" and ?cs = "Cells g"
  let ?str = "map (\<lambda>(r, c). digit_byte (?cs ! r ! c)) (List.product [0..<?n] [0..<?n])"
  from wf have d: "wf_dims g" and sq: "square ?n ?cs" by (simp_all add: wf_grid_def gsize_def)
  have n: "?n = nat (Size g)" by (simp add: gsize_def)
  from v Grid_Validate_ok_iff[OF wf] have vc: "valid_cells g ?cs" by simp
  have rng: "\<And>r c. r < ?n \<Longrightarrow> c < ?n \<Longrightarrow> 0 \<le> ?cs ! r ! c \<and> ?cs ! r ! c \<le> 9 \<and> ?cs ! r ! c \<le> Size g"
    using valid_cellsD(1,2)[OF vc] le9 by fastforce
  have str: "Grid_String g = Some ?str" by (rule Grid_String_eq[OF sq])
  have len: "length ?str = nat (Size g) * nat (Size g)" by (simp add: n)
  have nth: "\<And>r c. r < ?n \<Longrightarrow> c < ?n \<Longrightarrow> ?str ! (r * ?n + c) = digit_byte (?cs ! r ! c)"
  proof -
    fix r c assume r: "r < ?n" and c: "c < ?n"
    have "r * ?n + c < length (List.product [0..<?n] [0..<?n])" using index_bound[OF r c] by simp
    then have "?str ! (r * ?n + c) = (\<lambda>(r, c). digit_byte (?cs ! r ! c)) (List.product [0..<?n] [0..<?n] ! (r * ?n + c))"
      by (rule nth_map)
    then show "?str ! (r * ?n + c) = digit_byte (?cs ! r ! c)"
      by (simp add: product_upt_nth[OF r c])
  qed
  have legal: "\<forall>ch\<in>set ?str. legal_char (Size g) ch"
  proof
    fix ch assume "ch \<in> set ?str"
    then obtain r c where "r < ?n" "c < ?n" "ch = digit_byte (?cs ! r ! c)" by auto
    with rng[of r c] show "legal_char (Size g) ch" by (simp add: legal_digit_byte)
  qed
  have cells: "decode_cells ?str ?n = ?cs"
  proof (rule square_eqI[OF decode_cells_square sq])
    fix r c assume r: "r < ?n" and c: "c < ?n"
    from rng[OF r c] show "decode_cells ?str ?n ! r ! c = ?cs ! r ! c"
      by (simp add: decode_cells_nth[OF r c] nth[OF r c] decode_digit_byte)
  qed
  have dg: "decode_grid ?str (Size g) (BoxRows g) (BoxCols g) = g"
    using cells by (simp add: decode_grid_def n)
  from d have dims: "0 < BoxRows g" "0 < BoxCols g" "Size g = BoxRows g * BoxCols g" "Size g \<le> MaxGridSize"
    by (simp_all add: wf_dims_def)
  from FromStringN_spec[OF dims, of ?str] len legal v
  have "FromStringN ?str (Size g) (BoxRows g) (BoxCols g) = Some (Inr g)"
    unfolding dg by simp
  with str show ?thesis by blast
qed

section \<open>The generator\<close>

definition Grid_cluesFor :: "Grid \<Rightarrow> Difficulty \<Rightarrow> int" where
  "Grid_cluesFor g d =
     (let base = (case d of Easy \<Rightarrow> 40 | Hard \<Rightarrow> 26 | _ \<Rightarrow> 32) in
      if Size g = 9 then base
      else
        let cells = int64 (Size g * Size g) in
        max 8 (int64 (cells * base) sdiv 81))"

fun count_clues :: "int list list \<Rightarrow> (nat \<times> nat) list \<Rightarrow> int \<Rightarrow> int option" where
  "count_clues cs [] cnt = Some cnt"
| "count_clues cs ((r, c) # ps) cnt =
     (case cell cs r c of
        None \<Rightarrow> None
      | Some v \<Rightarrow> count_clues cs ps (if v \<noteq> 0 then cnt + 1 else cnt))"

definition Grid_countClues :: "Grid \<Rightarrow> Grid \<Rightarrow> int option" where
  "Grid_countClues g w =
     count_clues (Cells w) (List.product [0..<nat (Size g)] [0..<nat (Size g)]) 0"

fun fill_cells :: "int list list \<Rightarrow> int list \<Rightarrow> (nat \<times> nat) list \<Rightarrow> nat \<Rightarrow> int list list option" where
  "fill_cells cs vals [] idx = Some cs"
| "fill_cells cs vals ((r, c) # ps) idx =
     (if length vals \<le> idx then None
      else (case set_cell cs r c (vals ! idx + 1) of
              None \<Rightarrow> None
            | Some cs' \<Rightarrow> fill_cells cs' vals ps (Suc idx)))"

text \<open>\<^verbatim>\<open>rand.Perm(n)\<close> panics on a negative \<open>n\<close>.\<close>

definition Grid_fillBox :: "Grid \<Rightarrow> nat \<Rightarrow> nat \<Rightarrow> rng \<Rightarrow> (Grid \<times> rng) option" where
  "Grid_fillBox g br bc rnd =
     (if Size g < 0 then None
      else
        (case Perm (nat (Size g)) rnd of
           (vals, rnd') \<Rightarrow>
             (case fill_cells (Cells g) vals
                     (List.product [br..<br + nat (BoxRows g)] [bc..<bc + nat (BoxCols g)]) 0 of
                None \<Rightarrow> None
              | Some cs \<Rightarrow> Some (g\<lparr>Cells := cs\<rparr>, rnd'))))"

fun fill_boxes :: "Grid \<Rightarrow> nat list \<Rightarrow> rng \<Rightarrow> (Grid \<times> rng) option" where
  "fill_boxes g [] rnd = Some (g, rnd)"
| "fill_boxes g (i # is) rnd =
     (case Grid_fillBox g (nat (int i * BoxRows g)) (nat (int i * BoxCols g)) rnd of
        None \<Rightarrow> None
      | Some (g', rnd') \<Rightarrow> fill_boxes g' is rnd')"

definition Grid_fillDiagonalBoxes :: "Grid \<Rightarrow> rng \<Rightarrow> (Grid \<times> rng) option" where
  "Grid_fillDiagonalBoxes g rnd =
     (if BoxRows g = 0 \<or> BoxCols g = 0 then None
      else
        let nRowBoxes = Size g sdiv BoxRows g;
            nColBoxes = Size g sdiv BoxCols g;
            steps = (if nColBoxes < nRowBoxes then nColBoxes else nRowBoxes)
        in fill_boxes g [0..<nat steps] rnd)"

definition cell_int :: "int list list \<Rightarrow> int \<Rightarrow> int \<Rightarrow> int option" where
  "cell_int cs r c = (if r < 0 \<or> c < 0 then None else cell cs (nat r) (nat c))"

fun carve :: "Grid \<Rightarrow> int \<Rightarrow> int list \<Rightarrow> Grid \<Rightarrow> Grid option" where
  "carve g target [] puzzle = Some puzzle"
| "carve g target (idx # rest) puzzle =
     (case Grid_countClues g puzzle of
        None \<Rightarrow> None
      | Some cnt \<Rightarrow>
          if cnt \<le> target then Some puzzle
          else if Size g = 0 then None
          else
            let r = idx sdiv Size g; c = idx smod Size g in
            (case cell_int (Cells puzzle) r c of
               None \<Rightarrow> None
             | Some old \<Rightarrow>
                 if old = 0 then carve g target rest puzzle
                 else
                   (case set_cell_int (Cells puzzle) r c 0 of
                      None \<Rightarrow> None
                    | Some cs \<Rightarrow>
                        (case Grid_hasUniqueSolution g (puzzle\<lparr>Cells := cs\<rparr>) 2 of
                           None \<Rightarrow> None
                         | Some True \<Rightarrow> carve g target rest (puzzle\<lparr>Cells := cs\<rparr>)
                         | Some False \<Rightarrow>
                             (case set_cell_int cs r c old of
                                None \<Rightarrow> None
                              | Some cs' \<Rightarrow> carve g target rest (puzzle\<lparr>Cells := cs'\<rparr>))))))"

fun gen_tries :: "Grid \<Rightarrow> Difficulty \<Rightarrow> nat \<Rightarrow> error option \<Rightarrow> rng \<Rightarrow> ((error + Grid) \<times> rng) option" where
  "gen_tries g d 0 lastErr rnd =
     Some (Inl (case lastErr of None \<Rightarrow> ErrGenerationFailed | Some e \<Rightarrow> e), rnd)"
| "gen_tries g d (Suc k) lastErr rnd =
     (case Grid_Clone g of
        None \<Rightarrow> None
      | Some solved0 \<Rightarrow>
          (case Grid_fillDiagonalBoxes solved0 rnd of
             None \<Rightarrow> None
           | Some (solved1, rnd1) \<Rightarrow>
               (case Grid_backtrack g solved1 rnd1 of
                  None \<Rightarrow> None
                | Some (False, solved, rnd2) \<Rightarrow> gen_tries g d k (Some ErrBuildSolved) rnd2
                | Some (True, solved, rnd2) \<Rightarrow>
                    let target = Grid_cluesFor g d in
                    (case Grid_Clone solved of
                       None \<Rightarrow> None
                     | Some puzzle0 \<Rightarrow>
                         if int64 (Size g * Size g) < 0 then None
                         else
                           (case Perm (nat (int64 (Size g * Size g))) rnd2 of
                              (rmOrder, rnd3) \<Rightarrow>
                                (case carve g target rmOrder puzzle0 of
                                   None \<Rightarrow> None
                                 | Some puzzle \<Rightarrow>
                                     (case Grid_hasUniqueSolution g puzzle 2 of
                                        None \<Rightarrow> None
                                      | Some True \<Rightarrow> Some (Inr puzzle, rnd3)
                                      | Some False \<Rightarrow> gen_tries g d k (Some ErrUniqueness) rnd3)))))))"


subsection \<open>Filling the diagonal boxes\<close>

lemma fill_cells_spec:
  "square n cs \<Longrightarrow> distinct ps \<Longrightarrow> \<forall>(r, c)\<in>set ps. r < n \<and> c < n \<Longrightarrow>
   idx + length ps \<le> length vals \<Longrightarrow>
   \<exists>cs'. fill_cells cs vals ps idx = Some cs' \<and> square n cs' \<and>
         (\<forall>k<length ps. cs' ! fst (ps ! k) ! snd (ps ! k) = vals ! (idx + k) + 1) \<and>
         (\<forall>r<n. \<forall>c<n. (r, c) \<notin> set ps \<longrightarrow> cs' ! r ! c = cs ! r ! c)"
proof (induction ps arbitrary: cs idx)
  case Nil
  then show ?case by simp
next
  case (Cons p ps)
  obtain r c where p: "p = (r, c)" by (cases p)
  from Cons.prems p have rc: "r < n" "c < n" and nin: "(r, c) \<notin> set ps" and d: "distinct ps"
    and rest: "\<forall>(r, c)\<in>set ps. r < n \<and> c < n" and len: "Suc idx + length ps \<le> length vals"
    and idx: "\<not> length vals \<le> idx"
    by auto
  let ?cs1 = "upd cs r c (vals ! idx + 1)"
  have sc: "set_cell cs r c (vals ! idx + 1) = Some ?cs1"
    using rc Cons.prems(1) square_nth[OF Cons.prems(1) rc(1)] by (simp add: set_cell_Some square_def)
  have sq1: "square n ?cs1" by (rule square_upd[OF Cons.prems(1)])
  from Cons.IH[OF sq1 d rest len] obtain cs' where
    f: "fill_cells ?cs1 vals ps (Suc idx) = Some cs'" and sq': "square n cs'"
    and new: "\<forall>k<length ps. cs' ! fst (ps ! k) ! snd (ps ! k) = vals ! (Suc idx + k) + 1"
    and old: "\<forall>r'<n. \<forall>c'<n. (r', c') \<notin> set ps \<longrightarrow> cs' ! r' ! c' = ?cs1 ! r' ! c'"
    by blast
  have here: "cs' ! r ! c = vals ! idx + 1"
    using old rc nin by (simp add: upd_nth[OF Cons.prems(1) rc rc])
  have "fill_cells cs vals (p # ps) idx = Some cs'" using f sc idx by (simp add: p)
  moreover have "\<forall>k<length (p # ps). cs' ! fst ((p # ps) ! k) ! snd ((p # ps) ! k) = vals ! (idx + k) + 1"
  proof (intro allI impI)
    fix k assume k: "k < length (p # ps)"
    show "cs' ! fst ((p # ps) ! k) ! snd ((p # ps) ! k) = vals ! (idx + k) + 1"
    proof (cases k)
      case 0
      with here show ?thesis by (simp add: p)
    next
      case (Suc j)
      with k new show ?thesis by simp
    qed
  qed
  moreover have "\<forall>r'<n. \<forall>c'<n. (r', c') \<notin> set (p # ps) \<longrightarrow> cs' ! r' ! c' = cs ! r' ! c'"
  proof (intro allI impI)
    fix r' c' assume r': "r' < n" and c': "c' < n" and ni: "(r', c') \<notin> set (p # ps)"
    then have "(r', c') \<notin> set ps" "\<not> (r' = r \<and> c' = c)" by (auto simp: p)
    with old r' c' show "cs' ! r' ! c' = cs ! r' ! c'"
      by (auto simp: upd_nth[OF Cons.prems(1) rc r' c'])
  qed
  ultimately show ?case using sq' by blast
qed

lemma Perm_props:
  assumes "Perm n rnd = (vals, rnd')"
  shows "length vals = n" "distinct vals" "\<forall>v\<in>set vals. 0 \<le> v \<and> v < int n"
proof -
  from assms have m: "mset vals = mset (map int [0..<n])" unfolding Perm_def by (rule Shuffle_mset)
  then have "length vals = length (map int [0..<n])" by (rule mset_eq_length)
  then show "length vals = n" by simp
  have "distinct (map int [0..<n])" by (simp add: distinct_map)
  with m show "distinct vals" by (metis mset_eq_imp_distinct_iff)
  from m have "set vals = set (map int [0..<n])" by (rule mset_eq_setD)
  then show "\<forall>v\<in>set vals. 0 \<le> v \<and> v < int n" by auto
qed

definition diag_inv :: "Grid \<Rightarrow> nat \<Rightarrow> int list list \<Rightarrow> bool" where
  "diag_inv g i cs =
     (square (gsize g) cs \<and> valid_cells g cs \<and>
      (\<forall>r<gsize g. \<forall>c<gsize g.
         i * nat (BoxRows g) \<le> r \<or> i * nat (BoxCols g) \<le> c \<longrightarrow> cs ! r ! c = 0))"

lemma diag_inv_zero:
  assumes "diag_inv g i cs" "r < gsize g" "c < gsize g"
    and "i * nat (BoxRows g) \<le> r \<or> i * nat (BoxCols g) \<le> c"
  shows "cs ! r ! c = 0"
proof -
  from assms(1) have "\<forall>r<gsize g. \<forall>c<gsize g.
         i * nat (BoxRows g) \<le> r \<or> i * nat (BoxCols g) \<le> c \<longrightarrow> cs ! r ! c = 0"
    unfolding diag_inv_def by (elim conjE)
  from this[rule_format, OF assms(2,3,4)] show ?thesis .
qed

lemma in_block:
  fixes r i R :: nat
  assumes "0 < R" "i * R \<le> r" "r < i * R + R"
  shows "r div R = i"
  using div_eq_block[OF assms(1), of r "i * R"] assms by simp

lemma fill_box_valid:
  assumes d: "wf_dims g" and inv: "diag_inv g i cs"
    and fitR: "i * nat (BoxRows g) + nat (BoxRows g) \<le> gsize g"
    and fitC: "i * nat (BoxCols g) + nat (BoxCols g) \<le> gsize g"
    and sq': "square (gsize g) cs'"
    and new: "\<And>p q. p \<in> set ps \<Longrightarrow> q \<in> set ps \<Longrightarrow> p \<noteq> q \<Longrightarrow>
                cs' ! fst p ! snd p \<noteq> cs' ! fst q ! snd q"
    and newr: "\<And>p. p \<in> set ps \<Longrightarrow> 1 \<le> cs' ! fst p ! snd p \<and> cs' ! fst p ! snd p \<le> Size g"
    and old: "\<And>r c. r < gsize g \<Longrightarrow> c < gsize g \<Longrightarrow> (r, c) \<notin> set ps \<Longrightarrow> cs' ! r ! c = cs ! r ! c"
    and ps: "ps = List.product [i * nat (BoxRows g)..<i * nat (BoxRows g) + nat (BoxRows g)]
                              [i * nat (BoxCols g)..<i * nat (BoxCols g) + nat (BoxCols g)]"
  shows "diag_inv g (Suc i) cs'"
proof -
  let ?n = "gsize g" and ?R = "nat (BoxRows g)" and ?C = "nat (BoxCols g)"
  note dn = wf_dims_nat[OF d]
  from inv have sq: "square ?n cs" and v: "valid_cells g cs"
    unfolding diag_inv_def by simp_all
  note z = diag_inv_zero[OF inv]
  have mem: "\<And>r c. (r, c) \<in> set ps \<longleftrightarrow> (i * ?R \<le> r \<and> r < i * ?R + ?R) \<and> (i * ?C \<le> c \<and> c < i * ?C + ?C)"
    unfolding ps by auto
  have valid: "valid_cells g cs'"
    unfolding valid_cells_def
  proof (intro conjI allI impI)
    fix r c assume r: "r < ?n" and c: "c < ?n"
    show "0 \<le> cs' ! r ! c"
    proof (cases "(r, c) \<in> set ps")
      case True
      from newr[OF True] show ?thesis by simp
    next
      case False
      from old[OF r c False] valid_cellsD(1)[OF v r c] show ?thesis by simp
    qed
    show "cs' ! r ! c \<le> Size g"
    proof (cases "(r, c) \<in> set ps")
      case True
      from newr[OF True] show ?thesis by simp
    next
      case False
      from old[OF r c False] valid_cellsD(2)[OF v r c] show ?thesis by simp
    qed
  next
    fix r c r' c'
    assume r: "r < ?n" and c: "c < ?n" and nz: "cs' ! r ! c \<noteq> 0" and r': "r' < ?n" and c': "c' < ?n"
      and h: "(r', c') \<noteq> (r, c) \<and> same_unit g (r, c) (r', c')"
    then have ne: "(r', c') \<noteq> (r, c)" and su: "same_unit g (r, c) (r', c')" by simp_all
    show "cs' ! r' ! c' \<noteq> cs' ! r ! c"
    proof (cases "(r, c) \<in> set ps")
      case p: True
      then have pr: "i * ?R \<le> r" "r < i * ?R + ?R" "i * ?C \<le> c" "c < i * ?C + ?C"
        using mem by blast+
      show ?thesis
      proof (cases "(r', c') \<in> set ps")
        case True
        from new[OF True p ne] show ?thesis by simp
      next
        case False
        have "i * ?R \<le> r' \<or> i * ?C \<le> c'"
        proof -
          from su consider "r = r'" | "c = c'" | "r div ?R = r' div ?R"
            unfolding same_unit_def by auto
          then show ?thesis
          proof cases
            case 1 with pr show ?thesis by simp
          next
            case 2 with pr show ?thesis by simp
          next
            case 3
            from in_block[OF dn(1) pr(1,2)] 3 have "r' div ?R = i" by simp
            then have "i * ?R \<le> r'" by (metis div_times_less_eq_dividend)
            then show ?thesis by simp
          qed
        qed
        from z[OF r' c' this] old[OF r' c' False] have "cs' ! r' ! c' = 0" by simp
        moreover from newr[OF p] have "cs' ! r ! c \<noteq> 0" by simp
        ultimately show ?thesis by simp
      qed
    next
      case np: False
      from old[OF r c np] nz have nz0: "cs ! r ! c \<noteq> 0" by simp
      with z[OF r c] have "\<not> (i * ?R \<le> r \<or> i * ?C \<le> c)" by blast
      then have lt: "r < i * ?R" "c < i * ?C" by simp_all
      show ?thesis
      proof (cases "(r', c') \<in> set ps")
        case False
        from valid_cellsD(3)[OF v r c nz0 r' c' ne su] old[OF r c np] old[OF r' c' False]
        show ?thesis by simp
      next
        case True
        then have qr: "i * ?R \<le> r'" "r' < i * ?R + ?R" "i * ?C \<le> c'" "c' < i * ?C + ?C"
          using mem by blast+
        from lt(1) have "r div ?R < i" by (simp add: less_mult_imp_div_less)
        with in_block[OF dn(1) qr(1,2)] have "r div ?R \<noteq> r' div ?R" by simp
        moreover from lt qr have "r \<noteq> r'" "c \<noteq> c'" by auto
        ultimately have "\<not> same_unit g (r, c) (r', c')" by (simp add: same_unit_def)
        with su show ?thesis by simp
      qed
    qed
  qed
  have zero: "\<forall>r<?n. \<forall>c<?n. Suc i * ?R \<le> r \<or> Suc i * ?C \<le> c \<longrightarrow> cs' ! r ! c = 0"
  proof (intro allI impI)
    fix r c assume r: "r < ?n" and c: "c < ?n" and h: "Suc i * ?R \<le> r \<or> Suc i * ?C \<le> c"
    then have "(r, c) \<notin> set ps" using mem by auto
    moreover from h have "i * ?R \<le> r \<or> i * ?C \<le> c" by auto
    ultimately show "cs' ! r ! c = 0" using old[OF r c] z[OF r c] by simp
  qed
  from sq' valid zero show ?thesis unfolding diag_inv_def by blast
qed

definition same_dims :: "Grid \<Rightarrow> Grid \<Rightarrow> bool" where
  "same_dims g w = (Size w = Size g \<and> BoxRows w = BoxRows g \<and> BoxCols w = BoxCols g)"

lemma same_dims_refl: "same_dims g g"
  by (simp add: same_dims_def)

lemma same_dims_Cells: "same_dims g w \<Longrightarrow> same_dims g (w\<lparr>Cells := cs\<rparr>)"
  by (simp add: same_dims_def)

lemma Grid_fillBox_inv:
  assumes d: "wf_dims g" and sd: "same_dims g w" and inv: "diag_inv g i (Cells w)"
    and iR: "i < nat (BoxRows g)" and iC: "i < nat (BoxCols g)"
  shows "\<exists>cs' rnd'. Grid_fillBox w (i * nat (BoxRows g)) (i * nat (BoxCols g)) rnd = Some (w\<lparr>Cells := cs'\<rparr>, rnd') \<and>
           diag_inv g (Suc i) cs'"
proof -
  let ?n = "gsize g" and ?R = "nat (BoxRows g)" and ?C = "nat (BoxCols g)"
  let ?ps = "List.product [i * ?R..<i * ?R + ?R] [i * ?C..<i * ?C + ?C]"
  note dn = wf_dims_nat[OF d]
  obtain vals rnd' where P: "Perm ?n rnd = (vals, rnd')" by (cases "Perm ?n rnd")
  note pp = Perm_props[OF P]
  from inv have sq: "square ?n (Cells w)" by (simp add: diag_inv_def)
  have fitR: "i * ?R + ?R \<le> ?n"
  proof -
    from iC have "Suc i \<le> ?C" by simp
    then have "Suc i * ?R \<le> ?C * ?R" by (rule mult_le_mono1)
    then show ?thesis using dn(3) by (simp add: mult.commute)
  qed
  have fitC: "i * ?C + ?C \<le> ?n"
  proof -
    from iR have "Suc i \<le> ?R" by simp
    then have "Suc i * ?C \<le> ?R * ?C" by (rule mult_le_mono1)
    then show ?thesis using dn(3) by simp
  qed
  have dps: "distinct ?ps" by (simp add: distinct_product)
  have rps: "\<forall>(r, c)\<in>set ?ps. r < ?n \<and> c < ?n" using fitR fitC by auto
  have lps: "length ?ps = ?n" using dn(3) by simp
  have "0 + length ?ps \<le> length vals" using lps pp(1) by simp
  from fill_cells_spec[OF sq dps rps this] obtain cs' where
    f: "fill_cells (Cells w) vals ?ps 0 = Some cs'" and sq': "square ?n cs'"
    and new: "\<forall>k<length ?ps. cs' ! fst (?ps ! k) ! snd (?ps ! k) = vals ! (0 + k) + 1"
    and old: "\<forall>r<?n. \<forall>c<?n. (r, c) \<notin> set ?ps \<longrightarrow> cs' ! r ! c = Cells w ! r ! c"
    by blast
  have val: "\<And>p. p \<in> set ?ps \<Longrightarrow> \<exists>k<?n. p = ?ps ! k \<and> cs' ! fst p ! snd p = vals ! k + 1"
  proof -
    fix p assume "p \<in> set ?ps"
    then obtain k where k: "k < length ?ps" "?ps ! k = p" unfolding in_set_conv_nth by blast
    with new have "cs' ! fst p ! snd p = vals ! k + 1" by auto
    with k lps show "\<exists>k<?n. p = ?ps ! k \<and> cs' ! fst p ! snd p = vals ! k + 1" by auto
  qed
  have "diag_inv g (Suc i) cs'"
  proof (rule fill_box_valid[OF d inv fitR fitC sq' _ _ _ refl])
    fix p q assume p: "p \<in> set ?ps" and q: "q \<in> set ?ps" and ne: "p \<noteq> q"
    from val[OF p] obtain k where k: "k < ?n" "p = ?ps ! k" "cs' ! fst p ! snd p = vals ! k + 1" by blast
    from val[OF q] obtain j where j: "j < ?n" "q = ?ps ! j" "cs' ! fst q ! snd q = vals ! j + 1" by blast
    from ne k(2) j(2) have "k \<noteq> j" by auto
    with pp(1,2) k(1) j(1) have "vals ! k \<noteq> vals ! j" by (simp add: nth_eq_iff_index_eq)
    with k(3) j(3) show "cs' ! fst p ! snd p \<noteq> cs' ! fst q ! snd q" by simp
  next
    fix p assume p: "p \<in> set ?ps"
    from val[OF p] obtain k where k: "k < ?n" "cs' ! fst p ! snd p = vals ! k + 1" by blast
    from k(1) pp(1) have "vals ! k \<in> set vals" by simp
    with pp(3) have "0 \<le> vals ! k \<and> vals ! k < int ?n" by blast
    moreover have "int ?n = Size g" using wf_dims_pos[OF d] by (simp add: gsize_def)
    ultimately show "1 \<le> cs' ! fst p ! snd p \<and> cs' ! fst p ! snd p \<le> Size g" using k(2) by simp
  next
    fix r c assume "r < ?n" "c < ?n" "(r, c) \<notin> set ?ps"
    with old show "cs' ! r ! c = Cells w ! r ! c" by blast
  qed
  moreover have "Grid_fillBox w (i * ?R) (i * ?C) rnd = Some (w\<lparr>Cells := cs'\<rparr>, rnd')"
    using sd P f wf_dims_pos[OF d] by (simp add: Grid_fillBox_def same_dims_def gsize_def)
  ultimately show ?thesis by blast
qed

lemma fill_boxes_inv:
  assumes d: "wf_dims g" and mR: "m \<le> nat (BoxRows g)" and mC: "m \<le> nat (BoxCols g)"
  shows "i \<le> m \<Longrightarrow> same_dims g w \<Longrightarrow> diag_inv g i (Cells w) \<Longrightarrow>
         \<exists>cs' rnd'. fill_boxes w [i..<m] rnd = Some (w\<lparr>Cells := cs'\<rparr>, rnd') \<and> diag_inv g m cs'"
proof (induction "m - i" arbitrary: i w rnd)
  case 0
  then have "i = m" by simp
  with "0.prems"(3) have "fill_boxes w [i..<m] rnd = Some (w\<lparr>Cells := Cells w\<rparr>, rnd) \<and> diag_inv g m (Cells w)"
    by simp
  then show ?case by blast
next
  case (Suc k)
  then have lt: "i < m" by simp
  with mR mC have iR: "i < nat (BoxRows g)" and iC: "i < nat (BoxCols g)" by simp_all
  from Suc.prems(2) have dims: "BoxRows w = BoxRows g" "BoxCols w = BoxCols g" by (simp_all add: same_dims_def)
  have br: "nat (int i * BoxRows g) = i * nat (BoxRows g)" "nat (int i * BoxCols g) = i * nat (BoxCols g)"
    using wf_dims_nat(1,2)[OF d] by (simp_all add: nat_mult_distrib)
  from Grid_fillBox_inv[OF d Suc.prems(2,3) iR iC, of rnd] obtain cs1 rnd1 where
    fb: "Grid_fillBox w (i * nat (BoxRows g)) (i * nat (BoxCols g)) rnd = Some (w\<lparr>Cells := cs1\<rparr>, rnd1)"
    and inv1: "diag_inv g (Suc i) cs1" by blast
  have k: "k = m - Suc i" using Suc.hyps(2) by simp
  have le: "Suc i \<le> m" using lt by simp
  from Suc.hyps(1)[OF k le same_dims_Cells[OF Suc.prems(2)], of cs1 rnd1] inv1
  obtain cs' rnd' where rest: "fill_boxes (w\<lparr>Cells := cs1\<rparr>) [Suc i..<m] rnd1 = Some (w\<lparr>Cells := cs'\<rparr>, rnd')"
    and inv': "diag_inv g m cs'" by auto
  have "fill_boxes w [i..<m] rnd = Some (w\<lparr>Cells := cs'\<rparr>, rnd')"
    using lt fb rest by (simp add: upt_conv_Cons dims br)
  with inv' show ?case by blast
qed

lemma valid_cells_zero:
  "\<forall>r<gsize g. \<forall>c<gsize g. cs ! r ! c = 0 \<Longrightarrow> 0 \<le> Size g \<Longrightarrow> valid_cells g cs"
  by (simp add: valid_cells_def)

lemma Grid_fillDiagonalBoxes_valid:
  assumes d: "wf_dims g" and e: "Cells g = replicate (gsize g) (replicate (gsize g) 0)"
  shows "\<exists>cs' rnd'. Grid_fillDiagonalBoxes g rnd = Some (g\<lparr>Cells := cs'\<rparr>, rnd') \<and>
           square (gsize g) cs' \<and> valid_cells g cs'"
proof -
  let ?R = "nat (BoxRows g)" and ?C = "nat (BoxCols g)"
  note dn = wf_dims_nat[OF d]
  from d have pos: "0 < BoxRows g" "0 < BoxCols g" "0 < Size g" and sz: "Size g = BoxRows g * BoxCols g"
    by (simp_all add: wf_dims_def wf_dims_pos)
  have q1: "Size g sdiv BoxRows g = BoxCols g" using pos sz by (simp add: sdiv_nonneg)
  have q2: "Size g sdiv BoxCols g = BoxRows g" using pos sz by (simp add: sdiv_nonneg)
  let ?m = "nat (if BoxRows g < BoxCols g then BoxRows g else BoxCols g)"
  have fd: "Grid_fillDiagonalBoxes g rnd = fill_boxes g [0..<?m] rnd"
    using pos by (simp add: Grid_fillDiagonalBoxes_def q1 q2 Let_def)
  have m: "?m \<le> ?R" "?m \<le> ?C" by (auto intro: nat_mono)
  have sq: "square (gsize g) (Cells g)" by (subst e) (simp add: square_def)
  have z: "\<forall>r<gsize g. \<forall>c<gsize g. Cells g ! r ! c = 0" by (subst e) simp
  have inv0: "diag_inv g 0 (Cells g)"
    unfolding diag_inv_def using sq valid_cells_zero[OF z] z pos by simp
  from fill_boxes_inv[OF d m _ same_dims_refl inv0, of rnd] obtain cs' rnd' where
    "fill_boxes g [0..<?m] rnd = Some (g\<lparr>Cells := cs'\<rparr>, rnd')" "diag_inv g ?m cs'" by auto
  then show ?thesis unfolding fd diag_inv_def by blast
qed

subsection \<open>Carving and the attempt loop\<close>

definition good :: "Grid \<Rightarrow> Grid \<Rightarrow> bool" where
  "good g p = (same_dims g p \<and> square (gsize g) (Cells p) \<and> valid_cells g (Cells p))"

lemma valid_upd_zero:
  assumes v: "valid_cells g cs" and sq: "square (gsize g) cs" and r: "r < gsize g" and c: "c < gsize g"
  shows "valid_cells g (upd cs r c 0)"
  unfolding valid_cells_def
proof (intro conjI allI impI)
  fix a b assume a: "a < gsize g" and b: "b < gsize g"
  from valid_cellsD(1,2)[OF v a b] wf_dims_pos
  show "0 \<le> upd cs r c 0 ! a ! b" by (simp add: upd_nth[OF sq r c a b])
  from valid_cellsD(1,2)[OF v a b] valid_cellsD(1,2)[OF v r c]
  show "upd cs r c 0 ! a ! b \<le> Size g" by (auto simp: upd_nth[OF sq r c a b])
next
  fix a b a' b'
  assume a: "a < gsize g" and b: "b < gsize g" and nz: "upd cs r c 0 ! a ! b \<noteq> 0"
    and a': "a' < gsize g" and b': "b' < gsize g"
    and h: "(a', b') \<noteq> (a, b) \<and> same_unit g (a, b) (a', b')"
  from nz have ne: "\<not> (a = r \<and> b = c)" and nz0: "cs ! a ! b \<noteq> 0"
    by (auto simp: upd_nth[OF sq r c a b] split: if_splits)
  from ne have eq: "upd cs r c 0 ! a ! b = cs ! a ! b" by (auto simp: upd_nth[OF sq r c a b])
  show "upd cs r c 0 ! a' ! b' \<noteq> upd cs r c 0 ! a ! b"
  proof (cases "a' = r \<and> b' = c")
    case True
    then have "upd cs r c 0 ! a' ! b' = 0" using upd_nth[OF sq r c a' b'] a' b' by simp
    with eq nz0 show ?thesis by simp
  next
    case False
    then have "upd cs r c 0 ! a' ! b' = cs ! a' ! b'" by (auto simp: upd_nth[OF sq r c a' b'])
    with eq valid_cellsD(3)[OF v a b nz0 a' b'] h show ?thesis by simp
  qed
qed

lemma count_clues_total:
  "square n cs \<Longrightarrow> \<forall>(r, c)\<in>set ps. r < n \<and> c < n \<Longrightarrow> \<exists>k. count_clues cs ps cnt = Some k"
proof (induction ps arbitrary: cnt)
  case Nil
  then show ?case by simp
next
  case (Cons p ps)
  obtain r c where p: "p = (r, c)" by (cases p)
  with Cons.prems have rc: "r < n" "c < n" and rest: "\<forall>(r, c)\<in>set ps. r < n \<and> c < n" by auto
  from Cons.IH[OF Cons.prems(1) rest] square_cell[OF Cons.prems(1) rc] show ?case
    by (simp add: p)
qed

lemma Grid_countClues_total:
  "square (gsize g) (Cells w) \<Longrightarrow> \<exists>k. Grid_countClues g w = Some k"
  unfolding Grid_countClues_def gsize_def[symmetric]
  by (rule count_clues_total) auto

lemma good_wf_grid: "wf_dims g \<Longrightarrow> good g p \<Longrightarrow> wf_grid p"
  by (simp add: good_def same_dims_def wf_grid_def wf_dims_def gsize_def)

lemma Grid_hasUniqueSolution_total:
  assumes "wf_dims g" "good g p"
  shows "\<exists>b. Grid_hasUniqueSolution g p 2 = Some b"
proof -
  from assms have "wf_grid p" "Size p = Size g" by (simp_all add: good_wf_grid good_def same_dims_def)
  from Grid_hasUniqueSolution_spec(1)[OF assms(1) this] show ?thesis by blast
qed

lemma carve_step:
  assumes d: "wf_dims g" and gp: "good g p" and i0: "0 \<le> idx" and i1: "idx < Size g * Size g"
  shows "\<exists>p'. good g p' \<and> (carve g target (idx # rest) p = Some p \<or>
                             carve g target (idx # rest) p = carve g target rest p')"
proof -
  let ?n = "gsize g" and ?cs = "Cells p"
  from gp have sd: "same_dims g p" and sq: "square ?n ?cs" and v: "valid_cells g ?cs"
    by (simp_all add: good_def)
  have pos: "0 < Size g" by (rule wf_dims_pos[OF d])
  obtain cnt where cc: "Grid_countClues g p = Some cnt" using Grid_countClues_total[OF sq] by blast
  show ?thesis
  proof (cases "cnt \<le> target")
    case True
    with cc have "carve g target (idx # rest) p = Some p" by simp
    with gp show ?thesis by blast
  next
    case False
    let ?i = "nat idx"
    have il: "?i < nat (Size g) * nat (Size g)"
      using i0 i1 pos by (metis nat_less_eq_zless nat_mult_distrib order_less_imp_le)
    have idx: "idx = int ?i" using i0 by simp
    note ix = index_split[OF pos il]
    let ?r = "?i div nat (Size g)" and ?c = "?i mod nat (Size g)"
    have r: "?r < ?n" and c: "?c < ?n" using ix(3,4) by (simp_all add: gsize_def)
    have rc: "idx sdiv Size g = int ?r" "idx smod Size g = int ?c" using ix(1,2) idx by simp_all
    have rd: "cell_int ?cs (idx sdiv Size g) (idx smod Size g) = Some (?cs ! ?r ! ?c)"
      unfolding rc using square_cell[OF sq r c] by (simp add: cell_int_def)
    have wr: "\<And>cs x. square ?n cs \<Longrightarrow>
        set_cell_int cs (idx sdiv Size g) (idx smod Size g) x = Some (upd cs ?r ?c x)"
      unfolding rc using r c square_nth[OF _ r]
      by (simp add: set_cell_int_def set_cell_Some square_def)
    show ?thesis
    proof (cases "?cs ! ?r ! ?c = 0")
      case True
      with False cc rd pos have "carve g target (idx # rest) p = carve g target rest p"
        by (simp add: Let_def)
      with gp show ?thesis by blast
    next
      case nz: False
      let ?p1 = "p\<lparr>Cells := upd ?cs ?r ?c 0\<rparr>"
      have sq1: "square ?n (upd ?cs ?r ?c 0)" by (rule square_upd[OF sq])
      have g1: "good g ?p1"
        using sd sq1 valid_upd_zero[OF v sq r c] by (simp add: good_def same_dims_def)
      obtain b where u: "Grid_hasUniqueSolution g ?p1 2 = Some b"
        using Grid_hasUniqueSolution_total[OF d g1] by blast
      have undo: "upd (upd ?cs ?r ?c 0) ?r ?c (?cs ! ?r ! ?c) = ?cs"
        using upd_same[of ?cs ?r ?c] square_cell[OF sq r c] by (simp add: upd_upd)
      show ?thesis
      proof (cases b)
        case True
        with False cc rd pos nz wr[OF sq] u
        have "carve g target (idx # rest) p = carve g target rest ?p1"
          by (simp add: Let_def)
        with g1 show ?thesis by blast
      next
        case bf: False
        with False cc rd pos nz wr[OF sq] wr[OF sq1] u
        have "carve g target (idx # rest) p = carve g target rest (p\<lparr>Cells := ?cs\<rparr>)"
          by (simp add: Let_def undo)
        then have "carve g target (idx # rest) p = carve g target rest p" by simp
        with gp show ?thesis by blast
      qed
    qed
  qed
qed

lemma carve_total:
  assumes d: "wf_dims g"
  shows "good g p \<Longrightarrow> \<forall>idx\<in>set rm. 0 \<le> idx \<and> idx < Size g * Size g \<Longrightarrow>
         \<exists>p'. carve g target rm p = Some p' \<and> good g p'"
proof (induction rm arbitrary: p)
  case Nil
  then show ?case by simp
next
  case (Cons idx rest)
  from Cons.prems(2) have i: "0 \<le> idx" "idx < Size g * Size g"
    and r: "\<forall>idx\<in>set rest. 0 \<le> idx \<and> idx < Size g * Size g" by simp_all
  from carve_step[OF d Cons.prems(1) i, of target rest] obtain p' where
    gp': "good g p'" and
    st: "carve g target (idx # rest) p = Some p \<or> carve g target (idx # rest) p = carve g target rest p'"
    by blast
  from st show ?case
  proof
    assume "carve g target (idx # rest) p = Some p"
    with Cons.prems(1) show ?thesis by blast
  next
    assume "carve g target (idx # rest) p = carve g target rest p'"
    with Cons.IH[OF gp' r] show ?thesis by simp
  qed
qed

lemma gen_tries_spec:
  assumes d: "wf_dims g" and e: "Cells g = replicate (gsize g) (replicate (gsize g) 0)"
  shows "\<exists>res rnd'. gen_tries g d k lastErr rnd = Some (res, rnd') \<and>
           (\<forall>p. res = Inr p \<longrightarrow> good g p \<and> Grid_hasUniqueSolution g p 2 = Some True)"
proof (induction k arbitrary: lastErr rnd)
  case 0
  show ?case by simp
next
  case (Suc k)
  let ?n = "gsize g"
  have sqg: "square ?n (Cells g)" by (subst e) (simp add: square_def)
  have wfg: "wf_grid g" using d sqg by (simp add: wf_grid_def gsize_def)
  have pos: "0 < Size g" and mx: "Size g \<le> 25"
    using d by (simp_all add: wf_dims_pos wf_dims_def MaxGridSize_def)
  from Grid_fillDiagonalBoxes_valid[OF d e, of rnd] obtain cs1 rnd1 where
    fd: "Grid_fillDiagonalBoxes g rnd = Some (g\<lparr>Cells := cs1\<rparr>, rnd1)"
    and sq1: "square ?n cs1" and v1: "valid_cells g cs1" by blast
  let ?g1 = "g\<lparr>Cells := cs1\<rparr>"
  have sq1': "square ?n (Cells ?g1)" using sq1 by simp
  from Grid_backtrack_spec(1)[OF d sq1', of rnd1] show ?case
  proof (elim disjE exE conjE)
    fix rnd2
    assume bt: "Grid_backtrack g ?g1 rnd1 = Some (False, ?g1, rnd2)"
    have "gen_tries g d (Suc k) lastErr rnd = gen_tries g d k (Some ErrBuildSolved) rnd2"
      using fd bt by (simp add: Grid_Clone_wf[OF wfg])
    with Suc.IH[of "Some ErrBuildSolved" rnd2] show ?thesis by simp
  next
    fix solved rnd2
    assume bt: "Grid_backtrack g ?g1 rnd1 = Some (True, solved, rnd2)"
      and C: "completion g (Cells ?g1) (Cells solved)" and sv: "solved = ?g1\<lparr>Cells := Cells solved\<rparr>"
    from C have C': "completion g cs1 (Cells solved)" by simp
    have sd: "same_dims g solved" by (subst sv) (simp add: same_dims_def)
    have gs: "good g solved"
      using sd completion_square[OF C'] completion_valid[OF v1 C'] by (simp add: good_def)
    have cl: "Grid_Clone solved = Some solved" by (rule Grid_Clone_wf[OF good_wf_grid[OF d gs]])
    have "Size g * Size g \<le> 25 * 25" using pos mx by (intro mult_mono) simp_all
    then have i64: "int64 (Size g * Size g) = Size g * Size g" using pos by (simp add: int64_def)
    have nn: "\<not> Size g * Size g < 0" using pos by (simp add: not_less)
    obtain rm rnd3 where P: "Perm (nat (Size g * Size g)) rnd2 = (rm, rnd3)"
      by (cases "Perm (nat (Size g * Size g)) rnd2")
    have rmr: "\<forall>idx\<in>set rm. 0 \<le> idx \<and> idx < Size g * Size g"
      using Perm_props(3)[OF P] pos by simp
    from carve_total[OF d gs rmr, of "Grid_cluesFor g d"] obtain puzzle where
      cv: "carve g (Grid_cluesFor g d) rm solved = Some puzzle" and gp: "good g puzzle" by blast
    obtain b where u: "Grid_hasUniqueSolution g puzzle 2 = Some b"
      using Grid_hasUniqueSolution_total[OF d gp] by blast
    show ?thesis
    proof (cases b)
      case True
      with fd bt cl P cv u nn
      have "gen_tries g d (Suc k) lastErr rnd = Some (Inr puzzle, rnd3)"
        by (simp add: Grid_Clone_wf[OF wfg] i64 Let_def)
      with gp u True show ?thesis by simp
    next
      case False
      with fd bt cl P cv u nn
      have "gen_tries g d (Suc k) lastErr rnd = gen_tries g d k (Some ErrUniqueness) rnd3"
        by (simp add: Grid_Clone_wf[OF wfg] i64 Let_def)
      with Suc.IH[of "Some ErrUniqueness" rnd3] show ?thesis by simp
    qed
  qed
qed

subsection \<open>Grids made by the constructor\<close>





section \<open>The classic 9x9 board\<close>

text \<open>
  \<^verbatim>\<open>type Board [9][9]int\<close>. A Go array is a value: a board is a list of 9 rows of 9 cells
  (\<open>is_board\<close>), passed and returned by copy. The functions below are those of
  \<^verbatim>\<open>sudoku.go\<close>; they share the loop bodies of the grid methods, with the constants 9 and 3
  written in.
\<close>

type_synonym Board = "int list list"

definition is_board :: "Board \<Rightarrow> bool" where
  "is_board b = square 9 b"

definition zeroBoard :: Board where
  "zeroBoard = replicate 9 (replicate 9 0)"

definition Validate :: "Board \<Rightarrow> (error + unit) option" where
  "Validate b =
     (case validate_lines 9 b [0..<9] of
        None \<Rightarrow> None
      | Some (Inl e) \<Rightarrow> Some (Inl e)
      | Some (Inr u) \<Rightarrow> validate_boxes 9 3 3 b (List.product [0, 3, 6] [0, 3, 6]))"

definition copyBoard :: "Board \<Rightarrow> Board \<Rightarrow> Board" where
  "copyBoard dst src = fold (\<lambda>i d. d[i := src ! i]) [0..<9] dst"

definition findEmpty :: "Board \<Rightarrow> (nat \<times> nat \<times> bool) option" where
  "findEmpty b = first_empty b (List.product [0..<9] [0..<9])"

definition isSafe :: "Board \<Rightarrow> nat \<Rightarrow> nat \<Rightarrow> int \<Rightarrow> bool option" where
  "isSafe b r c v =
     (case safe_lines b r c v [0..<9] of
        None \<Rightarrow> None
      | Some False \<Rightarrow> Some False
      | Some True \<Rightarrow>
          let br = (r div 3) * 3; bc = (c div 3) * 3
          in safe_box b v (List.product [br..<br + 3] [bc..<bc + 3]))"

function backtrack :: "Board \<Rightarrow> rng \<Rightarrow> (bool \<times> Board \<times> rng) option"
  and backtrack_loop :: "nat \<Rightarrow> nat \<Rightarrow> int list \<Rightarrow> Board \<Rightarrow> rng \<Rightarrow> (bool \<times> Board \<times> rng) option" where
  "backtrack b rnd =
     (case findEmpty b of
        None \<Rightarrow> None
      | Some (r, c, ok) \<Rightarrow>
          if \<not> ok then Some (True, b, rnd)
          else
            (case Shuffle [1, 2, 3, 4, 5, 6, 7, 8, 9] rnd of
               (vals, rnd') \<Rightarrow> backtrack_loop r c vals b rnd'))"
| "backtrack_loop r c [] b rnd = Some (False, b, rnd)"
| "backtrack_loop r c (v # vs) b rnd =
     (case isSafe b r c v of
        None \<Rightarrow> None
      | Some False \<Rightarrow> backtrack_loop r c vs b rnd
      | Some True \<Rightarrow>
          (case set_cell b r c v of
             None \<Rightarrow> None
           | Some b1 \<Rightarrow>
               (case backtrack b1 rnd of
                  None \<Rightarrow> None
                | Some (True, b', rnd') \<Rightarrow> Some (True, b', rnd')
                | Some (False, b', rnd') \<Rightarrow>
                    (case set_cell b' r c 0 of
                       None \<Rightarrow> None
                     | Some b2 \<Rightarrow> backtrack_loop r c vs b2 rnd'))))"
  by pat_completeness auto

lemma findEmpty_found: "findEmpty b = Some (r, c, True) \<Longrightarrow> cell b r c = Some 0"
  unfolding findEmpty_def by (rule first_empty_found)

lemma backtrack_fail_restores:
  "backtrack_backtrack_loop_dom (Inl (b, rnd)) \<Longrightarrow>
     backtrack b rnd = Some (False, b', rnd') \<Longrightarrow> b' = b"
  "backtrack_backtrack_loop_dom (Inr (r, c, vs, b, rnd)) \<Longrightarrow>
     backtrack_loop r c vs b rnd = Some (False, b', rnd') \<Longrightarrow>
     b' = b \<or> b' = upd b r c 0"
proof (induct b rnd and r c vs b rnd arbitrary: b' rnd' and b' rnd'
       rule: backtrack_backtrack_loop.pinduct)
  case (1 b rnd)
  from "1.prems" "1.hyps"(1) obtain r c vals rnd1 where
    fe: "findEmpty b = Some (r, c, True)" and
    sh: "Shuffle [1, 2, 3, 4, 5, 6, 7, 8, 9] rnd = (vals, rnd1)" and
    lp: "backtrack_loop r c vals b rnd1 = Some (False, b', rnd')"
    by (auto simp: backtrack.psimps split: option.splits if_splits prod.splits)
  from "1.hyps"(2)[OF fe refl refl _ sh[symmetric] lp]
  have "b' = b \<or> b' = upd b r c 0" by simp
  with upd_same[OF findEmpty_found[OF fe]] show ?case by auto
next
  case (2 r c b rnd)
  then show ?case by (simp add: backtrack_loop.psimps)
next
  case (3 r c v vs b rnd)
  show ?case
  proof (cases "isSafe b r c v")
    case None
    with "3.prems" "3.hyps"(1) show ?thesis by (simp add: backtrack_loop.psimps)
  next
    case (Some s)
    show ?thesis
    proof (cases s)
      case False
      with Some "3.prems" "3.hyps"(1) have "backtrack_loop r c vs b rnd = Some (False, b', rnd')"
        by (simp add: backtrack_loop.psimps)
      from "3.hyps"(4)[OF _ _ this] Some False show ?thesis by simp
    next
      case True
      with Some "3.prems" "3.hyps"(1) obtain b1 b2 rnd2 b3 where
        sc: "set_cell b r c v = Some b1" and
        bt: "backtrack b1 rnd = Some (False, b2, rnd2)" and
        sc': "set_cell b2 r c 0 = Some b3" and
        lp: "backtrack_loop r c vs b3 rnd2 = Some (False, b', rnd')"
        by (auto simp: backtrack_loop.psimps split: option.splits bool.splits)
      from Some True have s: "isSafe b r c v = Some True" by simp
      from "3.hyps"(2)[OF s refl sc bt] have b2: "b2 = b1" .
      from sc have b1: "b1 = upd b r c v" by (simp add: set_cell_Some)
      from sc' b2 b1 have b3: "b3 = upd b r c 0" by (simp add: set_cell_Some upd_upd)
      from "3.hyps"(3)[OF s refl sc bt refl refl refl sc' lp]
      show ?thesis by (auto simp: b3 upd_upd)
    qed
  qed
qed

definition board_measure ::
  "(Board \<times> rng) + (nat \<times> nat \<times> int list \<times> Board \<times> rng) \<Rightarrow> nat \<times> nat" where
  "board_measure x =
     (case x of
        Inl (b, rnd) \<Rightarrow> (2 * zeros b + 2, 0)
      | Inr (r, c, vs, b, rnd) \<Rightarrow> (2 * (zeros (upd b r c 0) + count_list vs 0) + 1, length vs))"

termination backtrack
proof (relation "inv_image (less_than <*lex*> less_than) board_measure", goal_cases)
  case 1
  show ?case by auto
next
  case (2 b rnd x2 x y xa ya xb yb)
  then have fe: "findEmpty b = Some (x, xa, True)" by auto
  from 2 have "set xb = set [1, 2, 3, 4, 5, 6, 7, 8, 9 :: int]" by (metis Shuffle_set)
  then have "0 \<notin> set xb" by simp
  then have "count_list xb 0 = 0" by (metis count_list_0_iff)
  with upd_same[OF findEmpty_found[OF fe]] show ?case
    by (simp add: board_measure_def)
next
  case (3 r c v vs b rnd x2 x2a)
  from zeros_set_cell_lt[OF 3(3)] show ?case by (simp add: board_measure_def)
next
  case (4 r c v vs b rnd x2 x2a x2b x y xa ya x2c)
  from 4 have bt: "backtrack x2a rnd = Some (False, xa, ya)" by auto
  from backtrack_fail_restores(1)[OF 4(9) bt] have xa: "xa = x2a" .
  from 4(3) have "x2a = upd b r c v" by (simp add: set_cell_Some)
  with 4(8) xa have "x2c = upd b r c 0" by (simp add: set_cell_Some upd_upd)
  then show ?case by (simp add: board_measure_def upd_upd)
next
  case (5 r c v vs b rnd x2)
  show ?case by (simp add: board_measure_def)
qed

declare backtrack.simps [simp del]

definition Solve :: "Board \<Rightarrow> rng \<Rightarrow> ((Board \<times> bool) \<times> rng) option" where
  "Solve b rnd =
     (let solved = copyBoard zeroBoard b in
      case backtrack solved rnd of
        None \<Rightarrow> None
      | Some (False, s, rnd') \<Rightarrow> Some ((zeroBoard, False), rnd')
      | Some (True, s, rnd') \<Rightarrow> Some ((s, True), rnd'))"

function dfs :: "int \<Rightarrow> Board \<Rightarrow> int \<Rightarrow> (bool \<times> Board \<times> int) option"
  and dfs_loop :: "int \<Rightarrow> nat \<Rightarrow> nat \<Rightarrow> int list \<Rightarrow> Board \<Rightarrow> int \<Rightarrow> (bool \<times> Board \<times> int) option" where
  "dfs limit cur cnt =
     (case findEmpty cur of
        None \<Rightarrow> None
      | Some (r, c, ok) \<Rightarrow>
          if \<not> ok then Some (cnt + 1 \<ge> limit, cur, cnt + 1)
          else dfs_loop limit r c [1..9] cur cnt)"
| "dfs_loop limit r c [] cur cnt = Some (False, cur, cnt)"
| "dfs_loop limit r c (v # vs) cur cnt =
     (case isSafe cur r c v of
        None \<Rightarrow> None
      | Some False \<Rightarrow> dfs_loop limit r c vs cur cnt
      | Some True \<Rightarrow>
          (case set_cell cur r c v of
             None \<Rightarrow> None
           | Some b1 \<Rightarrow>
               (case dfs limit b1 cnt of
                  None \<Rightarrow> None
                | Some (True, cur', cnt') \<Rightarrow> Some (True, cur', cnt')
                | Some (False, cur', cnt') \<Rightarrow>
                    (case set_cell cur' r c 0 of
                       None \<Rightarrow> None
                     | Some b2 \<Rightarrow> dfs_loop limit r c vs b2 cnt'))))"
  by pat_completeness auto

lemma dfs_fail_restores:
  "dfs_dfs_loop_dom (Inl (limit, cur, cnt)) \<Longrightarrow>
     dfs limit cur cnt = Some (False, cur', cnt') \<Longrightarrow> cur' = cur"
  "dfs_dfs_loop_dom (Inr (limit, r, c, vs, cur, cnt)) \<Longrightarrow>
     dfs_loop limit r c vs cur cnt = Some (False, cur', cnt') \<Longrightarrow>
     cur' = cur \<or> cur' = upd cur r c 0"
proof (induct limit cur cnt and limit r c vs cur cnt arbitrary: cur' cnt' and cur' cnt'
       rule: dfs_dfs_loop.pinduct)
  case (1 limit cur cnt)
  show ?case
  proof (cases "findEmpty cur")
    case None
    with "1.prems" "1.hyps"(1) show ?thesis by (simp add: dfs.psimps)
  next
    case (Some t)
    obtain r c ok where t: "t = (r, c, ok)" by (cases t) auto
    show ?thesis
    proof (cases ok)
      case False
      with Some t "1.prems" "1.hyps"(1) show ?thesis by (simp add: dfs.psimps)
    next
      case True
      with Some t have fe: "findEmpty cur = Some (r, c, True)" by simp
      with "1.prems" "1.hyps"(1)
      have lp: "dfs_loop limit r c [1..9] cur cnt = Some (False, cur', cnt')"
        by (simp add: dfs.psimps)
      from "1.hyps"(2)[OF fe refl refl _ lp]
      have "cur' = cur \<or> cur' = upd cur r c 0" by simp
      with upd_same[OF findEmpty_found[OF fe]] show ?thesis by auto
    qed
  qed
next
  case (2 limit r c cur cnt)
  then show ?case by (simp add: dfs_loop.psimps)
next
  case (3 limit r c v vs cur cnt)
  show ?case
  proof (cases "isSafe cur r c v")
    case None
    with "3.prems" "3.hyps"(1) show ?thesis by (simp add: dfs_loop.psimps)
  next
    case (Some s)
    show ?thesis
    proof (cases s)
      case False
      with Some "3.prems" "3.hyps"(1)
      have "dfs_loop limit r c vs cur cnt = Some (False, cur', cnt')"
        by (simp add: dfs_loop.psimps)
      from "3.hyps"(4)[OF _ _ this] Some False show ?thesis by simp
    next
      case True
      with Some have s: "isSafe cur r c v = Some True" by simp
      with "3.prems" "3.hyps"(1) obtain b1 b2 cnt2 b3 where
        sc: "set_cell cur r c v = Some b1" and
        bt: "dfs limit b1 cnt = Some (False, b2, cnt2)" and
        sc': "set_cell b2 r c 0 = Some b3" and
        lp: "dfs_loop limit r c vs b3 cnt2 = Some (False, cur', cnt')"
        by (auto simp: dfs_loop.psimps split: option.splits bool.splits)
      from "3.hyps"(2)[OF s refl sc bt] have b2: "b2 = b1" .
      from sc have b1: "b1 = upd cur r c v" by (simp add: set_cell_Some)
      from sc' b2 b1 have b3: "b3 = upd cur r c 0" by (simp add: set_cell_Some upd_upd)
      from "3.hyps"(3)[OF s refl sc bt refl refl refl sc' lp]
      show ?thesis by (auto simp: b3 upd_upd)
    qed
  qed
qed

definition board_dfs_measure ::
  "(int \<times> Board \<times> int) + (int \<times> nat \<times> nat \<times> int list \<times> Board \<times> int) \<Rightarrow> nat \<times> nat" where
  "board_dfs_measure x =
     (case x of
        Inl (limit, cur, cnt) \<Rightarrow> (2 * zeros cur + 2, 0)
      | Inr (limit, r, c, vs, cur, cnt) \<Rightarrow>
          (2 * (zeros (upd cur r c 0) + count_list vs 0) + 1, length vs))"

termination dfs
proof (relation "inv_image (less_than <*lex*> less_than) board_dfs_measure", goal_cases)
  case 1
  show ?case by auto
next
  case (2 limit cur cnt x2 x y xa ya)
  then have fe: "findEmpty cur = Some (x, xa, True)" by auto
  have "0 \<notin> set [1..(9::int)]" by simp
  then have "count_list [1..(9::int)] 0 = 0" by (metis count_list_0_iff)
  with upd_same[OF findEmpty_found[OF fe]] show ?case
    by (simp add: board_dfs_measure_def)
next
  case (3 limit r c v vs cur cnt x2 x2a)
  from zeros_set_cell_lt[OF 3(3)] show ?case by (simp add: board_dfs_measure_def)
next
  case (4 limit r c v vs cur cnt x2 x2a x2b x y xa ya x2c)
  from 4 have bt: "dfs limit x2a cnt = Some (False, xa, ya)" by auto
  from dfs_fail_restores(1)[OF 4(9) bt] have xa: "xa = x2a" .
  from 4(3) have "x2a = upd cur r c v" by (simp add: set_cell_Some)
  with 4(8) xa have "x2c = upd cur r c 0" by (simp add: set_cell_Some upd_upd)
  then show ?case by (simp add: board_dfs_measure_def upd_upd)
next
  case (5 limit r c v vs cur cnt x2)
  show ?case by (simp add: board_dfs_measure_def)
qed

declare dfs.simps [simp del]

definition hasUniqueSolution :: "Board \<Rightarrow> int \<Rightarrow> bool option" where
  "hasUniqueSolution b limit =
     (let work = copyBoard zeroBoard b in
      case dfs limit work 0 of
        None \<Rightarrow> None
      | Some (stop, cur, cnt) \<Rightarrow> Some (cnt = 1))"

subsection \<open>The generator and the seed\<close>

definition cluesFor :: "Difficulty \<Rightarrow> int" where
  "cluesFor d = (case d of Easy \<Rightarrow> 40 | Medium \<Rightarrow> 32 | Hard \<Rightarrow> 26 | _ \<Rightarrow> 32)"

definition countClues :: "Board \<Rightarrow> int option" where
  "countClues b = count_clues b (List.product [0..<9] [0..<9]) 0"

definition fillBox :: "Board \<Rightarrow> nat \<Rightarrow> nat \<Rightarrow> rng \<Rightarrow> (Board \<times> rng) option" where
  "fillBox b br bc rnd =
     (case Perm 9 rnd of
        (vals, rnd') \<Rightarrow>
          (case fill_cells b vals (List.product [br..<br + 3] [bc..<bc + 3]) 0 of
             None \<Rightarrow> None
           | Some b' \<Rightarrow> Some (b', rnd')))"

fun fill_diagonal :: "Board \<Rightarrow> nat list \<Rightarrow> rng \<Rightarrow> (Board \<times> rng) option" where
  "fill_diagonal b [] rnd = Some (b, rnd)"
| "fill_diagonal b (d # ds) rnd =
     (case fillBox b d d rnd of
        None \<Rightarrow> None
      | Some (b', rnd') \<Rightarrow> fill_diagonal b' ds rnd')"

definition fillDiagonalBoxes :: "Board \<Rightarrow> rng \<Rightarrow> (Board \<times> rng) option" where
  "fillDiagonalBoxes b rnd = fill_diagonal b [0, 3, 6] rnd"

fun board_carve :: "int \<Rightarrow> int list \<Rightarrow> Board \<Rightarrow> Board option" where
  "board_carve target [] puzzle = Some puzzle"
| "board_carve target (idx # rest) puzzle =
     (case countClues puzzle of
        None \<Rightarrow> None
      | Some cnt \<Rightarrow>
          if cnt \<le> target then Some puzzle
          else
            let r = idx sdiv 9; c = idx smod 9 in
            (case cell_int puzzle r c of
               None \<Rightarrow> None
             | Some old \<Rightarrow>
                 if old = 0 then board_carve target rest puzzle
                 else
                   (case set_cell_int puzzle r c 0 of
                      None \<Rightarrow> None
                    | Some p1 \<Rightarrow>
                        (case hasUniqueSolution p1 2 of
                           None \<Rightarrow> None
                         | Some True \<Rightarrow> board_carve target rest p1
                         | Some False \<Rightarrow>
                             (case set_cell_int p1 r c old of
                                None \<Rightarrow> None
                              | Some p2 \<Rightarrow> board_carve target rest p2)))))"

fun board_tries :: "Difficulty \<Rightarrow> nat \<Rightarrow> error option \<Rightarrow> rng \<Rightarrow> ((error + Board) \<times> rng) option" where
  "board_tries d 0 lastErr rnd =
     Some (Inl (case lastErr of None \<Rightarrow> ErrGenerationFailed | Some e \<Rightarrow> e), rnd)"
| "board_tries d (Suc k) lastErr rnd =
     (case fillDiagonalBoxes zeroBoard rnd of
        None \<Rightarrow> None
      | Some (b1, rnd1) \<Rightarrow>
          (case backtrack b1 rnd1 of
             None \<Rightarrow> None
           | Some (False, b, rnd2) \<Rightarrow> board_tries d k (Some ErrBuildSolved) rnd2
           | Some (True, solution, rnd2) \<Rightarrow>
               let target = cluesFor d in
               (case Perm 81 rnd2 of
                  (rmOrder, rnd3) \<Rightarrow>
                    (case board_carve target rmOrder solution of
                       None \<Rightarrow> None
                     | Some puzzle \<Rightarrow>
                         (case hasUniqueSolution puzzle 2 of
                            None \<Rightarrow> None
                          | Some True \<Rightarrow> Some (Inr puzzle, rnd3)
                          | Some False \<Rightarrow> board_tries d k (Some ErrUniqueness) rnd3)))))"

definition Generate :: "Difficulty \<Rightarrow> int \<Rightarrow> rng \<Rightarrow> ((error + Board) \<times> rng) option" where
  "Generate d attempts rnd =
     board_tries d (nat (if attempts < 1 then 1 else attempts)) None rnd"

text \<open>
  \<^verbatim>\<open>SetRandSeed\<close> replaces the package's random source by a generator made from the seed
  alone. The generator \<^verbatim>\<open>rand.NewPCG\<close> belongs to Go's standard library, not to this
  repository: it is the parameter \<open>pcg\<close>, the stream of draws that the generator seeded with
  two 64-bit words delivers.
\<close>

definition SetRandSeed :: "(64 word \<Rightarrow> 64 word \<Rightarrow> rng) \<Rightarrow> 64 word \<Rightarrow> rng \<Rightarrow> rng" where
  "SetRandSeed pcg seed globalRand = pcg seed (xor seed 0x9e3779b97f4a7c15)"

subsection \<open>The board functions are the grid methods at 9, 3, 3\<close>

definition grid9 :: "Board \<Rightarrow> Grid" where
  "grid9 b = \<lparr>Size = 9, BoxRows = 3, BoxCols = 3, Cells = b\<rparr>"

definition dims9 :: "Grid \<Rightarrow> bool" where
  "dims9 g = (Size g = 9 \<and> BoxRows g = 3 \<and> BoxCols g = 3)"

lemma dims9_grid9 [simp]: "dims9 (grid9 b)"
  by (simp add: dims9_def grid9_def)

lemma grid9_sel [simp]:
  "Size (grid9 b) = 9" "BoxRows (grid9 b) = 3" "BoxCols (grid9 b) = 3" "Cells (grid9 b) = b"
  "(grid9 b)\<lparr>Cells := b'\<rparr> = grid9 b'" "gsize (grid9 b) = 9"
  by (simp_all add: grid9_def gsize_def)

lemma wf_dims_grid9: "dims9 g \<Longrightarrow> wf_dims g"
  by (simp add: dims9_def wf_dims_def MaxGridSize_def)

lemma wf_grid9: "is_board b \<Longrightarrow> wf_grid (grid9 b)"
  by (simp add: wf_grid_def wf_dims_grid9 is_board_def)

lemma box_starts_9: "box_starts 9 3 = [0, 3, 6]"
  by code_simp

lemma Validate_grid9: "Grid_Validate (grid9 b) = Validate b"
  by (simp add: Grid_Validate_def Validate_def box_starts_9 Let_def split: option.splits sum.splits)

lemma findEmpty_grid9: "dims9 g \<Longrightarrow> Grid_findEmpty g w = findEmpty (Cells w)"
  by (simp add: Grid_findEmpty_def findEmpty_def dims9_def)

lemma isSafe_grid9: "dims9 g \<Longrightarrow> Grid_isSafe g w r c v = isSafe (Cells w) r c v"
  by (simp add: Grid_isSafe_def isSafe_def dims9_def Let_def split: option.splits bool.splits)

lemma vals9: "map (\<lambda>i. int i + 1) [0..<9] = [1, 2, 3, 4, 5, 6, 7, 8, 9]"
  by code_simp

definition lift9 :: "Grid \<Rightarrow> (bool \<times> Board \<times> 'a) option \<Rightarrow> (bool \<times> Grid \<times> 'a) option" where
  "lift9 w res = map_option (\<lambda>(ok, b', x). (ok, w\<lparr>Cells := b'\<rparr>, x)) res"

lemma lift9_simps [simp]:
  "lift9 w None = None" "lift9 w (Some (ok, b', x)) = Some (ok, w\<lparr>Cells := b'\<rparr>, x)"
  by (simp_all add: lift9_def)

lemma lift9_Cells [simp]: "lift9 (w\<lparr>Cells := b\<rparr>) res = lift9 w res"
  by (cases res) (auto simp: lift9_def)

lemma Grid_backtrack_board:
  "\<forall>w::Grid. dims9 g \<longrightarrow> Cells w = b \<longrightarrow> Grid_backtrack g w rnd = lift9 w (backtrack b rnd)"
  "\<forall>w::Grid. dims9 g \<longrightarrow> Cells w = b \<longrightarrow>
       Grid_backtrack_loop g r c vs w rnd = lift9 w (backtrack_loop r c vs b rnd)"
proof (induct b rnd and r c vs b rnd rule: backtrack_backtrack_loop.induct)
  case (1 b rnd)
  show ?case
  proof (intro allI impI)
    fix w :: Grid assume d: "dims9 g" and w: "Cells w = b"
    have sz: "Size g = 9" using d by (simp add: dims9_def)
    show "Grid_backtrack g w rnd = lift9 w (backtrack b rnd)"
    proof (cases "findEmpty b")
      case None
      then show ?thesis
        by (simp add: Grid_backtrack.simps backtrack.simps findEmpty_grid9[OF d] w)
    next
      case (Some t)
      obtain r c ok where t: "t = (r, c, ok)" by (cases t) auto
      show ?thesis
      proof (cases ok)
        case False
        with Some t w show ?thesis
          by (simp add: Grid_backtrack.simps backtrack.simps findEmpty_grid9[OF d] Grid.surjective)
      next
        case True
        obtain vals rnd1 where sh: "Shuffle [1, 2, 3, 4, 5, 6, 7, 8, 9 :: int] rnd = (vals, rnd1)"
          by (cases "Shuffle [1, 2, 3, 4, 5, 6, 7, 8, 9 :: int] rnd")
        from Some t True have fe: "findEmpty b = Some (r, c, True)" by simp
        from "1.hyps"[OF fe refl refl _ sh[symmetric]] d w
        have "Grid_backtrack_loop g r c vals w rnd1 = lift9 w (backtrack_loop r c vals b rnd1)" by simp
        with fe sh show ?thesis
          by (simp add: Grid_backtrack.simps backtrack.simps findEmpty_grid9[OF d] w sz vals9)
      qed
    qed
  qed
next
  case (2 r c b rnd)
  show ?case by (simp add: Grid.surjective)
next
  case (3 r c v vs b rnd)
  show ?case
  proof (intro allI impI)
    fix w :: Grid assume d: "dims9 g" and w: "Cells w = b"
    note safe = isSafe_grid9[OF d, of w r c v, unfolded w]
    show "Grid_backtrack_loop g r c (v # vs) w rnd = lift9 w (backtrack_loop r c (v # vs) b rnd)"
    proof (cases "isSafe b r c v")
      case None
      then show ?thesis by (simp add: safe)
    next
      case (Some s)
      show ?thesis
      proof (cases s)
        case False
        with Some have s: "isSafe b r c v = Some False" by simp
        from "3.hyps"(3)[OF s refl] d w s show ?thesis by (simp add: safe)
      next
        case True
        with Some have s: "isSafe b r c v = Some True" by simp
        show ?thesis
        proof (cases "set_cell b r c v")
          case None
          with s show ?thesis by (simp add: safe w)
        next
          case (Some b1)
          from "3.hyps"(1)[OF s refl Some] d
          have rec: "Grid_backtrack g (w\<lparr>Cells := b1\<rparr>) rnd = lift9 w (backtrack b1 rnd)" by simp
          show ?thesis
          proof (cases "backtrack b1 rnd")
            case None
            with s Some rec show ?thesis by (simp add: safe w)
          next
            case res: (Some t)
            obtain ok b2 rnd2 where t: "t = (ok, b2, rnd2)" by (cases t) auto
            show ?thesis
            proof (cases ok)
              case True
              with s Some rec res t show ?thesis by (simp add: safe w)
            next
              case False
              with res t have bt: "backtrack b1 rnd = Some (False, b2, rnd2)" by simp
              show ?thesis
              proof (cases "set_cell b2 r c 0")
                case None
                with s Some rec bt show ?thesis by (simp add: safe w)
              next
                case sc: (Some b3)
                from "3.hyps"(2)[OF s refl Some bt refl refl refl sc] d
                have "Grid_backtrack_loop g r c vs (w\<lparr>Cells := b3\<rparr>) rnd2 = lift9 w (backtrack_loop r c vs b3 rnd2)"
                  by simp
                with s Some rec bt sc show ?thesis by (simp add: safe w)
              qed
            qed
          qed
        qed
      qed
    qed
  qed
qed


lemma Grid_dfs_board:
  "\<forall>w::Grid. dims9 g \<longrightarrow> Cells w = cur \<longrightarrow> Grid_dfs g limit w cnt = lift9 w (dfs limit cur cnt)"
  "\<forall>w::Grid. dims9 g \<longrightarrow> Cells w = cur \<longrightarrow>
       Grid_dfs_loop g limit r c vs w cnt = lift9 w (dfs_loop limit r c vs cur cnt)"
proof (induct limit cur cnt and limit r c vs cur cnt rule: dfs_dfs_loop.induct)
  case (1 limit cur cnt)
  show ?case
  proof (intro allI impI)
    fix w :: Grid assume d: "dims9 g" and w: "Cells w = cur"
    have sz: "Size g = 9" using d by (simp add: dims9_def)
    show "Grid_dfs g limit w cnt = lift9 w (dfs limit cur cnt)"
    proof (cases "findEmpty cur")
      case None
      then show ?thesis
        by (simp add: Grid_dfs.simps dfs.simps findEmpty_grid9[OF d] w)
    next
      case (Some t)
      obtain r c ok where t: "t = (r, c, ok)" by (cases t) auto
      show ?thesis
      proof (cases ok)
        case False
        with Some t w show ?thesis
          by (simp add: Grid_dfs.simps dfs.simps findEmpty_grid9[OF d] Grid.surjective)
      next
        case True
        from Some t True have fe: "findEmpty cur = Some (r, c, True)" by simp
        from "1.hyps"[OF fe refl refl] d w
        have "Grid_dfs_loop g limit r c [1..9] w cnt = lift9 w (dfs_loop limit r c [1..9] cur cnt)"
          by simp
        with fe show ?thesis
          by (simp add: Grid_dfs.simps dfs.simps findEmpty_grid9[OF d] w sz)
      qed
    qed
  qed
next
  case (2 limit r c cur cnt)
  show ?case by (simp add: Grid.surjective)
next
  case (3 limit r c v vs cur cnt)
  show ?case
  proof (intro allI impI)
    fix w :: Grid assume d: "dims9 g" and w: "Cells w = cur"
    note safe = isSafe_grid9[OF d, of w r c v, unfolded w]
    show "Grid_dfs_loop g limit r c (v # vs) w cnt = lift9 w (dfs_loop limit r c (v # vs) cur cnt)"
    proof (cases "isSafe cur r c v")
      case None
      then show ?thesis by (simp add: safe)
    next
      case (Some s)
      show ?thesis
      proof (cases s)
        case False
        with Some have s: "isSafe cur r c v = Some False" by simp
        from "3.hyps"(3)[OF s refl] d w s show ?thesis by (simp add: safe)
      next
        case True
        with Some have s: "isSafe cur r c v = Some True" by simp
        show ?thesis
        proof (cases "set_cell cur r c v")
          case None
          with s show ?thesis by (simp add: safe w)
        next
          case (Some b1)
          from "3.hyps"(1)[OF s refl Some] d
          have rec: "Grid_dfs g limit (w\<lparr>Cells := b1\<rparr>) cnt = lift9 w (dfs limit b1 cnt)" by simp
          show ?thesis
          proof (cases "dfs limit b1 cnt")
            case None
            with s Some rec show ?thesis by (simp add: safe w)
          next
            case res: (Some t)
            obtain ok b2 cnt2 where t: "t = (ok, b2, cnt2)" by (cases t) auto
            show ?thesis
            proof (cases ok)
              case True
              with s Some rec res t show ?thesis by (simp add: safe w)
            next
              case False
              with res t have bt: "dfs limit b1 cnt = Some (False, b2, cnt2)" by simp
              show ?thesis
              proof (cases "set_cell b2 r c 0")
                case None
                with s Some rec bt show ?thesis by (simp add: safe w)
              next
                case sc: (Some b3)
                from "3.hyps"(2)[OF s refl Some bt refl refl refl sc] d
                have "Grid_dfs_loop g limit r c vs (w\<lparr>Cells := b3\<rparr>) cnt2 =
                      lift9 w (dfs_loop limit r c vs b3 cnt2)"
                  by simp
                with s Some rec bt sc show ?thesis by (simp add: safe w)
              qed
            qed
          qed
        qed
      qed
    qed
  qed
qed

lemma copy_rows_take:
  "n \<le> length dst \<Longrightarrow> length dst = length src \<Longrightarrow>
   fold (\<lambda>i d. d[i := src ! i]) [0..<n] dst = take n src @ drop n dst"
proof (induction n)
  case 0
  show ?case by simp
next
  case (Suc n)
  then have "fold (\<lambda>i d. d[i := src ! i]) [0..<n] dst = take n src @ drop n dst" by simp
  moreover have "(take n src @ drop n dst)[n := src ! n] = take (Suc n) src @ drop (Suc n) dst"
    using Suc.prems
    by (intro nth_equalityI) (auto simp: nth_append nth_list_update min_def less_Suc_eq)
  ultimately show ?case by simp
qed

lemma copyBoard_board: "is_board dst \<Longrightarrow> is_board src \<Longrightarrow> copyBoard dst src = src"
  using copy_rows_take[of 9 dst src] by (simp add: copyBoard_def is_board_def square_def)

lemma is_board_zero: "is_board zeroBoard"
  by (simp add: is_board_def zeroBoard_def square_def)

lemma hasUniqueSolution_grid9:
  assumes d: "dims9 g" and b: "is_board b"
  shows "Grid_hasUniqueSolution g (grid9 b) limit = hasUniqueSolution b limit"
proof -
  have "Grid_dfs g limit (grid9 b) 0 = lift9 (grid9 b) (dfs limit b 0)"
    using Grid_dfs_board(1)[of g b limit 0] d by simp
  then show ?thesis
    by (cases "dfs limit b 0")
       (auto simp: Grid_hasUniqueSolution_def hasUniqueSolution_def Grid_Clone_wf[OF wf_grid9[OF b]]
          copyBoard_board[OF is_board_zero b])
qed

subsection \<open>The board generator follows the grid generator\<close>

lemma dims9_Cells [simp]: "dims9 (g\<lparr>Cells := cs\<rparr>) = dims9 g"
  by (simp add: dims9_def)

lemma fillBox_grid9:
  "dims9 g \<Longrightarrow>
   Grid_fillBox g br bc rnd =
     map_option (\<lambda>(b', r). (g\<lparr>Cells := b'\<rparr>, r)) (fillBox (Cells g) br bc rnd)"
  by (auto simp: Grid_fillBox_def fillBox_def dims9_def split: prod.splits option.splits)

lemma upt3: "[0..<3] = [0, 1, 2::nat]"
  by code_simp

lemma sdiv93: "(9::int) sdiv 3 = 3"
  by (simp add: signed_divide_int_def)

lemma fillDiagonalBoxes_grid9:
  assumes d: "dims9 g"
  shows "Grid_fillDiagonalBoxes g rnd =
     map_option (\<lambda>(b', r). (g\<lparr>Cells := b'\<rparr>, r)) (fillDiagonalBoxes (Cells g) rnd)"
proof -
  from d have dims: "Size g = 9" "BoxRows g = 3" "BoxCols g = 3" by (simp_all add: dims9_def)
  have step: "\<And>w i r. dims9 w \<Longrightarrow>
      Grid_fillBox w i i r = map_option (\<lambda>(b', r). (w\<lparr>Cells := b'\<rparr>, r)) (fillBox (Cells w) i i r)"
    by (rule fillBox_grid9)
  show ?thesis
    unfolding Grid_fillDiagonalBoxes_def fillDiagonalBoxes_def
    using d
    by (simp add: dims sdiv93 upt3 step Let_def split: option.splits prod.splits)
qed

lemma countClues_grid9: "dims9 g \<Longrightarrow> Grid_countClues g w = countClues (Cells w)"
  by (simp add: Grid_countClues_def countClues_def dims9_def)

lemma is_board_set_cell_int:
  "set_cell_int p r c v = Some cs \<Longrightarrow> is_board p \<Longrightarrow> is_board cs"
  by (auto simp: set_cell_int_def set_cell_Some is_board_def square_upd split: if_splits)

lemma carve_grid9:
  assumes d: "dims9 g"
  shows "is_board p \<Longrightarrow> carve g target rm (grid9 p) = map_option grid9 (board_carve target rm p)"
proof (induction rm arbitrary: p)
  case Nil
  show ?case by simp
next
  case (Cons idx rest)
  from d have sz: "Size g = 9" by (simp add: dims9_def)
  note b = Cons.prems
  show ?case
  proof (cases "countClues p")
    case None
    then show ?thesis by (simp add: countClues_grid9[OF d])
  next
    case (Some cnt)
    show ?thesis
    proof (cases "cnt \<le> target")
      case True
      with Some show ?thesis by (simp add: countClues_grid9[OF d])
    next
      case False
      let ?r = "idx sdiv 9" and ?c = "idx smod 9"
      show ?thesis
      proof (cases "cell_int p ?r ?c")
        case None
        with Some False show ?thesis by (simp add: countClues_grid9[OF d] sz)
      next
        case old: (Some old)
        show ?thesis
        proof (cases "old = 0")
          case True
          with Some False old Cons.IH[OF b] show ?thesis
            by (simp add: countClues_grid9[OF d] sz)
        next
          case nz: False
          show ?thesis
          proof (cases "set_cell_int p ?r ?c 0")
            case None
            with Some False old nz show ?thesis by (simp add: countClues_grid9[OF d] sz)
          next
            case sc: (Some p1)
            note b1 = is_board_set_cell_int[OF sc b]
            note u = hasUniqueSolution_grid9[OF d b1, of 2]
            show ?thesis
            proof (cases "hasUniqueSolution p1 2")
              case None
              with Some False old nz sc u show ?thesis by (simp add: countClues_grid9[OF d] sz)
            next
              case us: (Some ok)
              show ?thesis
              proof (cases ok)
                case True
                with Some False old nz sc u us Cons.IH[OF b1] show ?thesis
                  by (simp add: countClues_grid9[OF d] sz)
              next
                case nok: False
                show ?thesis
                proof (cases "set_cell_int p1 ?r ?c old")
                  case None
                  with Some False old nz sc u us nok show ?thesis
                    by (simp add: countClues_grid9[OF d] sz)
                next
                  case sc2: (Some p2)
                  note b2 = is_board_set_cell_int[OF sc2 b1]
                  with Some False old nz sc u us nok sc2 Cons.IH[OF b2] show ?thesis
                    by (simp add: countClues_grid9[OF d] sz)
                qed
              qed
            qed
          qed
        qed
      qed
    qed
  qed
qed

lemma cluesFor_grid9: "dims9 g \<Longrightarrow> Grid_cluesFor g d = cluesFor d"
  by (cases d) (simp_all add: Grid_cluesFor_def cluesFor_def dims9_def)

lemma grid9_inj: "grid9 a = grid9 b \<Longrightarrow> a = b"
  by (simp add: grid9_def)

lemma good_grid9:
  assumes "good (grid9 z) p"
  shows "p = grid9 (Cells p)" "is_board (Cells p)"
proof -
  from assms have sd: "same_dims (grid9 z) p" and sq: "square (gsize (grid9 z)) (Cells p)"
    by (simp_all add: good_def)
  show "p = grid9 (Cells p)" using sd by (intro Grid.equality) (simp_all add: same_dims_def grid9_def)
  show "is_board (Cells p)" using sq by (simp add: is_board_def)
qed

lemma board_tries_grid9:
  "\<exists>res rnd'. board_tries d k lastErr rnd = Some (res, rnd') \<and>
      gen_tries (grid9 zeroBoard) d k lastErr rnd = Some (map_sum id grid9 res, rnd')"
proof (induction k arbitrary: lastErr rnd)
  case 0
  show ?case by simp
next
  case (Suc k)
  let ?g = "grid9 zeroBoard"
  have d9: "dims9 ?g" by simp
  have wd: "wf_dims ?g" by (rule wf_dims_grid9[OF d9])
  have e: "Cells ?g = replicate (gsize ?g) (replicate (gsize ?g) 0)" by (simp add: zeroBoard_def)
  have wfg: "wf_grid ?g" by (rule wf_grid9[OF is_board_zero])
  from Grid_fillDiagonalBoxes_valid[OF wd e, of rnd] obtain cs1 rnd1 where
    fd: "Grid_fillDiagonalBoxes ?g rnd = Some (?g\<lparr>Cells := cs1\<rparr>, rnd1)"
    and sq1: "square (gsize ?g) cs1" and v1: "valid_cells ?g cs1" by blast
  have fdb: "fillDiagonalBoxes zeroBoard rnd = Some (cs1, rnd1)"
  proof (cases "fillDiagonalBoxes zeroBoard rnd")
    case None
    with fd fillDiagonalBoxes_grid9[OF d9, of rnd] show ?thesis by simp
  next
    case (Some t)
    with fd fillDiagonalBoxes_grid9[OF d9, of rnd] show ?thesis
      by (cases t) (auto dest: grid9_inj)
  qed
  have g1: "?g\<lparr>Cells := cs1\<rparr> = grid9 cs1" by simp
  have sq1': "square (gsize ?g) (Cells (grid9 cs1))" using sq1 by simp
  have bteq: "Grid_backtrack ?g (grid9 cs1) rnd1 = lift9 (grid9 cs1) (backtrack cs1 rnd1)"
    using Grid_backtrack_board(1)[of ?g cs1 rnd1] by simp
  from Grid_backtrack_spec(1)[OF wd sq1', of rnd1] show ?case
  proof (elim disjE exE conjE)
    fix rnd2
    assume bt: "Grid_backtrack ?g (grid9 cs1) rnd1 = Some (False, grid9 cs1, rnd2)"
    have btb: "\<exists>b'. backtrack cs1 rnd1 = Some (False, b', rnd2)"
    proof (cases "backtrack cs1 rnd1")
      case None
      with bt bteq show ?thesis by simp
    next
      case (Some t)
      with bt bteq show ?thesis by (cases t) auto
    qed
    then obtain b' where btb': "backtrack cs1 rnd1 = Some (False, b', rnd2)" by blast
    have a: "gen_tries ?g d (Suc k) lastErr rnd = gen_tries ?g d k (Some ErrBuildSolved) rnd2"
      using fd bt by (simp add: Grid_Clone_wf[OF wfg])
    have b: "board_tries d (Suc k) lastErr rnd = board_tries d k (Some ErrBuildSolved) rnd2"
      using fdb btb' by simp
    from Suc.IH[of "Some ErrBuildSolved" rnd2] show ?thesis unfolding a b .
  next
    fix solved rnd2
    assume bt: "Grid_backtrack ?g (grid9 cs1) rnd1 = Some (True, solved, rnd2)"
      and C: "completion ?g (Cells (grid9 cs1)) (Cells solved)"
      and sv: "solved = (grid9 cs1)\<lparr>Cells := Cells solved\<rparr>"
    let ?sol = "Cells solved"
    from sv have sv': "solved = grid9 ?sol" by simp
    from C have C': "completion ?g cs1 ?sol" by simp
    have btb: "backtrack cs1 rnd1 = Some (True, ?sol, rnd2)"
    proof (cases "backtrack cs1 rnd1")
      case None
      with bt bteq show ?thesis by simp
    next
      case (Some t)
      with bt bteq show ?thesis by (cases t) auto
    qed
    have sd: "same_dims ?g solved" by (subst sv') (simp add: same_dims_def)
    have gs: "good ?g solved"
      using sd completion_square[OF C'] completion_valid[OF v1 C'] by (simp add: good_def)
    have bsol: "is_board ?sol" by (rule good_grid9(2)[OF gs])
    have cl: "Grid_Clone solved = Some solved" by (rule Grid_Clone_wf[OF good_wf_grid[OF wd gs]])
    have i64: "int64 81 = 81" by (simp add: int64_def)
    obtain rm rnd3 where P: "Perm 81 rnd2 = (rm, rnd3)" by (cases "Perm 81 rnd2")
    have rmr: "\<forall>idx\<in>set rm. 0 \<le> idx \<and> idx < Size ?g * Size ?g"
      using Perm_props(3)[OF P] by simp
    from carve_total[OF wd gs rmr, of "Grid_cluesFor ?g d"] obtain puzzle where
      cv: "carve ?g (Grid_cluesFor ?g d) rm solved = Some puzzle" and gp: "good ?g puzzle" by blast
    let ?pz = "Cells puzzle"
    note pz = good_grid9(1)[OF gp] and bpz = good_grid9(2)[OF gp]
    have "carve ?g (cluesFor d) rm (grid9 ?sol) = map_option grid9 (board_carve (cluesFor d) rm ?sol)"
      by (rule carve_grid9[OF d9 bsol])
    with cv sv' have "map_option grid9 (board_carve (cluesFor d) rm ?sol) = Some puzzle"
      by (simp add: cluesFor_grid9[OF d9])
    then have cvb: "board_carve (cluesFor d) rm ?sol = Some ?pz"
      by (cases "board_carve (cluesFor d) rm ?sol") auto
    obtain ok where u: "Grid_hasUniqueSolution ?g puzzle 2 = Some ok"
      using Grid_hasUniqueSolution_total[OF wd gp] by blast
    have "Grid_hasUniqueSolution ?g (grid9 ?pz) 2 = hasUniqueSolution ?pz 2"
      by (rule hasUniqueSolution_grid9[OF d9 bpz])
    with u pz have ub: "hasUniqueSolution ?pz 2 = Some ok" by simp
    show ?thesis
    proof (cases ok)
      case True
      with fd bt cl P cv u
      have a: "gen_tries ?g d (Suc k) lastErr rnd = Some (Inr puzzle, rnd3)"
        by (simp add: Grid_Clone_wf[OF wfg] i64 Let_def)
      from True fdb btb P cvb ub
      have b: "board_tries d (Suc k) lastErr rnd = Some (Inr ?pz, rnd3)"
        by (simp add: Let_def)
      from a b pz show ?thesis by simp
    next
      case False
      with fd bt cl P cv u
      have a: "gen_tries ?g d (Suc k) lastErr rnd = gen_tries ?g d k (Some ErrUniqueness) rnd3"
        by (simp add: Grid_Clone_wf[OF wfg] i64 Let_def)
      from False fdb btb P cvb ub
      have b: "board_tries d (Suc k) lastErr rnd = board_tries d k (Some ErrUniqueness) rnd3"
        by (simp add: Let_def)
      from Suc.IH[of "Some ErrUniqueness" rnd3] show ?thesis unfolding a b .
    qed
  qed
qed

lemma Generate_spec:
  "\<exists>res rnd'. Generate d attempts rnd = Some (res, rnd') \<and>
     (\<forall>p. res = Inr p \<longrightarrow>
        is_board p \<and> Validate p = Some (Inr ()) \<and> hasUniqueSolution p 2 = Some True)"
proof -
  let ?g = "grid9 zeroBoard" and ?k = "nat (if attempts < 1 then 1 else attempts)"
  have d9: "dims9 ?g" by simp
  have wd: "wf_dims ?g" by (rule wf_dims_grid9[OF d9])
  have e: "Cells ?g = replicate (gsize ?g) (replicate (gsize ?g) 0)" by (simp add: zeroBoard_def)
  from board_tries_grid9[of d ?k None rnd] obtain res rnd' where
    b: "board_tries d ?k None rnd = Some (res, rnd')"
    and g: "gen_tries ?g d ?k None rnd = Some (map_sum id grid9 res, rnd')" by blast
  from gen_tries_spec[OF wd e, of d ?k None rnd] g
  have ok: "\<forall>q. map_sum id grid9 res = Inr q \<longrightarrow> good ?g q \<and> Grid_hasUniqueSolution ?g q 2 = Some True"
    by simp
  have "\<forall>p. res = Inr p \<longrightarrow>
        is_board p \<and> Validate p = Some (Inr ()) \<and> hasUniqueSolution p 2 = Some True"
  proof (intro allI impI)
    fix p assume r: "res = Inr p"
    with ok have gd: "good ?g (grid9 p)" and u: "Grid_hasUniqueSolution ?g (grid9 p) 2 = Some True"
      by simp_all
    from good_grid9(2)[OF gd] have bp: "is_board p" by simp
    have vc: "valid_cells (grid9 p) (Cells (grid9 p))"
      using gd by (simp add: good_def valid_cells_def gsize_def same_unit_def)
    with Grid_Validate_ok_iff[OF wf_grid9[OF bp]] have "Grid_Validate (grid9 p) = Some (Inr ())" by simp
    then have v: "Validate p = Some (Inr ())" by (simp add: Validate_grid9)
    from u hasUniqueSolution_grid9[OF d9 bp, of 2] have "hasUniqueSolution p 2 = Some True" by simp
    with bp v show "is_board p \<and> Validate p = Some (Inr ()) \<and> hasUniqueSolution p 2 = Some True"
      by simp
  qed
  with b show ?thesis unfolding Generate_def by blast
qed

section \<open>Solve on a store of rows\<close>

text \<open>
  A Go slice refers to an array, and copying a \<^verbatim>\<open>Grid\<close> value copies the slice headers, not
  the arrays: two grid values may share their rows. To follow the writes of \<^verbatim>\<open>Solve\<close> the
  rows live in a store, a list of arrays indexed by address, and a grid value holds the
  addresses of its rows. \<^verbatim>\<open>make\<close> appends fresh arrays to the store. No function of the
  package assigns to \<^verbatim>\<open>Cells[r]\<close> of a grid once \<^verbatim>\<open>NewGrid\<close> has returned it, so the outer slice
  is the list of row addresses itself.
\<close>

type_synonym store = "int list list"

record GridRef =
  RSize :: int
  RBoxRows :: int
  RBoxCols :: int
  RCells :: "nat list"

definition zeroRef :: GridRef where
  "zeroRef = \<lparr>RSize = 0, RBoxRows = 0, RBoxCols = 0, RCells = []\<rparr>"

text \<open>The cells that a list of row addresses refers to, and the grid that a grid value denotes.\<close>

definition deref :: "store \<Rightarrow> nat list \<Rightarrow> int list list" where
  "deref h rows = map (\<lambda>a. h ! a) rows"

definition view :: "store \<Rightarrow> GridRef \<Rightarrow> Grid" where
  "view h g = \<lparr>Size = RSize g, BoxRows = RBoxRows g, BoxCols = RBoxCols g,
               Cells = deref h (RCells g)\<rparr>"

definition NewGrid_s :: "int \<Rightarrow> int \<Rightarrow> int \<Rightarrow> store \<Rightarrow> (error + GridRef) \<times> store" where
  "NewGrid_s sz boxRows boxCols h =
     (if sz \<le> 0 \<or> boxRows \<le> 0 \<or> boxCols \<le> 0 \<or> sz \<noteq> int64 (boxRows * boxCols)
      then (Inl ErrInvalidDimensions, h)
      else if sz > MaxGridSize then (Inl ErrExceedsMaximum, h)
      else (Inr \<lparr>RSize = sz, RBoxRows = boxRows, RBoxCols = boxCols,
                 RCells = [length h..<length h + nat sz]\<rparr>,
            h @ replicate (nat sz) (replicate (nat sz) 0)))"

text \<open>The loop of \<^verbatim>\<open>Clone\<close>: \<^verbatim>\<open>copy(out.Cells[r], g.Cells[r])\<close> writes into the row of \<open>out\<close>.\<close>

fun clone_rows_s :: "nat list \<Rightarrow> nat list \<Rightarrow> nat list \<Rightarrow> store \<Rightarrow> store option" where
  "clone_rows_s out src [] h = Some h"
| "clone_rows_s out src (r # rs) h =
     (if r < length out \<and> r < length src
      then clone_rows_s out src rs (h[out ! r := copy_row (h ! (out ! r)) (h ! (src ! r))])
      else None)"

definition Clone_s :: "GridRef \<Rightarrow> store \<Rightarrow> (GridRef \<times> store) option" where
  "Clone_s g h =
     (case NewGrid_s (RSize g) (RBoxRows g) (RBoxCols g) h of
        (res, h1) \<Rightarrow>
          let out = (case res of Inl e \<Rightarrow> zeroRef | Inr x \<Rightarrow> x)
          in case clone_rows_s (RCells out) (RCells g) [0..<nat (RSize g)] h1 of
               None \<Rightarrow> None
             | Some h2 \<Rightarrow> Some (out, h2))"

text \<open>The assignment \<^verbatim>\<open>w.Cells[r][c] = v\<close>: a write into the row array that \<open>rows ! r\<close> names.\<close>

definition store_cell :: "store \<Rightarrow> nat list \<Rightarrow> nat \<Rightarrow> nat \<Rightarrow> int \<Rightarrow> store option" where
  "store_cell h rows r c v = (if r < length rows then set_cell h (rows ! r) c v else None)"

text \<open>
  \<^verbatim>\<open>Grid.backtrack\<close> on the store. The receiver \<open>g\<close> supplies the dimensions; \<open>rows\<close> are the
  row addresses of \<^verbatim>\<open>*w\<close>. \<^verbatim>\<open>findEmpty\<close> and \<^verbatim>\<open>isSafe\<close> only read, through these addresses.
\<close>

function backtrack_s :: "Grid \<Rightarrow> nat list \<Rightarrow> store \<Rightarrow> rng \<Rightarrow> (bool \<times> store \<times> rng) option"
  and backtrack_loop_s ::
    "Grid \<Rightarrow> nat \<Rightarrow> nat \<Rightarrow> int list \<Rightarrow> nat list \<Rightarrow> store \<Rightarrow> rng \<Rightarrow> (bool \<times> store \<times> rng) option" where
  "backtrack_s g rows h rnd =
     (case Grid_findEmpty g (g\<lparr>Cells := deref h rows\<rparr>) of
        None \<Rightarrow> None
      | Some (r, c, ok) \<Rightarrow>
          if \<not> ok then Some (True, h, rnd)
          else
            (case Shuffle (map (\<lambda>i. int i + 1) [0..<nat (Size g)]) rnd of
               (vals, rnd') \<Rightarrow> backtrack_loop_s g r c vals rows h rnd'))"
| "backtrack_loop_s g r c [] rows h rnd = Some (False, h, rnd)"
| "backtrack_loop_s g r c (v # vs) rows h rnd =
     (case Grid_isSafe g (g\<lparr>Cells := deref h rows\<rparr>) r c v of
        None \<Rightarrow> None
      | Some False \<Rightarrow> backtrack_loop_s g r c vs rows h rnd
      | Some True \<Rightarrow>
          (case store_cell h rows r c v of
             None \<Rightarrow> None
           | Some h1 \<Rightarrow>
               (case backtrack_s g rows h1 rnd of
                  None \<Rightarrow> None
                | Some (True, h', rnd') \<Rightarrow> Some (True, h', rnd')
                | Some (False, h', rnd') \<Rightarrow>
                    (case store_cell h' rows r c 0 of
                       None \<Rightarrow> None
                     | Some h2 \<Rightarrow> backtrack_loop_s g r c vs rows h2 rnd'))))"
  by pat_completeness auto

lemma store_cell_Some:
  "store_cell h rows r c v = Some h' \<longleftrightarrow>
     r < length rows \<and> rows ! r < length h \<and> c < length (h ! (rows ! r)) \<and> h' = upd h (rows ! r) c v"
  by (auto simp: store_cell_def set_cell_Some)

lemma findEmpty_s_found:
  assumes "Grid_findEmpty g (g\<lparr>Cells := deref h rows\<rparr>) = Some (r, c, True)"
  shows "upd h (rows ! r) c 0 = h"
proof -
  from Grid_findEmpty_found[OF assms] have "cell (deref h rows) r c = Some 0" by simp
  then have r: "r < length rows" and c: "c < length (h ! (rows ! r))" and z: "h ! (rows ! r) ! c = 0"
    by (auto simp: cell_Some deref_def)
  from c z have "(h ! (rows ! r))[c := 0] = h ! (rows ! r)" by (metis list_update_id)
  then show ?thesis by (simp add: upd_def)
qed

lemma backtrack_s_fail_restores:
  "backtrack_s_backtrack_loop_s_dom (Inl (g, rows, h, rnd)) \<Longrightarrow>
     backtrack_s g rows h rnd = Some (False, h', rnd') \<Longrightarrow> h' = h"
  "backtrack_s_backtrack_loop_s_dom (Inr (g, r, c, vs, rows, h, rnd)) \<Longrightarrow>
     backtrack_loop_s g r c vs rows h rnd = Some (False, h', rnd') \<Longrightarrow>
     h' = h \<or> h' = upd h (rows ! r) c 0"
proof (induct g rows h rnd and g r c vs rows h rnd arbitrary: h' rnd' and h' rnd'
       rule: backtrack_s_backtrack_loop_s.pinduct)
  case (1 g rows h rnd)
  from "1.prems" "1.hyps"(1) obtain r c vals rnd1 where
    fe: "Grid_findEmpty g (g\<lparr>Cells := deref h rows\<rparr>) = Some (r, c, True)" and
    sh: "Shuffle (map (\<lambda>i. int i + 1) [0..<nat (Size g)]) rnd = (vals, rnd1)" and
    lp: "backtrack_loop_s g r c vals rows h rnd1 = Some (False, h', rnd')"
    by (auto simp: backtrack_s.psimps split: option.splits if_splits prod.splits)
  from "1.hyps"(2)[OF fe refl refl _ sh[symmetric] lp]
  have "h' = h \<or> h' = upd h (rows ! r) c 0" by simp
  with findEmpty_s_found[OF fe] show ?case by auto
next
  case (2 g r c rows h rnd)
  then show ?case by (simp add: backtrack_loop_s.psimps)
next
  case (3 g r c v vs rows h rnd)
  let ?w = "g\<lparr>Cells := deref h rows\<rparr>"
  show ?case
  proof (cases "Grid_isSafe g ?w r c v")
    case None
    with "3.prems" "3.hyps"(1) show ?thesis by (simp add: backtrack_loop_s.psimps)
  next
    case (Some b)
    show ?thesis
    proof (cases b)
      case False
      with Some "3.prems" "3.hyps"(1)
      have "backtrack_loop_s g r c vs rows h rnd = Some (False, h', rnd')"
        by (simp add: backtrack_loop_s.psimps)
      from "3.hyps"(4)[OF _ _ this] Some False show ?thesis by simp
    next
      case True
      with Some "3.prems" "3.hyps"(1) obtain h1 h2 rnd2 h3 where
        sc: "store_cell h rows r c v = Some h1" and
        bt: "backtrack_s g rows h1 rnd = Some (False, h2, rnd2)" and
        sc': "store_cell h2 rows r c 0 = Some h3" and
        lp: "backtrack_loop_s g r c vs rows h3 rnd2 = Some (False, h', rnd')"
        by (auto simp: backtrack_loop_s.psimps split: option.splits bool.splits)
      from Some True have s: "Grid_isSafe g ?w r c v = Some True" by simp
      from "3.hyps"(2)[OF s refl sc bt] have h2: "h2 = h1" .
      from sc have h1: "h1 = upd h (rows ! r) c v" by (simp add: store_cell_Some)
      from sc' h2 h1 have h3: "h3 = upd h (rows ! r) c 0" by (simp add: store_cell_Some upd_upd)
      from "3.hyps"(3)[OF s refl sc bt refl refl refl sc' lp]
      show ?thesis by (auto simp: h3 upd_upd)
    qed
  qed
qed

definition store_measure ::
  "(Grid \<times> nat list \<times> store \<times> rng) + (Grid \<times> nat \<times> nat \<times> int list \<times> nat list \<times> store \<times> rng)
     \<Rightarrow> nat \<times> nat" where
  "store_measure x =
     (case x of
        Inl (g, rows, h, rnd) \<Rightarrow> (2 * zeros h + 2, 0)
      | Inr (g, r, c, vs, rows, h, rnd) \<Rightarrow>
          (2 * (zeros (upd h (rows ! r) c 0) + count_list vs 0) + 1, length vs))"

termination backtrack_s
proof (relation "inv_image (less_than <*lex*> less_than) store_measure", goal_cases)
  case 1
  show ?case by auto
next
  case (2 g rows h rnd x2 x y xa ya xb yb)
  then have fe: "Grid_findEmpty g (g\<lparr>Cells := deref h rows\<rparr>) = Some (x, xa, True)" by auto
  from 2 have "set xb = set (map (\<lambda>i. int i + 1) [0..<nat (Size g)])" by (metis Shuffle_set)
  moreover have "0 \<notin> set (map (\<lambda>i. int i + 1) [0..<nat (Size g)])" by auto
  ultimately have "0 \<notin> set xb" by simp
  then have "count_list xb 0 = 0" by (metis count_list_0_iff)
  with findEmpty_s_found[OF fe] show ?case by (simp add: store_measure_def)
next
  case (3 g r c v vs rows h rnd x2 x2a)
  from 3(3) have "set_cell h (rows ! r) c v = Some x2a" by (simp add: store_cell_def split: if_splits)
  from zeros_set_cell_lt[OF this] show ?case by (simp add: store_measure_def)
next
  case (4 g r c v vs rows h rnd x2 x2a x2b x y xa ya x2c)
  from 4 have bt: "backtrack_s g rows x2a rnd = Some (False, xa, ya)" by auto
  from backtrack_s_fail_restores(1)[OF 4(9) bt] have xa: "xa = x2a" .
  from 4(3) have "x2a = upd h (rows ! r) c v" by (simp add: store_cell_Some)
  with 4(8) xa have "x2c = upd h (rows ! r) c 0" by (simp add: store_cell_Some upd_upd)
  then show ?case by (simp add: store_measure_def upd_upd)
next
  case (5 g r c v vs rows h rnd x2)
  show ?case by (simp add: store_measure_def)
qed

declare backtrack_s.simps [simp del]

definition Solve_s :: "GridRef \<Rightarrow> store \<Rightarrow> rng \<Rightarrow> (((GridRef \<times> bool) \<times> store) \<times> rng) option" where
  "Solve_s g h rnd =
     (case Clone_s g h of
        None \<Rightarrow> None
      | Some (work, h1) \<Rightarrow>
          (case backtrack_s (view h1 g) (RCells work) h1 rnd of
             None \<Rightarrow> None
           | Some (False, h2, rnd') \<Rightarrow> Some (((zeroRef, False), h2), rnd')
           | Some (True, h2, rnd') \<Rightarrow> Some (((work, True), h2), rnd')))"

subsection \<open>What a call may write\<close>

definition frame :: "nat list \<Rightarrow> store \<Rightarrow> store \<Rightarrow> bool" where
  "frame rows h h' = (length h' = length h \<and> (\<forall>a. a \<notin> set rows \<longrightarrow> h' ! a = h ! a))"

lemma frame_refl: "frame rows h h"
  by (simp add: frame_def)

lemma frame_trans: "frame rows h h1 \<Longrightarrow> frame rows h1 h2 \<Longrightarrow> frame rows h h2"
  by (simp add: frame_def)

lemma frame_update: "r < length rows \<Longrightarrow> frame rows h (h[rows ! r := x])"
proof -
  assume r: "r < length rows"
  have "\<And>a. a \<notin> set rows \<Longrightarrow> h[rows ! r := x] ! a = h ! a"
  proof -
    fix a assume "a \<notin> set rows"
    with r have "a \<noteq> rows ! r" by (metis nth_mem)
    then show "h[rows ! r := x] ! a = h ! a" by simp
  qed
  then show ?thesis by (simp add: frame_def)
qed

lemma store_cell_frame: "store_cell h rows r c v = Some h' \<Longrightarrow> frame rows h h'"
  by (auto simp: store_cell_Some upd_def frame_update)

lemma backtrack_s_frame:
  "\<forall>ok h' rnd'. backtrack_s g rows h rnd = Some (ok, h', rnd') \<longrightarrow> frame rows h h'"
  "\<forall>ok h' rnd'. backtrack_loop_s g r c vs rows h rnd = Some (ok, h', rnd') \<longrightarrow> frame rows h h'"
proof (induct g rows h rnd and g r c vs rows h rnd rule: backtrack_s_backtrack_loop_s.induct)
  case (1 g rows h rnd)
  show ?case
  proof (intro allI impI)
    fix ok h' rnd'
    assume run: "backtrack_s g rows h rnd = Some (ok, h', rnd')"
    show "frame rows h h'"
    proof (cases "Grid_findEmpty g (g\<lparr>Cells := deref h rows\<rparr>)")
      case None
      with run show ?thesis by (simp add: backtrack_s.simps)
    next
      case (Some t)
      obtain r c e where t: "t = (r, c, e)" by (cases t) auto
      show ?thesis
      proof (cases e)
        case False
        with Some t run show ?thesis by (simp add: backtrack_s.simps frame_refl)
      next
        case True
        obtain vals rnd1 where sh: "Shuffle (map (\<lambda>i. int i + 1) [0..<nat (Size g)]) rnd = (vals, rnd1)"
          by (cases "Shuffle (map (\<lambda>i. int i + 1) [0..<nat (Size g)]) rnd")
        from Some t True have fe: "Grid_findEmpty g (g\<lparr>Cells := deref h rows\<rparr>) = Some (r, c, True)"
          by simp
        from run fe sh have "backtrack_loop_s g r c vals rows h rnd1 = Some (ok, h', rnd')"
          by (simp add: backtrack_s.simps)
        with "1.hyps"[OF fe refl refl _ sh[symmetric]] show ?thesis by simp
      qed
    qed
  qed
next
  case (2 g r c rows h rnd)
  show ?case by (simp add: frame_refl)
next
  case (3 g r c v vs rows h rnd)
  let ?w = "g\<lparr>Cells := deref h rows\<rparr>"
  show ?case
  proof (intro allI impI)
    fix ok h' rnd'
    assume run: "backtrack_loop_s g r c (v # vs) rows h rnd = Some (ok, h', rnd')"
    show "frame rows h h'"
    proof (cases "Grid_isSafe g ?w r c v")
      case None
      with run show ?thesis by simp
    next
      case (Some b)
      show ?thesis
      proof (cases b)
        case False
        with Some have s: "Grid_isSafe g ?w r c v = Some False" by simp
        with run have "backtrack_loop_s g r c vs rows h rnd = Some (ok, h', rnd')" by simp
        with "3.hyps"(3)[OF s refl] show ?thesis by simp
      next
        case True
        with Some have s: "Grid_isSafe g ?w r c v = Some True" by simp
        show ?thesis
        proof (cases "store_cell h rows r c v")
          case None
          with run s show ?thesis by simp
        next
          case sc: (Some h1)
          note f1 = store_cell_frame[OF sc]
          show ?thesis
          proof (cases "backtrack_s g rows h1 rnd")
            case None
            with run s sc show ?thesis by simp
          next
            case res: (Some t)
            obtain e h2 rnd2 where t: "t = (e, h2, rnd2)" by (cases t) auto
            from "3.hyps"(1)[OF s refl sc] res t have f2: "frame rows h1 h2" by simp
            show ?thesis
            proof (cases e)
              case True
              with run s sc res t have "h' = h2" by simp
              with frame_trans[OF f1 f2] show ?thesis by simp
            next
              case False
              with res t have bt: "backtrack_s g rows h1 rnd = Some (False, h2, rnd2)" by simp
              show ?thesis
              proof (cases "store_cell h2 rows r c 0")
                case None
                with run s sc bt show ?thesis by simp
              next
                case sc2: (Some h3)
                note f3 = store_cell_frame[OF sc2]
                from run s sc bt sc2
                have "backtrack_loop_s g r c vs rows h3 rnd2 = Some (ok, h', rnd')" by simp
                with "3.hyps"(2)[OF s refl sc bt refl refl refl sc2] have "frame rows h3 h'" by simp
                with frame_trans[OF frame_trans[OF f1 f2] f3] show ?thesis by (rule frame_trans)
              qed
            qed
          qed
        qed
      qed
    qed
  qed
qed

lemma clone_rows_s_frame: "clone_rows_s out src rs h = Some h' \<Longrightarrow> frame out h h'"
proof (induction rs arbitrary: h)
  case Nil
  then show ?case by (simp add: frame_refl)
next
  case (Cons r rs)
  from Cons.prems have r: "r < length out" "r < length src"
    and run: "clone_rows_s out src rs (h[out ! r := copy_row (h ! (out ! r)) (h ! (src ! r))]) = Some h'"
    by (simp_all split: if_splits)
  from frame_update[OF r(1)] Cons.IH[OF run] show ?case by (rule frame_trans)
qed

lemma Clone_s_frame:
  assumes "Clone_s g h = Some (work, h')"
  shows "length h \<le> length h'" "\<forall>a<length h. h' ! a = h ! a"
    "\<forall>a\<in>set (RCells work). length h \<le> a"
proof -
  obtain res h1 where ng: "NewGrid_s (RSize g) (RBoxRows g) (RBoxCols g) h = (res, h1)"
    by (cases "NewGrid_s (RSize g) (RBoxRows g) (RBoxCols g) h")
  let ?out = "case res of Inl e \<Rightarrow> zeroRef | Inr x \<Rightarrow> x"
  from assms ng have w: "work = ?out"
    and cl: "clone_rows_s (RCells ?out) (RCells g) [0..<nat (RSize g)] h1 = Some h'"
    by (auto simp: Clone_s_def Let_def split: option.splits)
  from clone_rows_s_frame[OF cl] have f: "frame (RCells work) h1 h'" by (simp add: w)
  from ng have h1: "length h \<le> length h1" "\<forall>a<length h. h1 ! a = h ! a"
    and fresh: "\<forall>a\<in>set (RCells work). length h \<le> a"
    by (auto simp: NewGrid_s_def w zeroRef_def nth_append split: if_splits)
  show "\<forall>a\<in>set (RCells work). length h \<le> a" by (rule fresh)
  show "length h \<le> length h'" using f h1(1) by (simp add: frame_def)
  show "\<forall>a<length h. h' ! a = h ! a"
  proof (intro allI impI)
    fix a assume a: "a < length h"
    with fresh have "a \<notin> set (RCells work)" by auto
    with f have "h' ! a = h1 ! a" by (simp add: frame_def)
    with h1(2) a show "h' ! a = h ! a" by simp
  qed
qed

lemma Solve_s_frame:
  assumes "Solve_s g h rnd = Some (((res, ok), h'), rnd')"
  shows "length h \<le> length h'" "\<forall>a<length h. h' ! a = h ! a"
proof -
  from assms obtain work h1 e where cl: "Clone_s g h = Some (work, h1)"
    and bt: "backtrack_s (view h1 g) (RCells work) h1 rnd = Some (e, h', rnd')"
    by (auto simp: Solve_s_def split: option.splits bool.splits)
  from backtrack_s_frame(1)[of "view h1 g" "RCells work" h1 rnd] bt
  have f: "frame (RCells work) h1 h'" by simp
  note c = Clone_s_frame[OF cl]
  show "length h \<le> length h'" using f c(1) by (simp add: frame_def)
  show "\<forall>a<length h. h' ! a = h ! a"
  proof (intro allI impI)
    fix a assume a: "a < length h"
    with c(3) have "a \<notin> set (RCells work)" by auto
    with f have "h' ! a = h1 ! a" by (simp add: frame_def)
    with c(2) a show "h' ! a = h ! a" by simp
  qed
qed

subsection \<open>The store-level search computes what the search on values computes\<close>

definition valid_rows :: "store \<Rightarrow> nat list \<Rightarrow> bool" where
  "valid_rows h rows = (distinct rows \<and> (\<forall>a\<in>set rows. a < length h))"

lemma valid_rows_frame: "valid_rows h rows \<Longrightarrow> frame rs h h' \<Longrightarrow> valid_rows h' rows"
  by (simp add: valid_rows_def frame_def)

lemma deref_update:
  assumes v: "valid_rows h rows" and r: "r < length rows"
  shows "deref (h[rows ! r := x]) rows = (deref h rows)[r := x]"
proof (rule nth_equalityI)
  show "length (deref (h[rows ! r := x]) rows) = length ((deref h rows)[r := x])"
    by (simp add: deref_def)
next
  fix i assume "i < length (deref (h[rows ! r := x]) rows)"
  then have i: "i < length rows" by (simp add: deref_def)
  from v r have a: "rows ! r < length h" by (simp add: valid_rows_def)
  show "deref (h[rows ! r := x]) rows ! i = (deref h rows)[r := x] ! i"
  proof (cases "i = r")
    case True
    with i a show ?thesis by (simp add: deref_def)
  next
    case False
    with v i r have "rows ! i \<noteq> rows ! r" by (simp add: valid_rows_def nth_eq_iff_index_eq)
    with False i show ?thesis by (simp add: deref_def)
  qed
qed

lemma store_cell_sim:
  assumes v: "valid_rows h rows"
  shows "map_option (\<lambda>h'. deref h' rows) (store_cell h rows r c x) = set_cell (deref h rows) r c x"
proof (cases "r < length rows")
  case False
  then show ?thesis by (simp add: store_cell_def set_cell_def deref_def)
next
  case True
  with v have a: "rows ! r < length h" by (simp add: valid_rows_def)
  have row: "deref h rows ! r = h ! (rows ! r)" using True by (simp add: deref_def)
  have len: "length (deref h rows) = length rows" by (simp add: deref_def)
  show ?thesis
    using True a deref_update[OF v True, of "(h ! (rows ! r))[c := x]"]
    by (simp add: store_cell_def set_cell_def row len)
qed

lemma store_cell_None:
  "valid_rows h rows \<Longrightarrow> store_cell h rows r c x = None \<Longrightarrow> set_cell (deref h rows) r c x = None"
  using store_cell_sim[of h rows r c x] by simp

lemma store_cell_Some_sim:
  "valid_rows h rows \<Longrightarrow> store_cell h rows r c x = Some h1 \<Longrightarrow>
   set_cell (deref h rows) r c x = Some (deref h1 rows)"
  using store_cell_sim[of h rows r c x] by simp

definition lift_s ::
  "Grid \<Rightarrow> nat list \<Rightarrow> (bool \<times> store \<times> rng) option \<Rightarrow> (bool \<times> Grid \<times> rng) option" where
  "lift_s w rows res = map_option (\<lambda>(ok, h', rnd'). (ok, w\<lparr>Cells := deref h' rows\<rparr>, rnd')) res"

lemma lift_s_simps [simp]:
  "lift_s w rows None = None"
  "lift_s w rows (Some (ok, h', rnd')) = Some (ok, w\<lparr>Cells := deref h' rows\<rparr>, rnd')"
  by (simp_all add: lift_s_def)

lemma lift_s_Cells [simp]: "lift_s (w\<lparr>Cells := cs\<rparr>) rows res = lift_s w rows res"
  by (cases res) (auto simp: lift_s_def)

lemma findEmpty_Cells: "Cells w = cs \<Longrightarrow> Grid_findEmpty g (g\<lparr>Cells := cs\<rparr>) = Grid_findEmpty g w"
  by (simp add: Grid_findEmpty_def)

lemma isSafe_Cells: "Cells w = cs \<Longrightarrow> Grid_isSafe g (g\<lparr>Cells := cs\<rparr>) r c v = Grid_isSafe g w r c v"
  by (simp add: Grid_isSafe_def Let_def split: option.splits bool.splits)

lemma backtrack_s_sim:
  "\<forall>w::Grid. valid_rows h rows \<longrightarrow> Cells w = deref h rows \<longrightarrow>
       Grid_backtrack g w rnd = lift_s w rows (backtrack_s g rows h rnd)"
  "\<forall>w::Grid. valid_rows h rows \<longrightarrow> Cells w = deref h rows \<longrightarrow>
       Grid_backtrack_loop g r c vs w rnd = lift_s w rows (backtrack_loop_s g r c vs rows h rnd)"
proof (induct g rows h rnd and g r c vs rows h rnd rule: backtrack_s_backtrack_loop_s.induct)
  case (1 g rows h rnd)
  show ?case
  proof (intro allI impI)
    fix w :: Grid assume v: "valid_rows h rows" and w: "Cells w = deref h rows"
    note fe_eq = findEmpty_Cells[OF w, of g]
    have ww: "w\<lparr>Cells := deref h rows\<rparr> = w" using w by (metis Grid.surjective Grid.update_convs(4))
    show "Grid_backtrack g w rnd = lift_s w rows (backtrack_s g rows h rnd)"
    proof (cases "Grid_findEmpty g w")
      case None
      then show ?thesis by (simp add: Grid_backtrack.simps backtrack_s.simps fe_eq)
    next
      case (Some t)
      obtain r c e where t: "t = (r, c, e)" by (cases t) auto
      show ?thesis
      proof (cases e)
        case False
        with Some t show ?thesis by (simp add: Grid_backtrack.simps backtrack_s.simps fe_eq ww)
      next
        case True
        obtain vals rnd1 where sh: "Shuffle (map (\<lambda>i. int i + 1) [0..<nat (Size g)]) rnd = (vals, rnd1)"
          by (cases "Shuffle (map (\<lambda>i. int i + 1) [0..<nat (Size g)]) rnd")
        from Some t True have fe: "Grid_findEmpty g (g\<lparr>Cells := deref h rows\<rparr>) = Some (r, c, True)"
          by (simp add: fe_eq)
        from "1.hyps"[OF fe refl refl _ sh[symmetric]] v w
        have "Grid_backtrack_loop g r c vals w rnd1 = lift_s w rows (backtrack_loop_s g r c vals rows h rnd1)"
          by simp
        with fe sh show ?thesis
          by (simp add: Grid_backtrack.simps backtrack_s.simps fe_eq[symmetric])
      qed
    qed
  qed
next
  case (2 g r c rows h rnd)
  show ?case
  proof (intro allI impI)
    fix w :: Grid assume w: "Cells w = deref h rows"
    have ww: "w\<lparr>Cells := deref h rows\<rparr> = w" using w by (metis Grid.surjective Grid.update_convs(4))
    show "Grid_backtrack_loop g r c [] w rnd = lift_s w rows (backtrack_loop_s g r c [] rows h rnd)"
      by (simp add: ww)
  qed
next
  case (3 g r c v vs rows h rnd)
  let ?w = "g\<lparr>Cells := deref h rows\<rparr>"
  show ?case
  proof (intro allI impI)
    fix w :: Grid assume vr: "valid_rows h rows" and w: "Cells w = deref h rows"
    note safe = isSafe_Cells[OF w, of g r c v]
    show "Grid_backtrack_loop g r c (v # vs) w rnd =
          lift_s w rows (backtrack_loop_s g r c (v # vs) rows h rnd)"
    proof (cases "Grid_isSafe g ?w r c v")
      case None
      then show ?thesis by (simp add: safe[symmetric])
    next
      case (Some b)
      show ?thesis
      proof (cases b)
        case False
        with Some have s: "Grid_isSafe g ?w r c v = Some False" by simp
        from "3.hyps"(3)[OF s refl] vr w s show ?thesis by (simp add: safe[symmetric])
      next
        case True
        with Some have s: "Grid_isSafe g ?w r c v = Some True" by simp
        show ?thesis
        proof (cases "store_cell h rows r c v")
          case None
          with s store_cell_None[OF vr None] show ?thesis by (simp add: safe[symmetric] w)
        next
          case sc: (Some h1)
          note p1 = store_cell_Some_sim[OF vr sc]
          note v1 = valid_rows_frame[OF vr store_cell_frame[OF sc]]
          from "3.hyps"(1)[OF s refl sc] v1
          have rec: "Grid_backtrack g (w\<lparr>Cells := deref h1 rows\<rparr>) rnd =
                     lift_s w rows (backtrack_s g rows h1 rnd)" by simp
          show ?thesis
          proof (cases "backtrack_s g rows h1 rnd")
            case None
            with s sc p1 rec show ?thesis by (simp add: safe[symmetric] w)
          next
            case res: (Some t)
            obtain e h2 rnd2 where t: "t = (e, h2, rnd2)" by (cases t) auto
            show ?thesis
            proof (cases e)
              case True
              with s sc p1 rec res t show ?thesis by (simp add: safe[symmetric] w)
            next
              case False
              with res t have bt: "backtrack_s g rows h1 rnd = Some (False, h2, rnd2)" by simp
              from backtrack_s_frame(1)[of g rows h1 rnd, rule_format, OF bt]
              have "frame rows h1 h2" .
              note v2 = valid_rows_frame[OF v1 this]
              show ?thesis
              proof (cases "store_cell h2 rows r c 0")
                case None
                with s sc p1 rec bt store_cell_None[OF v2 None] show ?thesis
                  by (simp add: safe[symmetric] w)
              next
                case sc2: (Some h3)
                note p3 = store_cell_Some_sim[OF v2 sc2]
                note v3 = valid_rows_frame[OF v2 store_cell_frame[OF sc2]]
                from "3.hyps"(2)[OF s refl sc bt refl refl refl sc2] v3
                have "Grid_backtrack_loop g r c vs (w\<lparr>Cells := deref h3 rows\<rparr>) rnd2 =
                      lift_s w rows (backtrack_loop_s g r c vs rows h3 rnd2)"
                  by simp
                with s sc p1 rec bt sc2 p3 show ?thesis by (simp add: safe[symmetric] w)
              qed
            qed
          qed
        qed
      qed
    qed
  qed
qed

subsection \<open>Clone and Solve on the store\<close>

lemma deref_frame: "frame out h h' \<Longrightarrow> set out \<inter> set rows = {} \<Longrightarrow> deref h' rows = deref h rows"
  by (auto simp: deref_def frame_def)

lemma deref_unchanged: "\<forall>a<length h. h' ! a = h ! a \<Longrightarrow> \<forall>a\<in>set rows. a < length h \<Longrightarrow> deref h' rows = deref h rows"
  by (simp add: deref_def)

lemma view_unchanged:
  "\<forall>a<length h. h' ! a = h ! a \<Longrightarrow> \<forall>a\<in>set (RCells g). a < length h \<Longrightarrow> view h' g = view h g"
  by (simp add: view_def deref_unchanged)

lemma clone_rows_s_sim:
  "valid_rows h out \<Longrightarrow> set out \<inter> set src = {} \<Longrightarrow>
   map_option (\<lambda>h'. deref h' out) (clone_rows_s out src rs h) =
     clone_rows (deref h out) (deref h src) rs"
proof (induction rs arbitrary: h)
  case Nil
  show ?case by simp
next
  case (Cons r rs)
  have len: "length (deref h out) = length out" "length (deref h src) = length src"
    by (simp_all add: deref_def)
  show ?case
  proof (cases "r < length out \<and> r < length src")
    case False
    then show ?thesis by (auto simp: len)
  next
    case True
    let ?x = "copy_row (h ! (out ! r)) (h ! (src ! r))"
    let ?h1 = "h[out ! r := ?x]"
    from True have r: "r < length out" "r < length src" by simp_all
    have f: "frame out h ?h1" by (rule frame_update[OF r(1)])
    have v1: "valid_rows ?h1 out" by (rule valid_rows_frame[OF Cons.prems(1) f])
    have d1: "deref ?h1 out = (deref h out)[r := ?x]" by (rule deref_update[OF Cons.prems(1) r(1)])
    have d2: "deref ?h1 src = deref h src" by (rule deref_frame[OF f Cons.prems(2)])
    have rows: "deref h out ! r = h ! (out ! r)" "deref h src ! r = h ! (src ! r)"
      using r by (simp_all add: deref_def)
    from Cons.IH[OF v1 Cons.prems(2)] show ?thesis
      using True by (simp add: len d1 d2 rows)
  qed
qed

lemma Clone_s_wf:
  assumes v: "valid_rows h (RCells g)" and wf: "wf_grid (view h g)"
  shows "\<exists>work h1. Clone_s g h = Some (work, h1) \<and> valid_rows h1 (RCells work) \<and>
           view h1 work = view h g"
proof -
  let ?n = "nat (RSize g)"
  let ?out = "\<lparr>RSize = RSize g, RBoxRows = RBoxRows g, RBoxCols = RBoxCols g,
               RCells = [length h..<length h + ?n]\<rparr>"
  let ?new = "replicate ?n (replicate ?n (0::int))"
  let ?h1 = "h @ ?new"
  from wf have d: "wf_dims (view h g)" and sq: "square ?n (deref h (RCells g))"
    by (simp_all add: wf_grid_def view_def)
  from d have dims: "0 < RSize g" "0 < RBoxRows g" "0 < RBoxCols g"
    "RSize g = RBoxRows g * RBoxCols g" "RSize g \<le> MaxGridSize"
    by (simp_all add: wf_dims_def view_def)
  have i64: "int64 (RBoxRows g * RBoxCols g) = RSize g"
    using dims by (simp add: int64_small MaxGridSize_def)
  have ng: "NewGrid_s (RSize g) (RBoxRows g) (RBoxCols g) h = (Inr ?out, ?h1)"
    using dims(1,2,3,5) i64 by (simp add: NewGrid_s_def)
  have vo: "valid_rows ?h1 (RCells ?out)" by (simp add: valid_rows_def)
  have disj: "set (RCells ?out) \<inter> set (RCells g) = {}"
    using v by (auto simp: valid_rows_def)
  have do: "deref ?h1 (RCells ?out) = ?new"
    by (intro nth_equalityI) (simp_all add: deref_def nth_append)
  have ds: "deref ?h1 (RCells g) = deref h (RCells g)"
    using v by (simp add: deref_def valid_rows_def nth_append)
  have "clone_rows ?new (deref h (RCells g)) [0..<?n] = Some (deref h (RCells g))"
    using sq by (intro clone_rows_from[where n = ?n]) (auto simp: square_def)
  with clone_rows_s_sim[OF vo disj, of "[0..<?n]"]
  have "map_option (\<lambda>h'. deref h' (RCells ?out)) (clone_rows_s (RCells ?out) (RCells g) [0..<?n] ?h1) =
        Some (deref h (RCells g))"
    by (simp only: do ds)
  then obtain h2 where cl: "clone_rows_s (RCells ?out) (RCells g) [0..<?n] ?h1 = Some h2"
    and d2: "deref h2 (RCells ?out) = deref h (RCells g)" by auto
  have c: "Clone_s g h = Some (?out, h2)" using ng cl by (simp add: Clone_s_def)
  have v2: "valid_rows h2 (RCells ?out)"
    by (rule valid_rows_frame[OF vo clone_rows_s_frame[OF cl]])
  have "view h2 ?out = view h g" using d2 by (simp add: view_def)
  with c v2 show ?thesis by blast
qed

lemma Solve_s_sim:
  assumes v: "valid_rows h (RCells g)" and wf: "wf_grid (view h g)"
  shows "\<exists>res ok h' rnd'. Solve_s g h rnd = Some (((res, ok), h'), rnd') \<and>
           Grid_Solve (view h g) rnd = Some ((view h' res, ok), rnd')"
proof -
  from Clone_s_wf[OF v wf] obtain work h1 where cl: "Clone_s g h = Some (work, h1)"
    and v1: "valid_rows h1 (RCells work)" and vw: "view h1 work = view h g" by blast
  from v have alloc: "\<forall>a\<in>set (RCells g). a < length h" by (simp add: valid_rows_def)
  have vg: "view h1 g = view h g" by (rule view_unchanged[OF Clone_s_frame(2)[OF cl] alloc])
  from vw have cw: "Cells (view h g) = deref h1 (RCells work)" by (simp add: view_def)
  from backtrack_s_sim(1)[of h1 "RCells work" "view h g" rnd, rule_format, OF v1 cw]
  have sim: "Grid_backtrack (view h g) (view h g) rnd =
             lift_s (view h g) (RCells work) (backtrack_s (view h g) (RCells work) h1 rnd)" .
  have dw: "\<And>h'. (view h g)\<lparr>Cells := deref h' (RCells work)\<rparr> = view h' work"
    using vw by (simp add: view_def)
  have z: "\<And>h'. view h' zeroRef = zeroGrid" by (simp add: view_def zeroRef_def zeroGrid_def deref_def)
  show ?thesis
  proof (cases "backtrack_s (view h g) (RCells work) h1 rnd")
    case None
    with sim have "Grid_backtrack (view h g) (view h g) rnd = None" by simp
    with Grid_backtrack_spec(1)[of "view h g" "view h g" rnd] wf show ?thesis
      by (auto simp: wf_grid_def gsize_def)
  next
    case (Some t)
    obtain ok h' rnd' where t: "t = (ok, h', rnd')" by (cases t) auto
    from Some t sim have p: "Grid_backtrack (view h g) (view h g) rnd = Some (ok, view h' work, rnd')"
      by (simp add: dw)
    show ?thesis
    proof (cases ok)
      case True
      with Some t cl vg have "Solve_s g h rnd = Some (((work, True), h'), rnd')"
        by (simp add: Solve_s_def)
      moreover from True p have "Grid_Solve (view h g) rnd = Some ((view h' work, True), rnd')"
        by (simp add: Grid_Solve_def Grid_Clone_wf[OF wf])
      ultimately show ?thesis by blast
    next
      case False
      with Some t cl vg have "Solve_s g h rnd = Some (((zeroRef, False), h'), rnd')"
        by (simp add: Solve_s_def)
      moreover from False p have "Grid_Solve (view h g) rnd = Some ((view h' zeroRef, False), rnd')"
        by (simp add: Grid_Solve_def Grid_Clone_wf[OF wf] z)
      ultimately show ?thesis by blast
    qed
  qed
qed

lemma Solve_s_fresh:
  assumes "Solve_s g h rnd = Some (((res, ok), h'), rnd')"
  shows "\<forall>a\<in>set (RCells res). length h \<le> a"
proof -
  from assms obtain work h1 where cl: "Clone_s g h = Some (work, h1)"
    and r: "res = work \<or> res = zeroRef"
    by (auto simp: Solve_s_def split: option.splits bool.splits)
  from r Clone_s_frame(3)[OF cl] show ?thesis by (auto simp: zeroRef_def)
qed

definition ref2 :: GridRef where
  "ref2 = \<lparr>RSize = 2, RBoxRows = 1, RBoxCols = 2, RCells = [0, 1]\<rparr>"

definition work2 :: GridRef where
  "work2 = \<lparr>RSize = 2, RBoxRows = 1, RBoxCols = 2, RCells = [2, 3]\<rparr>"

definition store2 :: store where
  "store2 = [[1, 0], [0, 0]]"

definition stuck2 :: store where
  "stuck2 = [[1, 0], [1, 0]]"

section \<open>Claims\<close>

text \<open>
  C9. A grid without an empty cell is returned by \<^verbatim>\<open>Grid.Solve\<close> as it is, with
  \<open>ok = True\<close>: the search finds no empty cell and stops before any legality check, and the
  random source is not consulted. The rules of the game are never checked on this path: the
  2x2 grid \<open>ones2\<close>, filled with 1 everywhere, is rejected by \<^verbatim>\<open>Validate\<close> and still
  reported as solved.
\<close>

theorem C9_Solve_full_grid_unvalidated:
  "(wf_grid g \<and> no_empty (Cells g) \<longrightarrow> Grid_Solve g rnd = Some ((g, True), rnd)) \<and>
   Grid_Validate ones2 = Some (Inl ErrInvalidBoard) \<and>
   Grid_Solve ones2 rnd = Some ((ones2, True), rnd)"
proof -
  have wf: "wf_grid ones2"
    by (simp add: wf_grid_def wf_dims_def ones2_def square_def MaxGridSize_def)
  have full: "no_empty (Cells ones2)" by (simp add: no_empty_def ones2_def)
  have "Grid_Validate ones2 = Some (Inl ErrInvalidBoard)" by code_simp
  with Grid_Solve_full[OF wf full] Grid_Solve_full[of g] show ?thesis by blast
qed

theorem C9_Solve_full_grid_unvalidated_witness:
  "wf_grid ones2 \<and> no_empty (Cells ones2) \<and>
   Grid_Solve ones2 (\<lambda>k. 0) = Some ((ones2, True), \<lambda>k. 0)"
proof -
  have wf: "wf_grid ones2"
    by (simp add: wf_grid_def wf_dims_def ones2_def square_def MaxGridSize_def)
  have full: "no_empty (Cells ones2)" by (simp add: no_empty_def ones2_def)
  from C9_Solve_full_grid_unvalidated[of ones2 "\<lambda>k. 0"] wf full show ?thesis by blast
qed

text \<open>
  C10. On a grid without an empty cell that passes \<^verbatim>\<open>Validate\<close>, \<^verbatim>\<open>HintGrid\<close> returns
  \<open>(0, 0, 0, False)\<close>: the solver hands the grid back, and the scan for an empty cell finds
  none.
\<close>

theorem C10_Hint_full_grid:
  "wf_grid g \<Longrightarrow> no_empty (Cells g) \<Longrightarrow> Grid_Validate g = Some (Inr ()) \<Longrightarrow>
   HintGrid g rnd = Some ((0, 0, 0, False), rnd)"
  by (rule HintGrid_full)

theorem C10_Hint_full_grid_witness:
  "wf_grid solved2 \<and> no_empty (Cells solved2) \<and> Grid_Validate solved2 = Some (Inr ()) \<and>
   HintGrid solved2 (\<lambda>k. 0) = Some ((0, 0, 0, False), \<lambda>k. 0)"
proof -
  have wf: "wf_grid solved2"
    by (simp add: wf_grid_def wf_dims_def solved2_def square_def MaxGridSize_def)
  have full: "no_empty (Cells solved2)" by (simp add: no_empty_def solved2_def)
  have v: "Grid_Validate solved2 = Some (Inr ())" by code_simp
  from C10_Hint_full_grid[OF wf full v, of "\<lambda>k. 0"] wf full v show ?thesis by blast
qed

text \<open>
  C1. As stated, for every grid, the claim fails: \<^verbatim>\<open>Solve\<close> never validates its input,
  so the grid \<open>ones2\<close> (all cells 1) is returned with \<open>ok = True\<close> although \<^verbatim>\<open>Validate\<close>
  rejects it.
\<close>

theorem C1_Solve_invalid_input_counterexample:
  "wf_grid ones2 \<and> Grid_Solve ones2 zero_rng = Some ((ones2, True), zero_rng) \<and>
   Grid_Validate ones2 = Some (Inl ErrInvalidBoard)"
proof -
  have wf: "wf_grid ones2"
    by (simp add: wf_grid_def wf_dims_def ones2_def square_def MaxGridSize_def)
  have full: "no_empty (Cells ones2)" by (simp add: no_empty_def ones2_def)
  have "Grid_Validate ones2 = Some (Inl ErrInvalidBoard)" by code_simp
  with wf Grid_Solve_full[OF wf full] show ?thesis by simp
qed

text \<open>
  C1, amended. For every grid \<open>g\<close> that passes \<^verbatim>\<open>Validate\<close>: if \<^verbatim>\<open>Solve\<close> returns \<open>g'\<close>
  with \<open>ok = True\<close>, then \<open>g'\<close> passes \<^verbatim>\<open>Validate\<close>, has no empty cell, and agrees with
  \<open>g\<close> on every cell that is non-zero in \<open>g\<close>.
\<close>

theorem C1_Solve_sound_on_valid_grid:
  assumes wf: "wf_grid g" and v: "Grid_Validate g = Some (Inr ())"
    and s: "Grid_Solve g rnd = Some ((g', True), rnd')"
  shows "Grid_Validate g' = Some (Inr ()) \<and> no_empty (Cells g') \<and>
         (\<forall>r<gsize g. \<forall>c<gsize g. Cells g ! r ! c \<noteq> 0 \<longrightarrow> Cells g' ! r ! c = Cells g ! r ! c)"
proof -
  from Grid_Solve_spec[OF wf, of rnd] s obtain cs' where g': "g' = g\<lparr>Cells := cs'\<rparr>"
    and C: "completion g (Cells g) cs'" by auto
  from wf have d: "wf_dims g" and sq: "square (gsize g) (Cells g)"
    by (simp_all add: wf_grid_def gsize_def)
  have v': "Grid_Validate (g\<lparr>Cells := Cells g\<rparr>) = Some (Inr ())" using v by simp
  from C completion_Validate_iff[OF d sq v', of cs'] have "Grid_Validate g' = Some (Inr ())"
    by (simp add: g')
  moreover have "no_empty (Cells g')" using completion_no_empty[OF C] by (simp add: g')
  moreover have "\<forall>r<gsize g. \<forall>c<gsize g. Cells g ! r ! c \<noteq> 0 \<longrightarrow> Cells g' ! r ! c = Cells g ! r ! c"
    using completion_keeps[OF C] by (simp add: g')
  ultimately show ?thesis by simp
qed

theorem C1_Solve_sound_on_valid_grid_witness:
  "wf_grid puzzle4 \<and> Grid_Validate puzzle4 = Some (Inr ()) \<and>
   map_option fst (Grid_Solve puzzle4 zero_rng) = Some (solved4, True) \<and>
   Grid_Validate solved4 = Some (Inr ()) \<and> no_empty (Cells solved4) \<and>
   Cells solved4 ! 0 ! 3 = Cells puzzle4 ! 0 ! 3"
proof -
  have wf: "wf_grid puzzle4" by code_simp
  have v: "Grid_Validate puzzle4 = Some (Inr ())" by code_simp
  have s: "map_option fst (Grid_Solve puzzle4 zero_rng) = Some (solved4, True)" by code_simp
  then obtain rnd' where s': "Grid_Solve puzzle4 zero_rng = Some ((solved4, True), rnd')" by auto
  have n: "(0::nat) < gsize puzzle4" "(3::nat) < gsize puzzle4" "Cells puzzle4 ! 0 ! 3 \<noteq> 0"
    by (simp_all add: gsize_def puzzle4_def)
  from C1_Solve_sound_on_valid_grid[OF wf v s'] n wf v s show ?thesis by blast
qed

text \<open>
  C5. Whether \<^verbatim>\<open>Solve\<close> succeeds does not depend on the random source: for any two
  states of the source both runs return, with the same \<open>ok\<close> flag, and that flag says
  whether the grid has a completion at all. Only the choice among several completions
  follows the shuffled trial order.
\<close>

theorem C5_Solve_ok_independent_of_random_source:
  assumes wf: "wf_grid g"
  shows "\<exists>g1 g2 ok r1 r2.
           Grid_Solve g rnd1 = Some ((g1, ok), r1) \<and> Grid_Solve g rnd2 = Some ((g2, ok), r2) \<and>
           ok = (\<exists>cs'. completion g (Cells g) cs')"
proof (cases "\<exists>cs'. completion g (Cells g) cs'")
  case True
  with Grid_Solve_spec[OF wf, of rnd1] Grid_Solve_spec[OF wf, of rnd2] show ?thesis by blast
next
  case False
  with Grid_Solve_spec[OF wf, of rnd1] Grid_Solve_spec[OF wf, of rnd2] show ?thesis by blast
qed

theorem C5_Solve_ok_independent_of_random_source_witness:
  "wf_grid puzzle4 \<and>
   (\<exists>g1 g2 ok r1 r2.
      Grid_Solve puzzle4 zero_rng = Some ((g1, ok), r1) \<and>
      Grid_Solve puzzle4 count_rng = Some ((g2, ok), r2))"
proof -
  have wf: "wf_grid puzzle4" by code_simp
  from C5_Solve_ok_independent_of_random_source[OF wf, of zero_rng count_rng] wf
  show ?thesis by blast
qed

text \<open>
  C3. As stated, for every grid, the claim fails: the search never checks the given cells.
  On the 2x2 grid \<open>bad2\<close>, whose second row holds 2 twice, the only legal value for the one
  empty cell is 1, so the count ends at 1 and \<^verbatim>\<open>hasUniqueSolution\<close> returns true; but
  \<^verbatim>\<open>Validate\<close> rejects \<open>bad2\<close> and both ways of filling its empty cell with a value in
  range, so no complete legal assignment exists.
\<close>

theorem C3_invalid_grid_counterexample:
  "wf_grid bad2 \<and> Grid_hasUniqueSolution bad2 bad2 2 = Some True \<and>
   Grid_Validate bad2 = Some (Inl ErrInvalidBoard) \<and>
   Grid_Validate (bad2\<lparr>Cells := [[1, 2], [2, 2]]\<rparr>) = Some (Inl ErrInvalidBoard) \<and>
   Grid_Validate (bad2\<lparr>Cells := [[2, 2], [2, 2]]\<rparr>) = Some (Inl ErrInvalidBoard)"
proof -
  have "wf_grid bad2" by code_simp
  moreover have "Grid_hasUniqueSolution bad2 bad2 2 = Some True" by code_simp
  moreover have "Grid_Validate bad2 = Some (Inl ErrInvalidBoard)" by code_simp
  moreover have "Grid_Validate (bad2\<lparr>Cells := [[1, 2], [2, 2]]\<rparr>) = Some (Inl ErrInvalidBoard)"
    by code_simp
  moreover have "Grid_Validate (bad2\<lparr>Cells := [[2, 2], [2, 2]]\<rparr>) = Some (Inl ErrInvalidBoard)"
    by code_simp
  ultimately show ?thesis by simp
qed

text \<open>
  C3, amended. Let \<open>g\<close> supply the dimensions (the receiver) and let \<open>w\<close> be a grid of that
  size that passes \<^verbatim>\<open>Validate\<close>. Then \<^verbatim>\<open>hasUniqueSolution(w, 2)\<close> returns true exactly when
  exactly one full grid passes \<^verbatim>\<open>Validate\<close> and keeps every non-zero cell of \<open>w\<close>. The
  search runs on a copy equal to \<open>w\<close>, counts these grids and stops as soon as the count
  reaches the limit 2: the final count is their number capped at 2, the stop flag says
  whether the cap was reached, and the answer is whether the count equals 1. The legality
  test \<^verbatim>\<open>isSafe\<close> accepts a value for a cell exactly when no cell of the same row, the same
  column or the same box (rows \<open>r div BoxRows\<close>, columns \<open>c div BoxCols\<close>) holds it; the
  solver's search \<^verbatim>\<open>backtrack\<close> uses the same test and, from the same grid, succeeds for
  every state of the random source exactly when the counted set is not empty.
\<close>

theorem C3_hasUniqueSolution_on_valid_grid:
  assumes d: "wf_dims g" and wf: "wf_grid w" and sz: "Size w = Size g"
    and v: "Grid_Validate (g\<lparr>Cells := Cells w\<rparr>) = Some (Inr ())"
  shows "Grid_hasUniqueSolution g w 2 =
           Some (\<exists>!cs'. square (gsize g) cs' \<and> Grid_Validate (g\<lparr>Cells := cs'\<rparr>) = Some (Inr ()) \<and>
                   (\<forall>r<gsize g. \<forall>c<gsize g.
                      cs' ! r ! c \<noteq> 0 \<and> (Cells w ! r ! c \<noteq> 0 \<longrightarrow> cs' ! r ! c = Cells w ! r ! c))) \<and>
         Grid_Clone w = Some w \<and>
         (\<exists>stop cur.
            Grid_dfs g 2 w 0 =
              Some (stop, cur,
                min 2 (int (card {cs'. square (gsize g) cs' \<and>
                   Grid_Validate (g\<lparr>Cells := cs'\<rparr>) = Some (Inr ()) \<and>
                   (\<forall>r<gsize g. \<forall>c<gsize g.
                      cs' ! r ! c \<noteq> 0 \<and> (Cells w ! r ! c \<noteq> 0 \<longrightarrow> cs' ! r ! c = Cells w ! r ! c))}))) \<and>
            stop = (2 \<le> card {cs'. square (gsize g) cs' \<and>
                   Grid_Validate (g\<lparr>Cells := cs'\<rparr>) = Some (Inr ()) \<and>
                   (\<forall>r<gsize g. \<forall>c<gsize g.
                      cs' ! r ! c \<noteq> 0 \<and> (Cells w ! r ! c \<noteq> 0 \<longrightarrow> cs' ! r ! c = Cells w ! r ! c))})) \<and>
         (\<forall>(cur::Grid) r c x. square (gsize g) (Cells cur) \<and> r < gsize g \<and> c < gsize g \<longrightarrow>
            Grid_isSafe g cur r c x =
              Some (\<forall>r'<gsize g. \<forall>c'<gsize g.
                      r = r' \<or> c = c' \<or>
                      (r div nat (BoxRows g) = r' div nat (BoxRows g) \<and>
                       c div nat (BoxCols g) = c' div nat (BoxCols g)) \<longrightarrow>
                      Cells cur ! r' ! c' \<noteq> x)) \<and>
         (\<forall>rnd. \<exists>ok w' rnd'.
            Grid_backtrack g w rnd = Some (ok, w', rnd') \<and>
            ok = (\<exists>cs'. square (gsize g) cs' \<and> Grid_Validate (g\<lparr>Cells := cs'\<rparr>) = Some (Inr ()) \<and>
                   (\<forall>r<gsize g. \<forall>c<gsize g.
                      cs' ! r ! c \<noteq> 0 \<and> (Cells w ! r ! c \<noteq> 0 \<longrightarrow> cs' ! r ! c = Cells w ! r ! c))))"
proof -
  define S where "S = (\<lambda>cs'. square (gsize g) cs' \<and> Grid_Validate (g\<lparr>Cells := cs'\<rparr>) = Some (Inr ()) \<and>
                   (\<forall>r<gsize g. \<forall>c<gsize g.
                      cs' ! r ! c \<noteq> 0 \<and> (Cells w ! r ! c \<noteq> 0 \<longrightarrow> cs' ! r ! c = Cells w ! r ! c)))"
  from wf sz have sq: "square (gsize g) (Cells w)" by (simp add: wf_grid_def gsize_def)
  have eq: "\<And>cs'. completion g (Cells w) cs' = S cs'"
    unfolding S_def by (rule completion_Validate_iff[OF d sq v])
  have set_eq: "completions g (Cells w) = {cs'. S cs'}" by (simp add: completions_def eq)
  have c1: "Grid_hasUniqueSolution g w 2 = Some (\<exists>!cs'. S cs')"
    using Grid_hasUniqueSolution_spec(1)[OF d wf sz] by (simp add: eq)
  have c2: "Grid_Clone w = Some w" by (rule Grid_Clone_wf[OF wf])
  have c3: "\<exists>stop cur. Grid_dfs g 2 w 0 = Some (stop, cur, min 2 (int (card {cs'. S cs'}))) \<and>
              stop = (2 \<le> card {cs'. S cs'})"
    using Grid_hasUniqueSolution_spec(2)[OF d wf sz] by (simp add: set_eq)
  have c4: "\<forall>(cur::Grid) r c x. square (gsize g) (Cells cur) \<and> r < gsize g \<and> c < gsize g \<longrightarrow>
            Grid_isSafe g cur r c x =
              Some (\<forall>r'<gsize g. \<forall>c'<gsize g.
                      r = r' \<or> c = c' \<or>
                      (r div nat (BoxRows g) = r' div nat (BoxRows g) \<and>
                       c div nat (BoxCols g) = c' div nat (BoxCols g)) \<longrightarrow>
                      Cells cur ! r' ! c' \<noteq> x)"
  proof (intro allI impI)
    fix cur :: Grid and r c x
    assume a: "square (gsize g) (Cells cur) \<and> r < gsize g \<and> c < gsize g"
    then have "Grid_isSafe g cur r c x = Some (unit_free g (Cells cur) (r, c) x)"
      by (intro Grid_isSafe_eq[OF d]) simp_all
    then show "Grid_isSafe g cur r c x =
              Some (\<forall>r'<gsize g. \<forall>c'<gsize g.
                      r = r' \<or> c = c' \<or>
                      (r div nat (BoxRows g) = r' div nat (BoxRows g) \<and>
                       c div nat (BoxCols g) = c' div nat (BoxCols g)) \<longrightarrow>
                      Cells cur ! r' ! c' \<noteq> x)"
      by (simp add: unit_free_def same_unit_def)
  qed
  have c5: "\<forall>rnd. \<exists>ok w' rnd'. Grid_backtrack g w rnd = Some (ok, w', rnd') \<and> ok = (\<exists>cs'. S cs')"
  proof
    fix rnd
    from Grid_backtrack_spec(1)[OF d sq, of rnd]
    show "\<exists>ok w' rnd'. Grid_backtrack g w rnd = Some (ok, w', rnd') \<and> ok = (\<exists>cs'. S cs')"
    proof (elim disjE exE conjE)
      fix w' rnd'
      assume "Grid_backtrack g w rnd = Some (True, w', rnd')" "completion g (Cells w) (Cells w')"
      then show ?thesis unfolding eq by blast
    next
      fix rnd'
      assume "Grid_backtrack g w rnd = Some (False, w, rnd')" "\<forall>cs'. \<not> completion g (Cells w) cs'"
      then show ?thesis unfolding eq by blast
    qed
  qed
  from c1 c2 c3 c4 c5 show ?thesis unfolding S_def by (intro conjI)
qed

theorem C3_hasUniqueSolution_on_valid_grid_witness:
  "wf_dims puzzle4 \<and> wf_grid puzzle4 \<and> Size puzzle4 = Size puzzle4 \<and>
   Grid_Validate (puzzle4\<lparr>Cells := Cells puzzle4\<rparr>) = Some (Inr ()) \<and>
   Grid_hasUniqueSolution puzzle4 puzzle4 2 = Some True \<and>
   (\<exists>!cs'. square (gsize puzzle4) cs' \<and> Grid_Validate (puzzle4\<lparr>Cells := cs'\<rparr>) = Some (Inr ()) \<and>
       (\<forall>r<gsize puzzle4. \<forall>c<gsize puzzle4.
          cs' ! r ! c \<noteq> 0 \<and> (Cells puzzle4 ! r ! c \<noteq> 0 \<longrightarrow> cs' ! r ! c = Cells puzzle4 ! r ! c)))"
proof -
  have wf: "wf_grid puzzle4" by code_simp
  then have d: "wf_dims puzzle4" by (simp add: wf_grid_def)
  have v: "Grid_Validate (puzzle4\<lparr>Cells := Cells puzzle4\<rparr>) = Some (Inr ())" by code_simp
  have u: "Grid_hasUniqueSolution puzzle4 puzzle4 2 = Some True" by code_simp
  from C3_hasUniqueSolution_on_valid_grid[OF d wf refl v] u wf d v show ?thesis by simp
qed




text \<open>
  C4. For every grid \<open>g\<close> of size at most 9 that passes \<^verbatim>\<open>Validate\<close>, \<^verbatim>\<open>g.String()\<close>
  returns a string, and \<^verbatim>\<open>FromStringN\<close> applied to that string and the dimensions of \<open>g\<close>
  succeeds and returns \<open>g\<close>.
\<close>

theorem C4_String_FromStringN_roundtrip:
  assumes wf: "wf_grid g" and le9: "Size g \<le> 9" and v: "Grid_Validate g = Some (Inr ())"
  shows "\<exists>str. Grid_String g = Some str \<and>
           FromStringN str (Size g) (BoxRows g) (BoxCols g) = Some (Inr g)"
  using wf le9 v by (rule Grid_roundtrip)

theorem C4_String_FromStringN_roundtrip_witness:
  "wf_grid puzzle4 \<and> Size puzzle4 \<le> 9 \<and> Grid_Validate puzzle4 = Some (Inr ()) \<and>
   Grid_String puzzle4 = Some ''1004341001434001'' \<and>
   FromStringN ''1004341001434001'' 4 2 2 = Some (Inr puzzle4)"
proof -
  have wf: "wf_grid puzzle4" by code_simp
  have le9: "Size puzzle4 \<le> 9" by (simp add: puzzle4_def)
  have v: "Grid_Validate puzzle4 = Some (Inr ())" by code_simp
  have s: "Grid_String puzzle4 = Some ''1004341001434001''" by code_simp
  have dims: "Size puzzle4 = 4" "BoxRows puzzle4 = 2" "BoxCols puzzle4 = 2"
    by (simp_all add: puzzle4_def)
  from C4_String_FromStringN_roundtrip[OF wf le9 v] s
  have "FromStringN ''1004341001434001'' 4 2 2 = Some (Inr puzzle4)" by (simp add: dims)
  with wf le9 v s show ?thesis by simp
qed

text \<open>
  C7. As stated, for all dimensions, the claim fails: \<^verbatim>\<open>FromStringN\<close> first compares
  \<open>size\<close> with \<open>boxRows * boxCols\<close> and rejects the call when they differ. The string
  \<^verbatim>\<open>0000\<close> with size 2 and boxes 1x1 has the right length and only legal characters, and the
  grid it decodes to passes \<^verbatim>\<open>Validate\<close>; the parse fails all the same.
\<close>

theorem C7_dimension_mismatch_counterexample:
  "FromStringN ''0000'' 2 1 1 = Some (Inl ErrInvalidDims) \<and>
   length ''0000'' = nat 2 * nat 2 \<and> list_all (legal_char 2) ''0000'' \<and>
   Grid_Validate (decode_grid ''0000'' 2 1 1) = Some (Inr ())"
proof -
  have "FromStringN ''0000'' 2 1 1 = Some (Inl ErrInvalidDims)"
    by (simp add: FromStringN_def int64_def)
  moreover have "Grid_Validate (decode_grid ''0000'' 2 1 1) = Some (Inr ())" by code_simp
  moreover have "list_all (legal_char 2) ''0000''" by (simp add: legal_char_def)
  ultimately show ?thesis by simp
qed

text \<open>
  C7, amended. For dimensions with \<open>boxRows, boxCols \<ge> 1\<close> and
  \<open>size = boxRows * boxCols \<le> 25\<close>: \<^verbatim>\<open>FromStringN\<close> succeeds exactly when the string has
  \<open>size * size\<close> characters, every character is \<^verbatim>\<open>0\<close>, \<^verbatim>\<open>.\<close> or a digit 1..9 of value at
  most \<open>size\<close>, and the grid decoded in row-major order passes \<^verbatim>\<open>Validate\<close>; it then returns
  that grid, and otherwise it returns an error and no grid. When \<open>size\<close> differs from
  \<open>boxRows * boxCols\<close> (the product taken in 64-bit arithmetic) it returns an error.
\<close>

theorem C7_FromStringN_accepts_iff:
  "(0 < boxRows \<and> 0 < boxCols \<and> sz = boxRows * boxCols \<and> sz \<le> MaxGridSize \<longrightarrow>
      (if length s = nat sz * nat sz \<and> (\<forall>ch\<in>set s. legal_char sz ch) \<and>
          Grid_Validate (decode_grid s sz boxRows boxCols) = Some (Inr ())
       then FromStringN s sz boxRows boxCols = Some (Inr (decode_grid s sz boxRows boxCols))
       else \<exists>e. FromStringN s sz boxRows boxCols = Some (Inl e))) \<and>
   (sz \<noteq> int64 (boxRows * boxCols) \<longrightarrow>
      FromStringN s sz boxRows boxCols = Some (Inl ErrInvalidDims))"
proof (intro conjI impI)
  assume "0 < boxRows \<and> 0 < boxCols \<and> sz = boxRows * boxCols \<and> sz \<le> MaxGridSize"
  then have "0 < boxRows" "0 < boxCols" "sz = boxRows * boxCols" "sz \<le> MaxGridSize" by simp_all
  then show "if length s = nat sz * nat sz \<and> (\<forall>ch\<in>set s. legal_char sz ch) \<and>
          Grid_Validate (decode_grid s sz boxRows boxCols) = Some (Inr ())
       then FromStringN s sz boxRows boxCols = Some (Inr (decode_grid s sz boxRows boxCols))
       else \<exists>e. FromStringN s sz boxRows boxCols = Some (Inl e)"
    by (rule FromStringN_spec)
next
  assume "sz \<noteq> int64 (boxRows * boxCols)"
  then show "FromStringN s sz boxRows boxCols = Some (Inl ErrInvalidDims)"
    by (simp add: FromStringN_def)
qed

theorem C7_FromStringN_accepts_iff_witness:
  "FromStringN ''1221'' 2 1 2 = Some (Inr solved2) \<and>
   (\<exists>e. FromStringN ''1x21'' 2 1 2 = Some (Inl e)) \<and>
   (\<exists>e. FromStringN ''1121'' 2 1 2 = Some (Inl e)) \<and>
   FromStringN ''0000'' 2 1 1 = Some (Inl ErrInvalidDims)"
proof -
  have hyp: "(0::int) < 1 \<and> (0::int) < 2 \<and> (2::int) = 1 * 2 \<and> (2::int) \<le> MaxGridSize"
    by (simp add: MaxGridSize_def)
  have v: "Grid_Validate (decode_grid ''1221'' 2 1 2) = Some (Inr ())" by code_simp
  have dg: "decode_grid ''1221'' 2 1 2 = solved2" by code_simp
  have nv: "Grid_Validate (decode_grid ''1121'' 2 1 2) \<noteq> Some (Inr ())" by code_simp
  have a: "FromStringN ''1221'' 2 1 2 = Some (Inr solved2)"
    using C7_FromStringN_accepts_iff[of 1 2 2 "''1221''"] hyp v dg by (simp add: legal_char_def)
  have b: "\<exists>e. FromStringN ''1x21'' 2 1 2 = Some (Inl e)"
    using C7_FromStringN_accepts_iff[of 1 2 2 "''1x21''"] hyp by (simp add: legal_char_def)
  have c: "\<exists>e. FromStringN ''1121'' 2 1 2 = Some (Inl e)"
    using C7_FromStringN_accepts_iff[of 1 2 2 "''1121''"] hyp nv by (simp add: legal_char_def)
  have d: "FromStringN ''0000'' 2 1 1 = Some (Inl ErrInvalidDims)"
    using C7_FromStringN_accepts_iff[of 1 1 2 "''0000''"] by (simp add: int64_def)
  from a b c d show ?thesis by simp
qed


text \<open>
  C6. The package's only state is the random source \<^verbatim>\<open>globalRand\<close>, and \<^verbatim>\<open>SetRandSeed(K)\<close>
  replaces it by a generator made from \<open>K\<close> alone. So two calls of \<^verbatim>\<open>Generate\<close> with the
  same arguments, each made right after \<^verbatim>\<open>SetRandSeed(K)\<close>, return, and they return the same
  outcome: the same error, or the same puzzle. This holds whatever the random source was
  before the reseeding, in particular when the second call follows the first one.
\<close>

theorem C6_Generate_deterministic_after_SetRandSeed:
  "\<exists>res rnd'.
     Generate d n (SetRandSeed pcg K globalRand1) = Some (res, rnd') \<and>
     Generate d n (SetRandSeed pcg K globalRand2) = Some (res, rnd') \<and>
     Generate d n (SetRandSeed pcg K rnd') = Some (res, rnd')"
proof -
  from Generate_spec[of d n "SetRandSeed pcg K globalRand1"] obtain res rnd' where
    "Generate d n (SetRandSeed pcg K globalRand1) = Some (res, rnd')" by blast
  moreover have "SetRandSeed pcg K globalRand2 = SetRandSeed pcg K globalRand1"
    "\<And>r. SetRandSeed pcg K r = SetRandSeed pcg K globalRand1"
    by (simp_all add: SetRandSeed_def)
  ultimately show ?thesis by metis
qed


text \<open>
  C8. \<^verbatim>\<open>Grid.Solve\<close> works on the rows that \<^verbatim>\<open>Clone\<close> allocates. When the call returns,
  with success or with failure, the store has only grown: every row that existed before the
  call holds the same values as before, so every cell of the caller's grid \<open>g\<close> (and of any
  other grid) is unchanged, and the rows of the grid that is returned are new ones. For a
  well-formed grid whose rows are distinct arrays the call does return, with the result that
  \<open>Grid_Solve\<close> computes on the grid's value. The 9x9 \<^verbatim>\<open>Solve\<close> takes its board, a Go array, by
  value and has no access to the caller's board at all.
\<close>

theorem C8_Solve_leaves_caller_grid_unchanged:
  "(Solve_s g h rnd = Some (((res, ok), h'), rnd') \<longrightarrow>
      length h \<le> length h' \<and> (\<forall>a<length h. h' ! a = h ! a) \<and>
      (\<forall>a\<in>set (RCells res). length h \<le> a) \<and>
      ((\<forall>a\<in>set (RCells g). a < length h) \<longrightarrow> view h' g = view h g)) \<and>
   (valid_rows h (RCells g) \<and> wf_grid (view h g) \<longrightarrow>
      (\<exists>res ok h' rnd'. Solve_s g h rnd = Some (((res, ok), h'), rnd') \<and>
          Grid_Solve (view h g) rnd = Some ((view h' res, ok), rnd') \<and>
          view h' g = view h g))"
proof (intro conjI impI)
  assume run: "Solve_s g h rnd = Some (((res, ok), h'), rnd')"
  show "length h \<le> length h'" by (rule Solve_s_frame(1)[OF run])
  show "\<forall>a<length h. h' ! a = h ! a" by (rule Solve_s_frame(2)[OF run])
  show "\<forall>a\<in>set (RCells res). length h \<le> a" by (rule Solve_s_fresh[OF run])
  assume "\<forall>a\<in>set (RCells g). a < length h"
  with Solve_s_frame(2)[OF run] show "view h' g = view h g" by (rule view_unchanged)
next
  assume a: "valid_rows h (RCells g) \<and> wf_grid (view h g)"
  then have v: "valid_rows h (RCells g)" and wf: "wf_grid (view h g)" by simp_all
  from Solve_s_sim[OF v wf, of rnd] obtain res ok h' rnd' where
    run: "Solve_s g h rnd = Some (((res, ok), h'), rnd')"
    and p: "Grid_Solve (view h g) rnd = Some ((view h' res, ok), rnd')" by blast
  from v have "\<forall>a\<in>set (RCells g). a < length h" by (simp add: valid_rows_def)
  with Solve_s_frame(2)[OF run] have "view h' g = view h g" by (rule view_unchanged)
  with run p show "\<exists>res ok h' rnd'. Solve_s g h rnd = Some (((res, ok), h'), rnd') \<and>
          Grid_Solve (view h g) rnd = Some ((view h' res, ok), rnd') \<and>
          view h' g = view h g" by blast
qed

theorem C8_Solve_leaves_caller_grid_unchanged_witness:
  "valid_rows store2 (RCells ref2) \<and> wf_grid (view store2 ref2) \<and>
   map_option fst (Solve_s ref2 store2 zero_rng) =
     Some ((work2, True), [[1, 0], [0, 0], [1, 2], [2, 1]]) \<and>
   view [[1, 0], [0, 0], [1, 2], [2, 1]] ref2 = view store2 ref2 \<and>
   map_option fst (Solve_s ref2 stuck2 zero_rng) =
     Some ((zeroRef, False), [[1, 0], [1, 0], [1, 0], [1, 0]]) \<and>
   view [[1, 0], [1, 0], [1, 0], [1, 0]] ref2 = view stuck2 ref2 \<and>
   (\<exists>res ok h' rnd'.
      Solve_s ref2 store2 count_rng = Some (((res, ok), h'), rnd') \<and>
      Grid_Solve (view store2 ref2) count_rng = Some ((view h' res, ok), rnd') \<and>
      view h' ref2 = view store2 ref2)"
proof -
  have v: "valid_rows store2 (RCells ref2)" by (simp add: valid_rows_def store2_def ref2_def)
  have wf: "wf_grid (view store2 ref2)" by code_simp
  have a1: "\<forall>a\<in>set (RCells ref2). a < length store2" by (simp add: store2_def ref2_def)
  have a2: "\<forall>a\<in>set (RCells ref2). a < length stuck2" by (simp add: stuck2_def ref2_def)
  have s1: "map_option fst (Solve_s ref2 store2 zero_rng) =
              Some ((work2, True), [[1, 0], [0, 0], [1, 2], [2, 1]])" by code_simp
  have s2: "map_option fst (Solve_s ref2 stuck2 zero_rng) =
              Some ((zeroRef, False), [[1, 0], [1, 0], [1, 0], [1, 0]])" by code_simp
  from s1 obtain r1 where
    r1: "Solve_s ref2 store2 zero_rng = Some (((work2, True), [[1, 0], [0, 0], [1, 2], [2, 1]]), r1)"
    by auto
  from s2 obtain r2 where
    r2: "Solve_s ref2 stuck2 zero_rng = Some (((zeroRef, False), [[1, 0], [1, 0], [1, 0], [1, 0]]), r2)"
    by auto
  from C8_Solve_leaves_caller_grid_unchanged[of ref2 store2 zero_rng work2 True
         "[[1, 0], [0, 0], [1, 2], [2, 1]]" r1] r1 a1
  have u1: "view [[1, 0], [0, 0], [1, 2], [2, 1]] ref2 = view store2 ref2" by blast
  from C8_Solve_leaves_caller_grid_unchanged[of ref2 stuck2 zero_rng zeroRef False
         "[[1, 0], [1, 0], [1, 0], [1, 0]]" r2] r2 a2
  have u2: "view [[1, 0], [1, 0], [1, 0], [1, 0]] ref2 = view stuck2 ref2" by blast
  from C8_Solve_leaves_caller_grid_unchanged[of ref2 store2 count_rng] v wf
  have u3: "\<exists>res ok h' rnd'.
      Solve_s ref2 store2 count_rng = Some (((res, ok), h'), rnd') \<and>
      Grid_Solve (view store2 ref2) count_rng = Some ((view h' res, ok), rnd') \<and>
      view h' ref2 = view store2 ref2" by blast
  from v wf s1 s2 u1 u2 u3 show ?thesis by simp
qed

end
